(* ===== verification/Prelude.thy ===== *)
theory Prelude
  imports Main "HOL-Library.Word" "HOL-Library.Sublist" "HOL-Library.List_Lexorder"
begin

unbundle bit_operations_syntax

text \<open>
  Shared vocabulary of the development: the machine integers of the C and Rust sources as
  words, byte strings, big-endian numbers, the arithmetic of \<^verbatim>\<open>size_t\<close>, and the
  locales that state what an encoder and a decoder promise each other. Every other theory
  imports this one, directly or through a component.
\<close>

section \<open>Machine types\<close>

type_synonym u8 = "8 word"
type_synonym u16 = "16 word"
type_synonym u32 = "32 word"
type_synonym u64 = "64 word"
type_synonym bytes = "u8 list"

text \<open>
  A decoder consumes a prefix of a byte string. It returns its result, or \<open>None\<close> where the
  source returns zero, together with the input that is left; what is left after a failure is
  recorded too, because some callers go on after one.
\<close>

type_synonym 'a decoder = "bytes \<Rightarrow> 'a option \<times> bytes"

text \<open>Facts that read word operations as operations on natural numbers.\<close>

named_theorems unat_simps \<open>word operations as operations on natural numbers\<close>

section \<open>Words as natural numbers\<close>

lemma unat_u8_less [simp]: "unat (b :: u8) < 256"
  using unsigned_less [of b, where 'a = nat] by simp

lemma unat_u16_less [simp]: "unat (b :: u16) < 65536"
  using unsigned_less [of b, where 'a = nat] by simp

lemma unat_u32_less: "unat (b :: u32) < 2 ^ 32"
  using unsigned_less [of b, where 'a = nat] by simp

lemma unat_u64_less: "unat (b :: u64) < 2 ^ 64"
  using unsigned_less [of b, where 'a = nat] by simp

lemmas unat_less_numeral [simp] = unat_u32_less [simplified] unat_u64_less [simplified]

lemma unat_word_of_nat [unat_simps]:
  "unat (word_of_nat n :: 'l::len word) = n mod 2 ^ LENGTH('l)"
  by (simp add: unat_of_nat)

lemma unat_word_of_nat_small:
  "n < 2 ^ LENGTH('l) \<Longrightarrow> unat (word_of_nat n :: 'l::len word) = n"
  by (simp add: unat_simps)

lemma unat_ucast [unat_simps]:
  "unat (ucast (a :: 'k::len word) :: 'l::len word) = unat a mod 2 ^ LENGTH('l)"
  by (simp add: unsigned_ucast_eq take_bit_eq_mod)

lemma unat_ucast_up:
  assumes "LENGTH('k) \<le> LENGTH('l)"
  shows "unat (ucast (a :: 'k::len word) :: 'l::len word) = unat a"
proof -
  have "unat a < 2 ^ LENGTH('k)" by (rule unsigned_less)
  also have "(2 :: nat) ^ LENGTH('k) \<le> 2 ^ LENGTH('l)" using assms by (intro power_increasing) simp_all
  finally show ?thesis by (simp add: unat_simps)
qed

lemma unat_push_bit [unat_simps]:
  "unat (push_bit n (a :: 'l::len word)) = (unat a * 2 ^ n) mod 2 ^ LENGTH('l)"
  by (simp only: unsigned_push_bit_eq take_bit_eq_mod) (simp only: push_bit_eq_mult)

lemma unat_drop_bit [unat_simps]:
  "unat (drop_bit n (a :: 'l::len word)) = unat a div 2 ^ n"
  by (simp only: unat_drop_bit_eq) (simp only: drop_bit_eq_div)

lemma unat_take_bit [unat_simps]:
  "unat (take_bit n (a :: 'l::len word)) = unat a mod 2 ^ n"
  by (simp only: unsigned_take_bit_eq) (simp only: take_bit_eq_mod)

lemma word_eq_unat: "a = b \<longleftrightarrow> unat a = unat (b :: 'l::len word)"
  by (simp add: word_unat_eq_iff)

lemma unat_and_mask:
  "unat ((a :: 'l::len word) AND mask n) = unat a mod 2 ^ n"
  by (simp flip: take_bit_eq_mask add: unat_simps)

text \<open>Adding below a shifted value is the same as or-ing into it.\<close>

lemma push_bit_or_plus:
  fixes a b :: "'l::len word"
  assumes "unat b < 2 ^ n"
  shows "push_bit n a OR b = push_bit n a + b"
proof -
  have "b = take_bit n b"
    using assms by (simp add: word_eq_unat unat_simps)
  then have "\<not> bit b i" if "n \<le> i" for i
    using that by (metis bit_take_bit_iff leD)
  then show ?thesis
    by (intro disjunctive_add [symmetric]) (auto simp: bit_push_bit_iff)
qed

lemma or_plus_disjoint:
  fixes a b :: "'l::len word"
  assumes "unat b < 2 ^ n" and "2 ^ n dvd unat a"
  shows "a OR b = a + b"
proof -
  obtain k where k: "unat a = k * 2 ^ n"
    using assms(2) by (metis dvd_def mult.commute)
  have "a = push_bit n (word_of_nat k)"
    by (simp add: word_eq_unat unat_simps mod_mult_left_eq flip: k)
  then show ?thesis
    using push_bit_or_plus [OF assms(1)] by simp
qed

lemma unat_push_or:
  fixes a b :: "'l::len word"
  assumes "unat b < 2 ^ n" and "unat a * 2 ^ n + unat b < 2 ^ LENGTH('l)"
  shows "unat (push_bit n a OR b) = unat a * 2 ^ n + unat b"
  using assms
  by (simp add: push_bit_or_plus unat_word_ariths unat_simps)

lemma u8_all: "(\<forall>b::u8. P b) = list_all (\<lambda>n. P (word_of_nat n)) [0..<256]"
proof
  assume h: "list_all (\<lambda>n. P (word_of_nat n)) [0..<256]"
  have "P b" for b :: u8
  proof -
    have "P (word_of_nat (unat b))"
      using h unat_u8_less [of b] unfolding list_all_iff by (metis atLeast0LessThan lessThan_iff atLeastLessThan_iff set_upt zero_le)
    then show ?thesis by simp
  qed
  then show "\<forall>b. P b" by blast
qed (simp add: list_all_iff)

text \<open>A property of the integers below a bound, from its evaluation at each of them.\<close>

lemma int_scan:
  assumes "list_all P (map int [0..<n])" and "0 \<le> x" and "x < int n"
  shows "P x"
proof -
  have "x \<in> set (map int [0..<n])"
    using assms(2,3) by (auto intro!: image_eqI [of _ _ "nat x"])
  with assms(1) show ?thesis by (simp only: list_all_iff)
qed

section \<open>Big-endian numbers\<close>

text \<open>\<open>be_val\<close> reads a byte string as a number; \<open>be_bytes n v\<close> writes \<open>v\<close> in \<open>n\<close> bytes.\<close>

definition be_val :: "bytes \<Rightarrow> nat" where
  "be_val bs = foldl (\<lambda>a b. a * 256 + unat b) 0 bs"

fun be_bytes :: "nat \<Rightarrow> nat \<Rightarrow> bytes" where
  "be_bytes 0 v = []"
| "be_bytes (Suc n) v = be_bytes n (v div 256) @ [word_of_nat v]"

lemma be_val_Nil [simp]: "be_val [] = 0"
  by (simp add: be_val_def)

lemma be_val_snoc [simp]: "be_val (bs @ [b]) = be_val bs * 256 + unat b"
  by (simp add: be_val_def)

lemma be_val_append: "be_val (xs @ ys) = be_val xs * 256 ^ length ys + be_val ys"
proof (induction ys rule: rev_induct)
  case (snoc y ys)
  then show ?case
    by (simp flip: append_assoc add: algebra_simps)
qed simp

lemma be_val_Cons: "be_val (b # bs) = unat b * 256 ^ length bs + be_val bs"
  using be_val_append [of "[b]" bs] by (simp add: be_val_def)

lemma be_val_less: "be_val bs < 256 ^ length bs"
proof (induction bs rule: rev_induct)
  case (snoc b bs)
  have "be_val bs * 256 + unat b < (be_val bs + 1) * 256" by simp
  also have "\<dots> \<le> 256 ^ length bs * 256"
    using snoc by (intro mult_right_mono) auto
  finally show ?case by (simp add: mult.commute)
qed simp

lemma length_be_bytes [simp]: "length (be_bytes n v) = n"
  by (induction n arbitrary: v) auto

lemma be_val_be_bytes [simp]: "be_val (be_bytes n v) = v mod 256 ^ n"
proof (induction n arbitrary: v)
  case (Suc n)
  have "v div 256 mod 256 ^ n * 256 + v mod 256 = v mod (256 * 256 ^ n)"
    by (simp add: mod_mult2_eq)
  with Suc show ?case
    by (simp add: unat_simps)
qed (simp add: be_val_def)

lemma be_bytes_be_val: "length bs = n \<Longrightarrow> be_bytes n (be_val bs) = bs"
proof (induction n arbitrary: bs)
  case (Suc n)
  then obtain cs c where bs: "bs = cs @ [c]" and len: "length cs = n"
    by (metis length_Suc_conv_rev)
  have "unat c < 256" by simp
  moreover have "word_of_nat (be_val cs * 256 + unat c) = c"
    by (simp only: word_eq_unat unat_word_of_nat) simp
  ultimately show ?case
    using Suc.IH [OF len] by (simp add: bs)
qed simp

lemma be_val_inj: "length xs = length ys \<Longrightarrow> be_val xs = be_val ys \<Longrightarrow> xs = ys"
  by (metis be_bytes_be_val)

section \<open>Sizes\<close>

text \<open>
  A \<^verbatim>\<open>size_t\<close> is modelled as a natural number below \<open>2 ^ 64\<close>; the additions the code
  checks for overflow are written with their wrap-around.
\<close>

definition size_add :: "nat \<Rightarrow> nat \<Rightarrow> nat" where
  "size_add a b = (a + b) mod 2 ^ 64"

lemma size_add_exact [simp]: "a + b < 2 ^ 64 \<Longrightarrow> size_add a b = a + b"
  by (simp add: size_add_def)

lemma size_add_overflow:
  assumes "a < 2 ^ 64" and "b < 2 ^ 64"
  shows "size_add a b < a \<longleftrightarrow> 2 ^ 64 \<le> a + b"
proof (cases "a + b < 2 ^ 64")
  case False
  then have "(a + b) mod 2 ^ 64 = a + b - 2 ^ 64"
    using assms by (simp add: mod_if)
  with False assms show ?thesis
    by (simp add: size_add_def)
qed (simp add: size_add_def)

section \<open>Encoders and decoders\<close>

text \<open>
  What a decoder promises its encoder: an encoded value is read back and the bytes after it
  are left alone. A canonical decoder accepts nothing else.
\<close>

locale wire_codec =
  fixes enc :: "'a \<Rightarrow> bytes"
    and dec :: "'a decoder"
    and valid :: "'a \<Rightarrow> bool"
  assumes dec_enc: "valid v \<Longrightarrow> dec (enc v @ r) = (Some v, r)"
begin

text \<open>No encoding is a proper prefix of another one, so a concatenation splits in one way.\<close>

lemma enc_prefix_free:
  assumes "valid v" and "valid w" and "enc v @ r = enc w @ s"
  shows "v = w \<and> r = s"
proof -
  have "(Some v, r) = dec (enc v @ r)"
    by (rule dec_enc [OF assms(1), symmetric])
  also have "\<dots> = dec (enc w @ s)"
    by (simp only: assms(3))
  also have "\<dots> = (Some w, s)"
    by (rule dec_enc [OF assms(2)])
  finally show ?thesis by simp
qed

primrec dec_many :: "nat \<Rightarrow> 'a list decoder" where
  "dec_many 0 s = (Some [], s)"
| "dec_many (Suc n) s =
     (case dec s of
        (None, s') \<Rightarrow> (None, s')
      | (Some v, s') \<Rightarrow>
          (case dec_many n s' of
             (None, s'') \<Rightarrow> (None, s'')
           | (Some vs, s'') \<Rightarrow> (Some (v # vs), s'')))"

lemma dec_many_enc:
  "list_all valid vs \<Longrightarrow> dec_many (length vs) (concat (map enc vs) @ r) = (Some vs, r)"
  by (induction vs) (auto simp: dec_enc)

end

locale canonical_codec = wire_codec +
  assumes enc_dec: "dec s = (Some v, r) \<Longrightarrow> valid v \<and> s = enc v @ r"
begin

lemma dec_iff: "dec s = (Some v, r) \<longleftrightarrow> valid v \<and> s = enc v @ r"
  using dec_enc [of v r] enc_dec [of s v r] by auto

text \<open>One value has one accepted encoding.\<close>

lemma dec_unique:
  assumes "dec s = (Some v, r)" and "dec t = (Some v, r)"
  shows "s = t"
  using assms by (simp add: dec_iff)

lemma dec_suffix: "dec s = (Some v, r) \<Longrightarrow> suffix r s"
  using enc_dec by (auto simp: suffix_def)

end

end
