(* ===== verification/PosixTime.thy ===== *)
theory PosixTime
  imports Prelude "HOL-Library.Signed_Division" "HOL-Library.Product_Lexorder"
begin

text \<open>
  Calendar time of \<^verbatim>\<open>crypto/asn1/posix_time.cc\<close>: the conversion between a broken-down
  UTC time and POSIX seconds that certificate validity checks rest on. The C code computes
  in \<^verbatim>\<open>int64_t\<close> on values its range checks keep small, so the model computes in \<open>int\<close>;
  the two additions that can leave the range carry the checks the code makes. C division
  truncates: \<open>sdiv\<close> and \<open>smod\<close>.
\<close>

section \<open>Model\<close>

text \<open>The fields of \<^verbatim>\<open>struct tm\<close> the code reads and writes.\<close>

record tm =
  tm_year :: int
  tm_mon :: int
  tm_mday :: int
  tm_hour :: int
  tm_min :: int
  tm_sec :: int

definition SECS_PER_HOUR :: int where "SECS_PER_HOUR = 3600"
definition SECS_PER_DAY :: int where "SECS_PER_DAY = 86400"
definition MIN_POSIX_TIME :: int where "MIN_POSIX_TIME = - 62167219200"
definition MAX_POSIX_TIME :: int where "MAX_POSIX_TIME = 253402300799"
definition INT64_MAX :: int where "INT64_MAX = 2 ^ 63 - 1"
definition INT64_MIN :: int where "INT64_MIN = - (2 ^ 63)"

definition is_leap :: "int \<Rightarrow> bool" where
  "is_leap year \<longleftrightarrow> (year smod 4 = 0 \<and> year smod 100 \<noteq> 0) \<or> year smod 400 = 0"

definition is_valid_date :: "int \<Rightarrow> int \<Rightarrow> int \<Rightarrow> bool" where
  "is_valid_date year month day =
     (if day < 1 \<or> month < 1 \<or> year < 0 \<or> year > 9999 then False
      else if month \<in> {1, 3, 5, 7, 8, 10, 12} then day > 0 \<and> day \<le> 31
      else if month \<in> {4, 6, 9, 11} then day > 0 \<and> day \<le> 30
      else if month = 2 then
        (if is_leap year then day > 0 \<and> day \<le> 29 else day > 0 \<and> day \<le> 28)
      else False)"

definition is_valid_time :: "int \<Rightarrow> int \<Rightarrow> int \<Rightarrow> bool" where
  "is_valid_time hours minutes seconds =
     (if hours < 0 \<or> minutes < 0 \<or> seconds < 0 \<or> hours > 23 \<or> minutes > 59 \<or> seconds > 59
      then False else True)"

definition is_valid_posix_time :: "int \<Rightarrow> bool" where
  "is_valid_posix_time t \<longleftrightarrow> MIN_POSIX_TIME \<le> t \<and> t \<le> MAX_POSIX_TIME"

definition posix_time_from_utc ::
  "int \<Rightarrow> int \<Rightarrow> int \<Rightarrow> int \<Rightarrow> int \<Rightarrow> int \<Rightarrow> int option" where
  "posix_time_from_utc year month day hours minutes seconds =
     (if \<not> is_valid_date year month day \<or> \<not> is_valid_time hours minutes seconds then None
      else
        let year = (if month \<le> 2 then year - 1 else year);
            era = (if year \<ge> 0 then year else year - 399) sdiv 400;
            year_of_era = year - era * 400;
            day_of_year =
              (153 * (if month > 2 then month - 3 else month + 9) + 2) sdiv 5 + day - 1;
            day_of_era =
              year_of_era * 365 + year_of_era sdiv 4 - year_of_era sdiv 100 + day_of_year;
            posix_days = era * 146097 + day_of_era - 719468
        in Some (posix_days * SECS_PER_DAY + hours * SECS_PER_HOUR + minutes * 60 + seconds))"

definition utc_from_posix_time ::
  "int \<Rightarrow> (int \<times> int \<times> int \<times> int \<times> int \<times> int) option" where
  "utc_from_posix_time time =
     (if \<not> is_valid_posix_time time then None
      else
        let days = time sdiv SECS_PER_DAY;
            leftover_seconds = time smod SECS_PER_DAY;
            (days, leftover_seconds) =
              (if leftover_seconds < 0 then (days - 1, leftover_seconds + SECS_PER_DAY)
               else (days, leftover_seconds));
            days = days + 719468;
            era = (if days > 0 then days else days - 146096) sdiv 146097;
            day_of_era = days - era * 146097;
            year_of_era =
              (day_of_era - day_of_era sdiv 1460 + day_of_era sdiv 36524
                 - day_of_era sdiv 146096) sdiv 365;
            out_year = year_of_era + era * 400;
            day_of_year =
              day_of_era - (365 * year_of_era + year_of_era sdiv 4 - year_of_era sdiv 100);
            month_of_year = (5 * day_of_year + 2) sdiv 153;
            out_month = (if month_of_year < 10 then month_of_year + 3 else month_of_year - 9);
            out_year = (if out_month \<le> 2 then out_year + 1 else out_year);
            out_day = day_of_year - (153 * month_of_year + 2) sdiv 5 + 1;
            out_hours = leftover_seconds sdiv SECS_PER_HOUR;
            leftover_seconds = leftover_seconds smod SECS_PER_HOUR;
            out_minutes = leftover_seconds sdiv 60;
            out_seconds = leftover_seconds smod 60
        in Some (out_year, out_month, out_day, out_hours, out_minutes, out_seconds))"

definition OPENSSL_tm_to_posix :: "tm \<Rightarrow> int option" where
  "OPENSSL_tm_to_posix tm =
     posix_time_from_utc (tm_year tm + 1900) (tm_mon tm + 1) (tm_mday tm)
       (tm_hour tm) (tm_min tm) (tm_sec tm)"

definition OPENSSL_posix_to_tm :: "int \<Rightarrow> tm option" where
  "OPENSSL_posix_to_tm time =
     (case utc_from_posix_time time of
        None \<Rightarrow> None
      | Some (y, m, d, h, mi, s) \<Rightarrow>
          Some \<lparr>tm_year = y - 1900, tm_mon = m - 1, tm_mday = d,
                tm_hour = h, tm_min = mi, tm_sec = s\<rparr>)"

text \<open>The width of \<^verbatim>\<open>time_t\<close>, four or eight bytes, is the platform's.\<close>

definition OPENSSL_timegm :: "nat \<Rightarrow> tm \<Rightarrow> int option" where
  "OPENSSL_timegm sizeof_time_t tm =
     (case OPENSSL_tm_to_posix tm of
        None \<Rightarrow> None
      | Some posix_time \<Rightarrow>
          if sizeof_time_t = 4 \<and> (posix_time > 2 ^ 31 - 1 \<or> posix_time < - (2 ^ 31)) then None
          else Some posix_time)"

definition OPENSSL_gmtime :: "int \<Rightarrow> tm option" where
  "OPENSSL_gmtime time = OPENSSL_posix_to_tm time"

definition OPENSSL_gmtime_adj :: "tm \<Rightarrow> int \<Rightarrow> int \<Rightarrow> tm option" where
  "OPENSSL_gmtime_adj tm offset_day offset_sec =
     (case OPENSSL_tm_to_posix tm of
        None \<Rightarrow> None
      | Some posix_time \<Rightarrow>
          let posix_time = posix_time + offset_day * SECS_PER_DAY
          in if posix_time > 0 \<and> offset_sec > INT64_MAX - posix_time then None
             else if posix_time < 0 \<and> offset_sec < INT64_MIN - posix_time then None
             else OPENSSL_posix_to_tm (posix_time + offset_sec))"

definition OPENSSL_gmtime_diff :: "tm \<Rightarrow> tm \<Rightarrow> (int \<times> int) option" where
  "OPENSSL_gmtime_diff from to =
     (case OPENSSL_tm_to_posix to of
        None \<Rightarrow> None
      | Some time_to \<Rightarrow>
          (case OPENSSL_tm_to_posix from of
             None \<Rightarrow> None
           | Some time_from \<Rightarrow>
               let timediff = time_to - time_from;
                   daydiff = timediff sdiv SECS_PER_DAY;
                   timediff = timediff smod SECS_PER_DAY
               in Some (daydiff, timediff)))"

section \<open>Truncating division\<close>

lemma sdiv_nonneg: "0 \<le> a \<Longrightarrow> 0 < b \<Longrightarrow> a sdiv b = a div (b :: int)"
  by (cases "a = 0") (simp_all add: signed_divide_int_def)

lemma smod_nonneg: "0 \<le> a \<Longrightarrow> 0 < b \<Longrightarrow> a smod b = a mod (b :: int)"
  by (cases "a = 0") (simp_all add: signed_modulo_int_def)

lemma sdiv_neg: "a < 0 \<Longrightarrow> 0 < b \<Longrightarrow> a sdiv b = - ((- a) div (b :: int))"
  by (simp add: signed_divide_int_def)

lemma smod_neg: "a < 0 \<Longrightarrow> 0 < b \<Longrightarrow> a smod b = - ((- a) mod (b :: int))"
  by (simp add: signed_modulo_int_def)

lemma sdiv_floor:
  assumes "0 < (b :: int)"
  shows "(if a \<ge> 0 then a else a - (b - 1)) sdiv b = a div b"
proof (cases "a \<ge> 0")
  case False
  define q where "q = a div b"
  define r where "r = a mod b"
  have a: "a = q * b + r" and r: "0 \<le> r" "r < b"
    using assms by (simp_all add: q_def r_def)
  have "b - 1 - a = (b - 1 - r) + b * (- q)"
    by (simp add: a algebra_simps)
  then have "(b - 1 - a) div b = - q"
    using r assms by (simp only: div_mult_self2) simp
  with False assms show ?thesis
    by (simp add: sdiv_neg q_def)
qed (simp add: assms sdiv_nonneg)

lemma floor_mod_of_trunc:
  assumes "0 < (b :: int)"
  shows "(if a smod b < 0 then (a sdiv b - 1, a smod b + b) else (a sdiv b, a smod b))
    = (a div b, a mod b)"
proof (cases "a \<ge> 0")
  case False
  then have "(- a) mod b = (if a mod b = 0 then 0 else b - a mod b)"
    by (simp add: zmod_zminus1_eq_if)
  moreover have "(- a) div b = (if a mod b = 0 then - (a div b) else - (a div b) - 1)"
    using False assms by (simp add: zdiv_zminus1_eq_if)
  moreover have "a mod b < b" using assms by simp
  ultimately show ?thesis
    using False assms by (simp add: sdiv_neg smod_neg)
qed (use assms pos_mod_sign [of b a] in \<open>simp add: sdiv_nonneg smod_nonneg not_less\<close>)

section \<open>Years of an era\<close>

text \<open>
  An era is 400 years that start on the first of March, so that a leap day is the last day of
  its year. Day \<open>year_start y\<close> of the era is the first day of its year \<open>y\<close>.
\<close>

definition year_start :: "int \<Rightarrow> int" where
  "year_start y = 365 * y + y div 4 - y div 100"

definition year_len :: "int \<Rightarrow> int" where
  "year_len y =
     (if (y + 1) mod 4 = 0 \<and> ((y + 1) mod 100 \<noteq> 0 \<or> (y + 1) mod 400 = 0) then 366 else 365)"

definition year_of_day :: "int \<Rightarrow> int" where
  "year_of_day d = (d - d div 1460 + d div 36524 - d div 146096) div 365"

lemma div_step:
  assumes "0 < (k :: int)"
  shows "(d + 1) div k = d div k + (if k dvd d + 1 then 1 else 0)"
proof -
  define r where "r = d mod k"
  have r: "0 \<le> r" "r < k" using assms by (simp_all add: r_def)
  have d: "d + 1 = (r + 1) + k * (d div k)"
    by (simp add: r_def)
  have "(d + 1) div k = d div k + (r + 1) div k"
    using assms by (subst d) (simp only: div_mult_self2)
  moreover have "k dvd d + 1 \<longleftrightarrow> k dvd r + 1"
    by (subst d) (rule dvd_add_left_iff, simp)
  moreover have "(r + 1) div k = (if k dvd r + 1 then 1 else 0)"
  proof (cases "r + 1 = k")
    case False
    with r have "(r + 1) div k = 0" and "\<not> k dvd r + 1"
      by (simp_all add: zdvd_not_zless)
    then show ?thesis by simp
  qed (use assms in simp)
  ultimately show ?thesis by simp
qed

text \<open>The numerator of \<open>year_of_day\<close> never decreases, so a year is found from its ends.\<close>

lemma year_numerator_step:
  "d - d div 1460 + d div 36524 - d div 146096
    \<le> (d + 1) - (d + 1) div 1460 + (d + 1) div 36524 - (d + 1) div (146096 :: int)"
proof -
  have "146096 dvd d + 1 \<Longrightarrow> 36524 dvd d + 1"
    by (rule dvd_trans [of _ "146096"]) simp_all
  moreover have "\<not> (146096 dvd d + 1 \<and> 1460 dvd d + 1 \<and> \<not> 36524 dvd d + 1)"
    using calculation by blast
  ultimately show ?thesis
    by (simp add: div_step)
qed

lemma year_of_day_mono:
  assumes "a \<le> b"
  shows "year_of_day a \<le> year_of_day b"
proof -
  have "a - a div 1460 + a div 36524 - a div 146096
    \<le> b - b div 1460 + b div 36524 - b div (146096 :: int)"
    using assms
  proof (induction b rule: int_ge_induct)
    case (step i)
    then show ?case using year_numerator_step [of i] by linarith
  qed simp
  then show ?thesis
    unfolding year_of_day_def by (rule zdiv_mono1) simp
qed

lemma year_ends:
  "list_all (\<lambda>y. year_of_day (year_start y) = y
      \<and> year_of_day (year_start y + year_len y - 1) = y) (map int [0..<400])"
  by code_simp

lemma year_of_day_start:
  assumes "0 \<le> y" and "y < 400" and "0 \<le> d" and "d < year_len y"
  shows "year_of_day (year_start y + d) = y"
proof -
  have lo: "year_of_day (year_start y) = y"
    and hi: "year_of_day (year_start y + year_len y - 1) = y"
    using int_scan [OF year_ends, of y] assms by simp_all
  have "year_of_day (year_start y) \<le> year_of_day (year_start y + d)"
    and "year_of_day (year_start y + d) \<le> year_of_day (year_start y + year_len y - 1)"
    using assms by (auto intro!: year_of_day_mono)
  with lo hi show ?thesis by simp
qed

lemma year_starts:
  "list_all (\<lambda>y. year_start y + year_len y = (if y = 399 then 146097 else year_start (y + 1)))
     (map int [0..<400])"
  by code_simp

lemma year_start_next:
  assumes "0 \<le> y" and "y < 400"
  shows "year_start y + year_len y = (if y = 399 then 146097 else year_start (y + 1))"
  using int_scan [OF year_starts, of y] assms by simp

lemma day_in_year_upto:
  assumes "0 \<le> d"
  shows "n < 400 \<Longrightarrow> d < year_start (int n) + year_len (int n)
    \<Longrightarrow> \<exists>y r. 0 \<le> y \<and> y < 400 \<and> 0 \<le> r \<and> r < year_len y \<and> d = year_start y + r"
proof (induction n)
  case 0
  with assms show ?case by (intro exI [of _ 0] exI [of _ d]) (simp add: year_start_def)
next
  case (Suc n)
  show ?case
  proof (cases "d < year_start (int n) + year_len (int n)")
    case True
    with Suc show ?thesis by simp
  next
    case False
    with Suc.prems year_start_next [of "int n"] have "year_start (int (Suc n)) \<le> d"
      by (simp add: add.commute)
    with Suc.prems show ?thesis
      by (intro exI [of _ "int (Suc n)"] exI [of _ "d - year_start (int (Suc n))"]) simp
  qed
qed

lemma day_in_some_year:
  assumes "0 \<le> d" and "d < 146097"
  obtains y r where "0 \<le> y" "y < 400" "0 \<le> r" "r < year_len y" "d = year_start y + r"
  using day_in_year_upto [OF assms(1), of 399] assms(2) year_start_next [of 399] by auto

section \<open>Months of a year that starts in March\<close>

definition month_start :: "int \<Rightarrow> int" where
  "month_start m = (153 * m + 2) div 5"

definition month_of_day :: "int \<Rightarrow> int" where
  "month_of_day d = (5 * d + 2) div 153"

text \<open>The length of a month, counted from March, with the longest February.\<close>

definition month_len :: "int \<Rightarrow> int" where
  "month_len m = (if m = 11 then 29 else if m \<in> {1, 3, 6, 8} then 30 else 31)"

lemma months_scan:
  "list_all (\<lambda>m. list_all (\<lambda>d. d < month_len m \<longrightarrow> month_of_day (month_start m + d) = m
      \<and> 0 \<le> month_start m + d \<and> month_start m + d < 366
      \<and> (month_start m + d = 365 \<longleftrightarrow> m = 11 \<and> d = 28)) (map int [0..<31])) (map int [0..<12])"
  by code_simp

lemma days_scan:
  "list_all (\<lambda>d. 0 \<le> month_of_day d \<and> month_of_day d < 12 \<and> month_start (month_of_day d) \<le> d
      \<and> d - month_start (month_of_day d) < month_len (month_of_day d)) (map int [0..<366])"
  by code_simp

lemma month_of_day_start:
  assumes "0 \<le> m" "m < 12" "0 \<le> d" "d < month_len m"
  shows "month_of_day (month_start m + d) = m"
    and "0 \<le> month_start m + d" and "month_start m + d < 366"
    and "month_start m + d = 365 \<longleftrightarrow> m = 11 \<and> d = 28"
proof -
  have "d < 31" using assms(4) by (simp add: month_len_def split: if_splits)
  then have "month_of_day (month_start m + d) = m
      \<and> 0 \<le> month_start m + d \<and> month_start m + d < 366
      \<and> (month_start m + d = 365 \<longleftrightarrow> m = 11 \<and> d = 28)"
    using int_scan [OF int_scan [OF months_scan, of m], of d] assms by simp
  then show "month_of_day (month_start m + d) = m"
    and "0 \<le> month_start m + d" and "month_start m + d < 366"
    and "month_start m + d = 365 \<longleftrightarrow> m = 11 \<and> d = 28"
    by simp_all
qed

lemma day_in_some_month:
  assumes "0 \<le> d" and "d < 366"
  shows "0 \<le> month_of_day d" and "month_of_day d < 12" and "month_start (month_of_day d) \<le> d"
    and "d - month_start (month_of_day d) < month_len (month_of_day d)"
  using int_scan [OF days_scan, of d] assms by simp_all

section \<open>Days and dates\<close>

text \<open>The day number and its date, with floor division throughout.\<close>

definition days_of_date :: "int \<Rightarrow> int \<Rightarrow> int \<Rightarrow> int" where
  "days_of_date y m d =
     (let y' = (if m \<le> 2 then y - 1 else y)
      in (y' div 400) * 146097 + year_start (y' mod 400)
           + month_start (if m > 2 then m - 3 else m + 9) + (d - 1) - 719468)"

definition date_of_days :: "int \<Rightarrow> int \<times> int \<times> int" where
  "date_of_days n =
     (let z = n + 719468; doe = z mod 146097; y = year_of_day doe;
          doy = doe - year_start y; mp = month_of_day doy;
          m = (if mp < 10 then mp + 3 else mp - 9);
          y' = y + (z div 146097) * 400
      in ((if m \<le> 2 then y' + 1 else y'), m, doy - month_start mp + 1))"

lemma is_leap_mod:
  assumes "0 \<le> y"
  shows "is_leap y \<longleftrightarrow> y mod 4 = 0 \<and> (y mod 100 \<noteq> 0 \<or> y mod 400 = 0)"
proof -
  have "y mod 400 = 0 \<Longrightarrow> y mod 4 = 0" by presburger
  with assms show ?thesis by (auto simp: is_leap_def smod_nonneg)
qed

lemma year_len_leap:
  assumes "0 \<le> y"
  shows "year_len ((y - 1) mod 400) = 366 \<longleftrightarrow> is_leap y"
proof -
  have "((y - 1) mod 400 + 1) mod k = y mod k" if "k dvd 400" for k
  proof -
    have "((y - 1) mod 400 + 1) mod k = ((y - 1) mod 400 mod k + 1) mod k"
      by (simp only: mod_add_left_eq)
    also have "\<dots> = ((y - 1) mod k + 1) mod k"
      by (simp only: mod_mod_cancel [OF that])
    also have "\<dots> = y mod k"
      by (simp only: mod_add_left_eq) simp
    finally show ?thesis .
  qed
  then have "((y - 1) mod 400 + 1) mod 4 = y mod 4" "((y - 1) mod 400 + 1) mod 100 = y mod 100"
    "((y - 1) mod 400 + 1) mod 400 = y mod 400"
    by simp_all
  then show ?thesis by (simp add: year_len_def is_leap_mod [OF assms])
qed

text \<open>A valid date is a month of the March year, a day of it, and a leap day only in a leap year.\<close>

lemma is_valid_date_iff:
  "is_valid_date y m d \<longleftrightarrow>
     0 \<le> y \<and> y \<le> 9999 \<and> 1 \<le> m \<and> m \<le> 12 \<and> 1 \<le> d
       \<and> d \<le> month_len (if m > 2 then m - 3 else m + 9)
       \<and> (m = 2 \<and> d = 29 \<longrightarrow> is_leap y)"
  (is "?l \<longleftrightarrow> ?r")
proof (cases "0 \<le> y \<and> y \<le> 9999 \<and> 1 \<le> m \<and> m \<le> 12 \<and> 1 \<le> d")
  case True
  then have "m = 1 \<or> m = 2 \<or> m = 3 \<or> m = 4 \<or> m = 5 \<or> m = 6 \<or> m = 7 \<or> m = 8 \<or> m = 9
    \<or> m = 10 \<or> m = 11 \<or> m = 12" by arith
  with True show ?thesis
    by (elim disjE) (auto simp: is_valid_date_def month_len_def)
qed (auto simp: is_valid_date_def)

text \<open>Where a valid date falls in its era: the facts both directions of the conversion use.\<close>

lemma valid_date_position:
  assumes "is_valid_date y m d"
  defines "y' \<equiv> (if m \<le> 2 then y - 1 else y)"
    and "mp \<equiv> (if m > 2 then m - 3 else m + 9)"
  defines "doy \<equiv> month_start mp + (d - 1)"
  shows "0 \<le> doy" and "doy < year_len (y' mod 400)" and "month_of_day doy = mp"
    and "0 \<le> mp" and "mp < 12"
proof -
  have v: "0 \<le> y" "1 \<le> m" "m \<le> 12" "1 \<le> d" "d \<le> month_len mp"
    "m = 2 \<and> d = 29 \<longrightarrow> is_leap y"
    using assms(1) unfolding is_valid_date_iff mp_def by blast+
  show mp: "0 \<le> mp" "mp < 12"
    using v by (auto simp: mp_def)
  note pos = month_of_day_start [OF mp, of "d - 1", folded doy_def]
  show "0 \<le> doy" "month_of_day doy = mp"
    using pos v by simp_all
  have "doy < 366" and last: "doy = 365 \<longleftrightarrow> mp = 11 \<and> d - 1 = 28"
    using pos v by simp_all
  moreover have "doy = 365 \<longrightarrow> year_len (y' mod 400) = 366"
    using last v year_len_leap [OF v(1)] by (auto simp: mp_def y'_def split: if_splits)
  moreover have "365 \<le> year_len (y' mod 400)"
    by (simp add: year_len_def)
  ultimately show "doy < year_len (y' mod 400)" by linarith
qed

lemma year_bounds_scan:
  "list_all (\<lambda>y. 0 \<le> year_start y \<and> year_start y + year_len y \<le> 146097
      \<and> (y < 399 \<longrightarrow> year_start y + year_len y \<le> 145731)) (map int [0..<400])"
  by code_simp

lemma year_start_bounds:
  assumes "0 \<le> y" and "y < 400"
  shows "0 \<le> year_start y" and "year_start y + year_len y \<le> 146097"
    and "y < 399 \<longrightarrow> year_start y + year_len y \<le> 145731"
  using int_scan [OF year_bounds_scan, of y] assms by simp_all

lemma date_of_days_of_date:
  assumes "is_valid_date y m d"
  shows "date_of_days (days_of_date y m d) = (y, m, d)"
proof -
  define y' where "y' = (if m \<le> 2 then y - 1 else y)"
  define mp where "mp = (if m > 2 then m - 3 else m + 9)"
  define doy where "doy = month_start mp + (d - 1)"
  note pos = valid_date_position [OF assms, folded y'_def mp_def doy_def]
  define doe where "doe = year_start (y' mod 400) + doy"
  have y: "year_of_day doe = y' mod 400"
    unfolding doe_def by (rule year_of_day_start) (use pos in simp_all)
  have "0 \<le> doe" and "doe < 146097"
    using year_start_bounds [of "y' mod 400"] pos by (simp_all add: doe_def)
  moreover have "days_of_date y m d + 719468 = doe + (y' div 400) * 146097"
    by (simp add: days_of_date_def Let_def y'_def mp_def doy_def doe_def)
  ultimately have "(days_of_date y m d + 719468) mod 146097 = doe"
    and "(days_of_date y m d + 719468) div 146097 = y' div 400"
    by simp_all
  moreover have "1 \<le> m" and "m \<le> 12"
    using assms by (simp_all add: is_valid_date_iff)
  ultimately show ?thesis
    using pos y by (auto simp: date_of_days_def Let_def doe_def doy_def mp_def y'_def)
qed

text \<open>The days of the years 0 to 9999.\<close>

definition day_in_range :: "int \<Rightarrow> bool" where
  "day_in_range n \<longleftrightarrow> - 719528 \<le> n \<and> n \<le> 2932896"

lemma date_of_days_parts:
  assumes "date_of_days n = (y, m, d)"
  obtains era yoe doy where "0 \<le> yoe" "yoe < 400" "0 \<le> doy" "doy < year_len yoe"
    "n + 719468 = era * 146097 + (year_start yoe + doy)"
    "m = (if month_of_day doy < 10 then month_of_day doy + 3 else month_of_day doy - 9)"
    "d = doy - month_start (month_of_day doy) + 1"
    "y = (if m \<le> 2 then yoe + era * 400 + 1 else yoe + era * 400)"
proof -
  define z where "z = n + 719468"
  define doe where "doe = z mod 146097"
  have "0 \<le> doe" "doe < 146097" by (simp_all add: doe_def)
  then obtain yoe doy where
    yoe: "0 \<le> yoe" "yoe < 400" and doy: "0 \<le> doy" "doy < year_len yoe"
    and doe: "doe = year_start yoe + doy"
    by (rule day_in_some_year)
  have yd: "year_of_day doe = yoe"
    unfolding doe by (rule year_of_day_start [OF yoe doy])
  have dd: "doe - year_start yoe = doy"
    by (simp add: doe)
  have "(y, m, d) = (let mp = month_of_day doy; m = (if mp < 10 then mp + 3 else mp - 9);
      y' = yoe + (z div 146097) * 400
    in ((if m \<le> 2 then y' + 1 else y'), m, doy - month_start mp + 1))"
    unfolding assms [symmetric] date_of_days_def
    by (simp only: Let_def z_def [symmetric] doe_def [symmetric] yd dd)
  moreover have "z = (z div 146097) * 146097 + (year_start yoe + doy)"
    unfolding doe [symmetric] by (simp add: doe_def)
  ultimately show ?thesis
    using that [OF yoe doy, of "z div 146097"] by (simp add: Let_def z_def)
qed

lemma days_of_date_of_days:
  assumes "date_of_days n = (y, m, d)"
  shows "days_of_date y m d = n"
    and "1 \<le> m" and "m \<le> 12" and "1 \<le> d" and "d \<le> month_len (if m > 2 then m - 3 else m + 9)"
    and "m = 2 \<and> d = 29 \<longrightarrow> year_len ((y - 1) mod 400) = 366"
proof -
  from assms obtain era yoe doy where p: "0 \<le> yoe" "yoe < 400" "0 \<le> doy" "doy < year_len yoe"
    "n + 719468 = era * 146097 + (year_start yoe + doy)"
    "m = (if month_of_day doy < 10 then month_of_day doy + 3 else month_of_day doy - 9)"
    "d = doy - month_start (month_of_day doy) + 1"
    "y = (if m \<le> 2 then yoe + era * 400 + 1 else yoe + era * 400)"
    by (rule date_of_days_parts)
  define mp where "mp = month_of_day doy"
  have "doy < 366" using p(4) by (simp add: year_len_def split: if_splits)
  note month = day_in_some_month [OF p(3) this, folded mp_def]
  have mp: "(if m > 2 then m - 3 else m + 9) = mp"
    using month by (simp add: p(6) flip: mp_def)
  show "1 \<le> m" "m \<le> 12" "1 \<le> d" "d \<le> month_len (if m > 2 then m - 3 else m + 9)"
    using month unfolding mp by (simp_all add: p(6,7) flip: mp_def)
  have y': "(if m \<le> 2 then y - 1 else y) = yoe + era * 400"
    by (simp add: p(8))
  have ydm: "(if m \<le> 2 then y - 1 else y) div 400 = era"
    "(if m \<le> 2 then y - 1 else y) mod 400 = yoe"
    using p(1,2) unfolding y' by simp_all
  have "days_of_date y m d = era * 146097 + year_start yoe + month_start mp + (d - 1) - 719468"
    unfolding days_of_date_def Let_def ydm mp ..
  then show "days_of_date y m d = n"
    using p(5,7) by (simp add: mp_def)
  have "doy = 365" if "m = 2 \<and> d = 29"
  proof -
    have "mp = 11" using mp that by simp
    with that p(7) show ?thesis by (simp add: month_start_def flip: mp_def)
  qed
  then show "m = 2 \<and> d = 29 \<longrightarrow> year_len ((y - 1) mod 400) = 366"
    using ydm(2) p(4) by (auto simp: year_len_def split: if_splits)
qed

lemma date_of_days_year:
  assumes "date_of_days n = (y, m, d)"
  shows "0 \<le> y \<and> y \<le> 9999 \<longleftrightarrow> day_in_range n"
proof -
  from assms obtain era yoe doy where p: "0 \<le> yoe" "yoe < 400" "0 \<le> doy" "doy < year_len yoe"
    "n + 719468 = era * 146097 + (year_start yoe + doy)"
    "m = (if month_of_day doy < 10 then month_of_day doy + 3 else month_of_day doy - 9)"
    "d = doy - month_start (month_of_day doy) + 1"
    "y = (if m \<le> 2 then yoe + era * 400 + 1 else yoe + era * 400)"
    by (rule date_of_days_parts)
  have "doy < 366" using p(4) by (simp add: year_len_def split: if_splits)
  note month = day_in_some_month [OF p(3) this]
  have "m \<le> 2 \<longleftrightarrow> 306 \<le> doy"
    using month p(6) by (auto simp: month_of_day_def)
  with p(8) have y: "y = yoe + era * 400 + (if 306 \<le> doy then 1 else 0)"
    by simp
  note b = year_start_bounds [OF p(1,2)]
  have s: "year_start 399 = 145731" by (simp add: year_start_def)
  have n: "n = era * 146097 + year_start yoe + doy - 719468" using p(5) by simp
  define doe where "doe = year_start yoe + doy"
  have doe: "0 \<le> doe" "doe < 146097" "yoe < 399 \<longrightarrow> doe < 145731" "yoe = 399 \<longrightarrow> doe = 145731 + doy"
    using b p(3,4) s by (auto simp: doe_def)
  have n': "n = era * 146097 + doe - 719468" using n by (simp add: doe_def)
  have split: "yoe = 399 \<or> yoe \<le> 398" using p(2) by linarith
  have lo: "0 \<le> y \<longleftrightarrow> - 719528 \<le> n"
  proof -
    consider "era \<le> -2" | "era = -1" | "0 \<le> era" by linarith
    then show ?thesis
      by cases (use y n' doe split p(1,2,3) \<open>doy < 366\<close> in \<open>auto split: if_splits\<close>)
  qed
  moreover have hi: "y \<le> 9999 \<longleftrightarrow> n \<le> 2932896"
  proof -
    consider "era \<le> 23" | "era = 24" | "25 \<le> era" by linarith
    then show ?thesis
      by cases (use y n' doe split p(1,2,3) \<open>doy < 366\<close> in \<open>auto split: if_splits\<close>)
  qed
  ultimately show ?thesis by (simp add: day_in_range_def)
qed

lemma date_of_days_valid:
  assumes "date_of_days n = (y, m, d)"
  shows "is_valid_date y m d \<longleftrightarrow> day_in_range n"
  using days_of_date_of_days [OF assms] date_of_days_year [OF assms] year_len_leap [of y]
  by (auto simp: is_valid_date_iff)

section \<open>The code computes the floor-division forms\<close>

lemma posix_time_from_utc_eq:
  "posix_time_from_utc y m d h mi s =
     (if is_valid_date y m d \<and> is_valid_time h mi s
      then Some (days_of_date y m d * 86400 + h * 3600 + mi * 60 + s) else None)"
proof (cases "is_valid_date y m d \<and> is_valid_time h mi s")
  case True
  define y' where "y' = (if m \<le> 2 then y - 1 else y)"
  define mp where "mp = (if m > 2 then m - 3 else m + 9)"
  have era: "(if y' \<ge> 0 then y' else y' - 399) sdiv 400 = y' div 400"
    using sdiv_floor [of 400 y'] by (simp split: if_splits)
  have yoe: "y' - y' div 400 * 400 = y' mod 400"
    by (simp add: minus_div_mult_eq_mod)
  have "0 \<le> mp"
    using valid_date_position(4) [of y m d] True by (simp add: mp_def)
  then have doy: "(153 * mp + 2) sdiv 5 = month_start mp"
    by (simp add: sdiv_nonneg month_start_def)
  have "posix_time_from_utc y m d h mi s =
      Some ((y' div 400 * 146097 + (y' mod 400 * 365 + (y' mod 400) sdiv 4 - (y' mod 400) sdiv 100
        + (month_start mp + d - 1)) - 719468) * 86400 + h * 3600 + mi * 60 + s)"
    using True unfolding posix_time_from_utc_def Let_def SECS_PER_DAY_def SECS_PER_HOUR_def
      y'_def [symmetric] mp_def [symmetric] era yoe doy by simp
  also have "\<dots> = Some (days_of_date y m d * 86400 + h * 3600 + mi * 60 + s)"
    by (simp add: days_of_date_def Let_def sdiv_nonneg year_start_def flip: y'_def mp_def)
  finally show ?thesis using True by simp
qed (auto simp: posix_time_from_utc_def)

lemma valid_time_day:
  "is_valid_posix_time t \<longleftrightarrow> day_in_range (t div 86400)"
  unfolding is_valid_posix_time_def day_in_range_def MIN_POSIX_TIME_def MAX_POSIX_TIME_def
  by auto

lemma utc_from_posix_time_eq:
  assumes "date_of_days (t div 86400) = (y, m, d)"
  shows "utc_from_posix_time t =
     (if day_in_range (t div 86400)
      then Some (y, m, d, t mod 86400 div 3600, t mod 86400 mod 3600 div 60,
                 t mod 86400 mod 3600 mod 60)
      else None)"
proof (cases "day_in_range (t div 86400)")
  case True
  define n where "n = t div 86400"
  from assms obtain era yoe doy where p: "0 \<le> yoe" "yoe < 400" "0 \<le> doy" "doy < year_len yoe"
    "n + 719468 = era * 146097 + (year_start yoe + doy)"
    "m = (if month_of_day doy < 10 then month_of_day doy + 3 else month_of_day doy - 9)"
    "d = doy - month_start (month_of_day doy) + 1"
    "y = (if m \<le> 2 then yoe + era * 400 + 1 else yoe + era * 400)"
    unfolding n_def by (rule date_of_days_parts)
  define z where "z = n + 719468"
  define doe where "doe = year_start yoe + doy"
  have doe: "0 \<le> doe" "doe < 146097"
    using year_start_bounds [OF p(1,2)] p(3,4) by (simp_all add: doe_def)
  have z: "z = era * 146097 + doe" using p(5) by (simp add: z_def doe_def)
  have zera: "z div 146097 = era" using doe by (simp add: z)
  have "(if z > 0 then z else z - 146096) sdiv 146097 = z div 146097"
    using sdiv_floor [of 146097 z] by (cases "z = 0") (auto simp: signed_divide_int_def)
  then have era: "(if z > 0 then z else z - 146096) sdiv 146097 = era"
    by (simp only: zera)
  have de: "z - era * 146097 = doe" by (simp add: z)
  have "0 \<le> doe - doe div 1460 + doe div 36524 - doe div 146096"
    using doe by linarith
  then have "(doe - doe sdiv 1460 + doe sdiv 36524 - doe sdiv 146096) sdiv 365 = year_of_day doe"
    using doe by (simp add: sdiv_nonneg year_of_day_def)
  then have yoe: "(doe - doe sdiv 1460 + doe sdiv 36524 - doe sdiv 146096) sdiv 365 = yoe"
    using year_of_day_start [OF p(1-4)] by (simp add: doe_def)
  have doy: "doe - (365 * yoe + yoe sdiv 4 - yoe sdiv 100) = doy"
    using p(1) by (simp add: sdiv_nonneg doe_def year_start_def)
  define mp where "mp = month_of_day doy"
  have mp: "(5 * doy + 2) sdiv 153 = mp"
    using p(3) by (simp add: sdiv_nonneg mp_def month_of_day_def)
  have "0 \<le> mp" using p(3) by (simp add: mp_def month_of_day_def)
  then have ms: "(153 * mp + 2) sdiv 5 = month_start mp"
    by (simp add: sdiv_nonneg month_start_def)
  have t: "0 \<le> t mod 86400" "0 \<le> t mod 86400 mod 3600" by simp_all
  show ?thesis
    using True
    unfolding utc_from_posix_time_def valid_time_day SECS_PER_DAY_def SECS_PER_HOUR_def
    by (simp only: Let_def floor_mod_of_trunc split_conv if_True simp_thms
          sdiv_nonneg [OF t(1)] smod_nonneg [OF t(1)] sdiv_nonneg [OF t(2)] smod_nonneg [OF t(2)]
          n_def [symmetric] z_def [symmetric] era de yoe doy mp ms p(6-8) mp_def [symmetric])
       simp
qed (simp add: utc_from_posix_time_def valid_time_day)

lemma clock_split:
  assumes "0 \<le> h" "h < 24" "0 \<le> m" "m < 60" "0 \<le> s" "s < (60 :: int)"
  defines "t \<equiv> h * 3600 + m * 60 + s"
  shows "0 \<le> t" "t < 86400" "t div 3600 = h" "t mod 3600 div 60 = m" "t mod 3600 mod 60 = s"
proof -
  have "t mod 3600 = m * 60 + s" "t div 3600 = h"
    using assms by (simp_all add: t_def add.assoc)
  with assms show "0 \<le> t" "t < 86400" "t div 3600 = h" "t mod 3600 div 60 = m" "t mod 3600 mod 60 = s"
    by simp_all
qed

lemma clock_valid:
  assumes "0 \<le> s" and "s < (86400 :: int)"
  shows "is_valid_time (s div 3600) (s mod 3600 div 60) (s mod 3600 mod 60)"
proof -
  have "0 \<le> s mod 3600" "s mod 3600 < 3600" by simp_all
  then have "s mod 3600 div 60 < 60" by linarith
  moreover have "s div 3600 < 24" using assms by linarith
  moreover have "0 \<le> s mod 3600 mod 60" "s mod 3600 mod 60 < 60" by simp_all
  ultimately show ?thesis
    using assms by (simp add: is_valid_time_def not_less pos_imp_zdiv_nonneg_iff)
qed

section \<open>The civil calendar\<close>

text \<open>The day after a date, as the calendar on the wall has it.\<close>

definition days_in_month :: "int \<Rightarrow> int \<Rightarrow> int" where
  "days_in_month y m =
     (if m = 2 then (if y mod 4 = 0 \<and> (y mod 100 \<noteq> 0 \<or> y mod 400 = 0) then 29 else 28)
      else if m \<in> {4, 6, 9, 11} then 30 else 31)"

lemma is_valid_date_days:
  "is_valid_date y m d \<longleftrightarrow>
     0 \<le> y \<and> y \<le> 9999 \<and> 1 \<le> m \<and> m \<le> 12 \<and> 1 \<le> d \<and> d \<le> days_in_month y m"
proof (cases "0 \<le> y \<and> y \<le> 9999 \<and> 1 \<le> m \<and> m \<le> 12 \<and> 1 \<le> d")
  case True
  then have "m = 1 \<or> m = 2 \<or> m = 3 \<or> m = 4 \<or> m = 5 \<or> m = 6 \<or> m = 7 \<or> m = 8 \<or> m = 9
    \<or> m = 10 \<or> m = 11 \<or> m = 12" by arith
  with True is_leap_mod [of y] show ?thesis
    by (elim disjE) (auto simp: is_valid_date_def days_in_month_def)
qed (auto simp: is_valid_date_def)

definition next_date :: "int \<times> int \<times> int \<Rightarrow> int \<times> int \<times> int" where
  "next_date = (\<lambda>(y, m, d).
     if d < days_in_month y m then (y, m, d + 1)
     else if m < 12 then (y, m + 1, 1) else (y + 1, 1, 1))"

lemma days_of_date_next:
  assumes "is_valid_date y m d" and "next_date (y, m, d) = (y', m', d')"
  shows "days_of_date y' m' d' = days_of_date y m d + 1"
proof -
  have v: "0 \<le> y" "1 \<le> m" "m \<le> 12" "1 \<le> d"
    and len: "d \<le> days_in_month y m"
    using assms(1) by (simp_all add: is_valid_date_days)
  show ?thesis
  proof (cases "d < days_in_month y m")
    case True
    with assms(2) show ?thesis by (auto simp: next_date_def days_of_date_def Let_def)
  next
    case False
    with len have d: "d = days_in_month y m" by simp
    show ?thesis
    proof (cases "m = 2")
      case True
      have y1: "(y - 1) div 400 = y div 400 - (if y mod 400 = 0 then 1 else 0)"
        using div_step [of 400 "y - 1"] by (simp add: dvd_eq_mod_eq_0)
      have y2: "(y - 1) mod 400 = (if y mod 400 = 0 then 399 else y mod 400 - 1)"
      proof -
        have "(y - 1) mod 400 = y - 1 - (y - 1) div 400 * 400" "y mod 400 = y - y div 400 * 400"
          by (simp_all add: minus_div_mult_eq_mod)
        then show ?thesis by (simp add: y1)
      qed
      have len': "days_in_month y 2 = year_len ((y - 1) mod 400) - 337"
        using year_len_leap [OF v(1)] is_leap_mod [OF v(1)]
        by (auto simp: days_in_month_def year_len_def split: if_splits)
      have "year_start ((y - 1) mod 400) + year_len ((y - 1) mod 400)
          = (if y mod 400 = 0 then 146097 else year_start (y mod 400))"
        using year_start_next [of "(y - 1) mod 400"] y2 by (auto split: if_splits)
      then have "year_start ((y - 1) mod 400) + (d + 337)
          = (if y mod 400 = 0 then 146097 else year_start (y mod 400))"
        using True d len' by simp
      moreover have "y mod 400 = 0 \<Longrightarrow> year_start (y mod 400) = 0"
        by (simp add: year_start_def)
      moreover have "days_of_date y 2 d
          = (y - 1) div 400 * 146097 + year_start ((y - 1) mod 400) + 337 + (d - 1) - 719468"
        by (simp add: days_of_date_def month_start_def Let_def)
      moreover have "days_of_date y 3 1 = y div 400 * 146097 + year_start (y mod 400) - 719468"
        by (simp add: days_of_date_def month_start_def Let_def)
      ultimately have "days_of_date y 3 1 = days_of_date y 2 d + 1"
        unfolding y1 by (cases "y mod 400 = 0") simp_all
      moreover have "y' = y" "m' = 3" "d' = 1"
        using True d assms(2) by (simp_all add: next_date_def)
      ultimately show ?thesis using True by simp
    next
      case ne: False
      with v have "m = 1 \<or> m = 3 \<or> m = 4 \<or> m = 5 \<or> m = 6 \<or> m = 7 \<or> m = 8 \<or> m = 9
        \<or> m = 10 \<or> m = 11 \<or> m = 12" by arith
      with d assms(2) show ?thesis
        by (elim disjE)
          (auto simp: next_date_def days_of_date_def Let_def month_start_def days_in_month_def)
    qed
  qed
qed

lemma next_date_valid:
  assumes "is_valid_date y m d" and "next_date (y, m, d) = (y', m', d')" and "y' \<le> 9999"
  shows "is_valid_date y' m' d'"
proof -
  have "1 \<le> days_in_month a b" for a b by (simp add: days_in_month_def)
  with assms show ?thesis
    by (auto simp: is_valid_date_days next_date_def split: if_splits)
qed

section \<open>Both conversions\<close>

lemma posix_to_tm_of_posix:
  assumes "OPENSSL_tm_to_posix t = Some p"
  shows "OPENSSL_posix_to_tm p = Some t"
proof -
  define y m d where "y = tm_year t + 1900" and "m = tm_mon t + 1" and "d = tm_mday t"
  have v: "is_valid_date y m d" and tv: "is_valid_time (tm_hour t) (tm_min t) (tm_sec t)"
    and p: "p = days_of_date y m d * 86400 + tm_hour t * 3600 + tm_min t * 60 + tm_sec t"
    using assms by (simp_all add: OPENSSL_tm_to_posix_def posix_time_from_utc_eq y_def m_def d_def
        split: if_splits)
  define s where "s = tm_hour t * 3600 + tm_min t * 60 + tm_sec t"
  have s: "0 \<le> s" "s < 86400" "s div 3600 = tm_hour t" "s mod 3600 div 60 = tm_min t"
    "s mod 3600 mod 60 = tm_sec t"
    using tv clock_split [of "tm_hour t" "tm_min t" "tm_sec t"]
    by (simp_all add: s_def is_valid_time_def split: if_splits)
  have "p = days_of_date y m d * 86400 + s"
    by (simp add: p s_def)
  with s(1,2) have "p div 86400 = days_of_date y m d" and "p mod 86400 = s"
    by simp_all
  moreover have "date_of_days (days_of_date y m d) = (y, m, d)"
    by (rule date_of_days_of_date [OF v])
  moreover have "day_in_range (days_of_date y m d)"
    using date_of_days_valid [OF calculation(3)] v by simp
  ultimately have "utc_from_posix_time p = Some (y, m, d, tm_hour t, tm_min t, tm_sec t)"
    using utc_from_posix_time_eq [of p y m d] s by simp
  then show ?thesis
    by (simp add: OPENSSL_posix_to_tm_def y_def m_def d_def)
qed

lemma tm_to_posix_of_tm:
  "(\<exists>t. OPENSSL_posix_to_tm p = Some t \<and> OPENSSL_tm_to_posix t = Some p)
     \<longleftrightarrow> - 62167219200 \<le> p \<and> p \<le> 253402300799"
proof -
  obtain y m d where date: "date_of_days (p div 86400) = (y, m, d)"
    by (cases "date_of_days (p div 86400)") auto
  have range: "- 62167219200 \<le> p \<and> p \<le> 253402300799 \<longleftrightarrow> day_in_range (p div 86400)"
    by (simp flip: valid_time_day add: is_valid_posix_time_def MIN_POSIX_TIME_def MAX_POSIX_TIME_def)
  show ?thesis
  proof (cases "day_in_range (p div 86400)")
    case True
    define s where "s = p mod 86400"
    have s: "0 \<le> s" "s < 86400" by (simp_all add: s_def)
    then have "is_valid_time (s div 3600) (s mod 3600 div 60) (s mod 3600 mod 60)"
      by (rule clock_valid)
    moreover have "is_valid_date y m d"
      using date_of_days_valid [OF date] True by simp
    moreover have "days_of_date y m d * 86400 + s div 3600 * 3600 + s mod 3600 div 60 * 60
        + s mod 3600 mod 60 = p"
      using days_of_date_of_days(1) [OF date] by (simp add: s_def)
    ultimately have "posix_time_from_utc y m d (s div 3600) (s mod 3600 div 60) (s mod 3600 mod 60)
        = Some p"
      by (simp add: posix_time_from_utc_eq)
    then show ?thesis
      using True range
      by (simp add: OPENSSL_posix_to_tm_def OPENSSL_tm_to_posix_def
          utc_from_posix_time_eq [OF date] s_def)
  qed (simp add: range OPENSSL_posix_to_tm_def utc_from_posix_time_eq [OF date])
qed

lemma posix_to_tm_None:
  "OPENSSL_posix_to_tm p = None \<longleftrightarrow> p < - 62167219200 \<or> 253402300799 < p"
proof -
  obtain y m d where date: "date_of_days (p div 86400) = (y, m, d)"
    by (cases "date_of_days (p div 86400)") auto
  have "day_in_range (p div 86400) \<longleftrightarrow> - 62167219200 \<le> p \<and> p \<le> 253402300799"
    by (simp flip: valid_time_day add: is_valid_posix_time_def MIN_POSIX_TIME_def MAX_POSIX_TIME_def)
  then show ?thesis
    by (auto simp: OPENSSL_posix_to_tm_def utc_from_posix_time_eq [OF date])
qed

lemma tm_to_posix_range:
  assumes "OPENSSL_tm_to_posix t = Some p"
  shows "- 62167219200 \<le> p" and "p \<le> 253402300799"
  using posix_to_tm_of_posix [OF assms] posix_to_tm_None [of p] by auto

section \<open>Properties\<close>

text \<open>C32: the two conversions are inverse bijections between the valid broken-down times and
  the seconds from 0000-01-01 00:00:00 to 9999-12-31 23:59:59, and fail on everything else.\<close>

theorem posix_tm_bijection:
  "(OPENSSL_tm_to_posix t = Some p \<longleftrightarrow> OPENSSL_posix_to_tm p = Some t)
    \<and> (OPENSSL_posix_to_tm p = None \<longleftrightarrow> p < - 62167219200 \<or> 253402300799 < p)"
proof
  have "OPENSSL_tm_to_posix t = Some p" if "OPENSSL_posix_to_tm p = Some t"
    using that posix_to_tm_None [of p] tm_to_posix_of_tm [of p] by auto
  then show "OPENSSL_tm_to_posix t = Some p \<longleftrightarrow> OPENSSL_posix_to_tm p = Some t"
    using posix_to_tm_of_posix by blast
qed (rule posix_to_tm_None)

text \<open>the seconds follow the civil calendar: the epoch is 1970-01-01, and the same clock time
  on the next day of the calendar, leap days included, is 86400 seconds later.\<close>

theorem posix_next_day:
  assumes "posix_time_from_utc y m d h mi s = Some t"
    and "next_date (y, m, d) = (y', m', d')" and "y' \<le> 9999"
  shows "posix_time_from_utc y' m' d' h mi s = Some (t + 86400)
    \<and> posix_time_from_utc 1970 1 1 0 0 0 = Some 0"
proof
  have v: "is_valid_date y m d" "is_valid_time h mi s"
    and t: "t = days_of_date y m d * 86400 + h * 3600 + mi * 60 + s"
    using assms(1) by (simp_all add: posix_time_from_utc_eq split: if_splits)
  show "posix_time_from_utc y' m' d' h mi s = Some (t + 86400)"
    using next_date_valid [OF v(1) assms(2,3)] days_of_date_next [OF v(1) assms(2)] v(2)
    by (simp add: posix_time_from_utc_eq t)
  show "posix_time_from_utc 1970 1 1 0 0 0 = Some 0"
    by (simp add: posix_time_from_utc_eq is_valid_date_def is_valid_time_def days_of_date_def
        year_start_def month_start_def)
qed

theorem posix_next_day_witness:
  "posix_time_from_utc 2024 2 28 12 0 0 = Some 1709121600
    \<and> posix_time_from_utc 2024 2 29 12 0 0 = Some 1709208000"
proof -
  have a: "posix_time_from_utc 2024 2 28 12 0 0 = Some 1709121600"
    by (simp add: posix_time_from_utc_eq is_valid_date_days is_valid_time_def days_in_month_def
        days_of_date_def year_start_def month_start_def)
  have b: "next_date (2024, 2, 28) = (2024, 2, 29)"
    by (simp add: next_date_def days_in_month_def)
  show ?thesis using a posix_next_day [OF a b] by simp
qed

text \<open>C37: moving a time by the difference to another time gives the other time; the two parts of
  the difference have one sign and the seconds stay below a day.\<close>

theorem gmtime_diff_adj:
  assumes "OPENSSL_gmtime_diff from to = Some (dd, ss)"
  shows "OPENSSL_gmtime_adj from dd ss = Some to
    \<and> \<bar>ss\<bar> < 86400 \<and> (0 \<le> dd \<and> 0 \<le> ss \<or> dd \<le> 0 \<and> ss \<le> 0)"
proof -
  obtain a b where to: "OPENSSL_tm_to_posix to = Some a" and "from": "OPENSSL_tm_to_posix from = Some b"
    and dd: "dd = (a - b) sdiv 86400" and ss: "ss = (a - b) smod 86400"
    using assms by (auto simp: OPENSSL_gmtime_diff_def Let_def SECS_PER_DAY_def split: option.splits)
  have a: "b + dd * 86400 + ss = a"
    using sdiv_mult_smod_eq [of "a - b" 86400] by (simp add: dd ss)
  have small: "\<bar>ss\<bar> < 86400" and sign: "0 \<le> dd \<and> 0 \<le> ss \<or> dd \<le> 0 \<and> ss \<le> 0"
    by (cases "0 \<le> a - b"; simp add: dd ss sdiv_nonneg smod_nonneg sdiv_neg smod_neg
        pos_imp_zdiv_nonneg_iff; linarith)+
  have "ss \<le> INT64_MAX - (b + dd * 86400)" "INT64_MIN - (b + dd * 86400) \<le> ss"
    using a tm_to_posix_range [OF to] by (simp_all add: INT64_MAX_def INT64_MIN_def)
  then have "OPENSSL_gmtime_adj from dd ss = OPENSSL_posix_to_tm a"
    using a "from" by (simp add: OPENSSL_gmtime_adj_def SECS_PER_DAY_def)
  with posix_to_tm_of_posix [OF to] small sign show ?thesis by simp
qed

theorem gmtime_diff_adj_witness:
  "OPENSSL_gmtime_adj \<lparr>tm_year = 100, tm_mon = 0, tm_mday = 1, tm_hour = 0, tm_min = 0, tm_sec = 0\<rparr>
     (- 1) (- 1)
   = Some \<lparr>tm_year = 99, tm_mon = 11, tm_mday = 30, tm_hour = 23, tm_min = 59, tm_sec = 59\<rparr>"
proof -
  have "OPENSSL_gmtime_diff
      \<lparr>tm_year = 100, tm_mon = 0, tm_mday = 1, tm_hour = 0, tm_min = 0, tm_sec = 0\<rparr>
      \<lparr>tm_year = 99, tm_mon = 11, tm_mday = 30, tm_hour = 23, tm_min = 59, tm_sec = 59\<rparr>
    = Some (- 1, - 1)"
    by (simp add: OPENSSL_gmtime_diff_def OPENSSL_tm_to_posix_def posix_time_from_utc_eq
        is_valid_date_days is_valid_time_def days_in_month_def days_of_date_def year_start_def
        month_start_def SECS_PER_DAY_def sdiv_neg smod_neg)
  from gmtime_diff_adj [OF this] show ?thesis by simp
qed

end
