(* ===== verification/Cbs.thy ===== *)
theory Cbs
  imports Prelude PosixTime
begin

text \<open>
  The CBS parser of \<^verbatim>\<open>crypto/bytestring/cbs.cc\<close>, through which every TLS message and every
  certificate enters the library. A \<^verbatim>\<open>CBS\<close> (a pointer and a length) is the string of the
  bytes it denotes; \<^verbatim>\<open>*cbs\<close> after a call is the second component of the result, also when
  the call fails, because a failing call may have consumed input.
\<close>

type_synonym cbs = bytes

section \<open>Reading bytes\<close>

definition cbs_get :: "nat \<Rightarrow> bytes decoder" where
  "cbs_get n s = (if length s < n then (None, s) else (Some (take n s), drop n s))"

definition CBS_skip :: "nat \<Rightarrow> cbs \<Rightarrow> bool \<times> cbs" where
  "CBS_skip len s =
     (case cbs_get len s of (None, s') \<Rightarrow> (False, s') | (Some _, s') \<Rightarrow> (True, s'))"

text \<open>
  Allocation can fail: \<open>al n\<close> says whether the allocator grants \<open>n\<close> bytes. The result is the
  return value, \<^verbatim>\<open>*out_ptr\<close> (\<open>None\<close> for a null pointer) and \<^verbatim>\<open>*out_len\<close>.
\<close>

definition CBS_stow :: "(nat \<Rightarrow> bool) \<Rightarrow> cbs \<Rightarrow> bool \<times> bytes option \<times> nat" where
  "CBS_stow al s =
     (if length s = 0 then (True, None, 0)
      else if \<not> al (length s) then (False, None, 0)
      else (True, Some s, length s))"

definition OPENSSL_strnlen :: "bytes \<Rightarrow> nat" where
  "OPENSSL_strnlen s = length (takeWhile (\<lambda>c. c \<noteq> 0) s)"

definition OPENSSL_strndup :: "(nat \<Rightarrow> bool) \<Rightarrow> bytes \<Rightarrow> bytes option" where
  "OPENSSL_strndup al s =
     (let size = OPENSSL_strnlen s; alloc_size = size_add size 1
      in if alloc_size < size then None
         else if \<not> al alloc_size then None
         else Some (take size s @ [0]))"

definition CBS_strdup :: "(nat \<Rightarrow> bool) \<Rightarrow> cbs \<Rightarrow> bool \<times> bytes option" where
  "CBS_strdup al s = (let p = OPENSSL_strndup al s in (p \<noteq> None, p))"

definition CBS_contains_zero_byte :: "cbs \<Rightarrow> bool" where
  "CBS_contains_zero_byte s \<longleftrightarrow> 0 \<in> set s"

definition CRYPTO_memcmp :: "bytes \<Rightarrow> bytes \<Rightarrow> u8" where
  "CRYPTO_memcmp a b = foldl (\<lambda>x (p, q). x OR (p XOR q)) 0 (zip a b)"

definition CBS_mem_equal :: "cbs \<Rightarrow> bytes \<Rightarrow> bool" where
  "CBS_mem_equal s data =
     (if length data \<noteq> length s then False else CRYPTO_memcmp s data = 0)"

definition cbs_get_u :: "nat \<Rightarrow> u64 decoder" where
  "cbs_get_u len s =
     (case cbs_get len s of
        (None, s') \<Rightarrow> (None, s')
      | (Some data, s') \<Rightarrow> (Some (foldl (\<lambda>r b. push_bit 8 r OR ucast b) 0 data), s'))"

definition CBS_get_u8 :: "u8 decoder" where
  "CBS_get_u8 s =
     (case cbs_get 1 s of
        (None, s') \<Rightarrow> (None, s')
      | (Some v, s') \<Rightarrow> (Some (v ! 0), s'))"

definition CBS_get_u16 :: "u16 decoder" where
  "CBS_get_u16 s =
     (case cbs_get_u 2 s of (None, s') \<Rightarrow> (None, s') | (Some v, s') \<Rightarrow> (Some (ucast v), s'))"

definition CRYPTO_bswap2 :: "u16 \<Rightarrow> u16" where
  "CRYPTO_bswap2 x = (drop_bit 8 x) OR (push_bit 8 x)"

definition CRYPTO_bswap4 :: "u32 \<Rightarrow> u32" where
  "CRYPTO_bswap4 x =
     (let x = (drop_bit 16 x) OR (push_bit 16 x)
      in drop_bit 8 (x AND 0xff00ff00) OR push_bit 8 (x AND 0x00ff00ff))"

definition CRYPTO_bswap8 :: "u64 \<Rightarrow> u64" where
  "CRYPTO_bswap8 x =
     ucast (CRYPTO_bswap4 (ucast (drop_bit 32 x))) OR push_bit 32 (ucast (CRYPTO_bswap4 (ucast x)))"

definition CBS_get_u16le :: "u16 decoder" where
  "CBS_get_u16le s =
     (case CBS_get_u16 s of
        (None, s') \<Rightarrow> (None, s') | (Some v, s') \<Rightarrow> (Some (CRYPTO_bswap2 v), s'))"

definition CBS_get_u24 :: "u32 decoder" where
  "CBS_get_u24 s =
     (case cbs_get_u 3 s of (None, s') \<Rightarrow> (None, s') | (Some v, s') \<Rightarrow> (Some (ucast v), s'))"

definition CBS_get_u32 :: "u32 decoder" where
  "CBS_get_u32 s =
     (case cbs_get_u 4 s of (None, s') \<Rightarrow> (None, s') | (Some v, s') \<Rightarrow> (Some (ucast v), s'))"

definition CBS_get_u32le :: "u32 decoder" where
  "CBS_get_u32le s =
     (case CBS_get_u32 s of
        (None, s') \<Rightarrow> (None, s') | (Some v, s') \<Rightarrow> (Some (CRYPTO_bswap4 v), s'))"

definition CBS_get_u48 :: "u64 decoder" where
  "CBS_get_u48 s = cbs_get_u 6 s"

definition CBS_get_u64 :: "u64 decoder" where
  "CBS_get_u64 s = cbs_get_u 8 s"

definition CBS_get_u64le :: "u64 decoder" where
  "CBS_get_u64le s =
     (case cbs_get_u 8 s of
        (None, s') \<Rightarrow> (None, s') | (Some v, s') \<Rightarrow> (Some (CRYPTO_bswap8 v), s'))"

definition CBS_get_last_u8 :: "u8 decoder" where
  "CBS_get_last_u8 s =
     (if length s = 0 then (None, s) else (Some (s ! (length s - 1)), take (length s - 1) s))"

definition CBS_get_bytes :: "nat \<Rightarrow> cbs decoder" where
  "CBS_get_bytes len s =
     (case cbs_get len s of (None, s') \<Rightarrow> (None, s') | (Some v, s') \<Rightarrow> (Some v, s'))"

definition CBS_copy_bytes :: "nat \<Rightarrow> bytes decoder" where
  "CBS_copy_bytes len s =
     (case cbs_get len s of (None, s') \<Rightarrow> (None, s') | (Some v, s') \<Rightarrow> (Some v, s'))"

definition cbs_get_length_prefixed :: "nat \<Rightarrow> cbs decoder" where
  "cbs_get_length_prefixed len_len s =
     (case cbs_get_u len_len s of
        (None, s') \<Rightarrow> (None, s')
      | (Some len, s') \<Rightarrow> CBS_get_bytes (unat len) s')"

definition CBS_get_u8_length_prefixed :: "cbs decoder" where
  "CBS_get_u8_length_prefixed s = cbs_get_length_prefixed 1 s"

definition CBS_get_u16_length_prefixed :: "cbs decoder" where
  "CBS_get_u16_length_prefixed s = cbs_get_length_prefixed 2 s"

definition CBS_get_u24_length_prefixed :: "cbs decoder" where
  "CBS_get_u24_length_prefixed s = cbs_get_length_prefixed 3 s"

definition CBS_get_until_first :: "u8 \<Rightarrow> cbs decoder" where
  "CBS_get_until_first c s =
     (if c \<notin> set s then (None, s)
      else CBS_get_bytes (length (takeWhile (\<lambda>b. b \<noteq> c) s)) s)"

text \<open>\<^verbatim>\<open>chars\<close> is a C string, so it holds no zero byte.\<close>

definition CBS_get_until_first_of :: "bytes \<Rightarrow> cbs decoder" where
  "CBS_get_until_first_of chars s =
     (let pos = length (takeWhile (\<lambda>c. c = 0 \<or> c \<notin> set chars) s)
      in if pos = length s then (None, s) else CBS_get_bytes pos s)"

definition CBS_get_until_first_not_of :: "bytes \<Rightarrow> cbs decoder" where
  "CBS_get_until_first_not_of chars s =
     (let pos = length (takeWhile (\<lambda>c. c \<noteq> 0 \<and> c \<in> set chars) s)
      in if pos = length s then (None, s) else CBS_get_bytes pos s)"

definition OPENSSL_isdigit :: "u8 \<Rightarrow> bool" where
  "OPENSSL_isdigit c \<longleftrightarrow> 0x30 \<le> c \<and> c \<le> 0x39"

text \<open>The loop of \<^verbatim>\<open>CBS_get_u64_decimal\<close>: the value so far and whether a digit was seen.\<close>

fun u64_decimal_loop :: "u64 \<Rightarrow> bool \<Rightarrow> u64 decoder" where
  "u64_decimal_loop v seen_digit [] = (if seen_digit then Some v else None, [])"
| "u64_decimal_loop v seen_digit (c # s) =
     (if \<not> OPENSSL_isdigit c then (if seen_digit then Some v else None, c # s)
      else if (v = 0 \<and> seen_digit) \<or> v > (- 1) div 10 \<or> v * 10 > (- 1) - ucast (c - 0x30)
        then (None, s)
      else u64_decimal_loop (v * 10 + ucast (c - 0x30)) True s)"

definition CBS_get_u64_decimal :: "u64 decoder" where
  "CBS_get_u64_decimal s = u64_decimal_loop 0 False s"

section \<open>ASN.1 elements\<close>

type_synonym CBS_ASN1_TAG = u32

definition CBS_ASN1_CONSTRUCTED :: CBS_ASN1_TAG where "CBS_ASN1_CONSTRUCTED = 0x20000000"
definition CBS_ASN1_CONTEXT_SPECIFIC :: CBS_ASN1_TAG where "CBS_ASN1_CONTEXT_SPECIFIC = 0x80000000"
definition CBS_ASN1_TAG_NUMBER_MASK :: CBS_ASN1_TAG where "CBS_ASN1_TAG_NUMBER_MASK = 0x1fffffff"
definition CBS_ASN1_BOOLEAN :: CBS_ASN1_TAG where "CBS_ASN1_BOOLEAN = 1"
definition CBS_ASN1_INTEGER :: CBS_ASN1_TAG where "CBS_ASN1_INTEGER = 2"
definition CBS_ASN1_OCTETSTRING :: CBS_ASN1_TAG where "CBS_ASN1_OCTETSTRING = 4"
definition CBS_ASN1_SEQUENCE :: CBS_ASN1_TAG where "CBS_ASN1_SEQUENCE = 0x10 OR CBS_ASN1_CONSTRUCTED"

text \<open>The loop of \<^verbatim>\<open>parse_base128_integer\<close>, from the value read so far.\<close>

fun base128_loop :: "u64 \<Rightarrow> u64 decoder" where
  "base128_loop v [] = (None, [])"
| "base128_loop v (b # s) =
     (if drop_bit (64 - 7) v \<noteq> 0 then (None, s)
      else if v = 0 \<and> b = 0x80 then (None, s)
      else let v' = push_bit 7 v OR ucast (b AND 0x7f)
           in if b AND 0x80 \<noteq> 0 then base128_loop v' s else (Some v', s))"

definition parse_base128_integer :: "u64 decoder" where
  "parse_base128_integer s = base128_loop 0 s"

text \<open>The class and constructed bits of an identifier byte, moved to their place in a tag.\<close>

definition asn1_tag_bits :: "u8 \<Rightarrow> CBS_ASN1_TAG" where
  "asn1_tag_bits tag_byte = push_bit 24 (ucast tag_byte AND 0xe0)"

definition parse_asn1_tag :: "CBS_ASN1_TAG decoder" where
  "parse_asn1_tag s =
     (case CBS_get_u8 s of
        (None, s') \<Rightarrow> (None, s')
      | (Some tag_byte, s') \<Rightarrow>
          let tag = asn1_tag_bits tag_byte;
              tag_number = ucast (tag_byte AND 0x1f);
              (number, s'') =
                (if tag_number = 0x1f then
                   (case parse_base128_integer s' of
                      (None, s'') \<Rightarrow> (None, s'')
                    | (Some v, s'') \<Rightarrow>
                        if v > ucast CBS_ASN1_TAG_NUMBER_MASK \<or> v < 0x1f then (None, s'')
                        else (Some (ucast v), s''))
                 else (Some tag_number, s'))
          in (case number of
                None \<Rightarrow> (None, s'')
              | Some n \<Rightarrow>
                  let tag = tag OR n
                  in if tag AND NOT CBS_ASN1_CONSTRUCTED = 0 then (None, s'')
                     else (Some tag, s'')))"

text \<open>
  What \<^verbatim>\<open>cbs_get_any_asn1_element\<close> reports of an element: the element with its header, its
  tag, the length of the header, whether a BER-only form was found and whether the length is
  indefinite.
\<close>

record element =
  el_out :: cbs
  el_tag :: CBS_ASN1_TAG
  el_header_len :: nat
  el_ber_found :: bool
  el_indefinite :: bool

definition cbs_get_any_asn1_element :: "bool \<Rightarrow> element decoder" where
  "cbs_get_any_asn1_element ber_ok s =
     (case parse_asn1_tag s of
        (None, _) \<Rightarrow> (None, s)
      | (Some tag, header) \<Rightarrow>
        (case CBS_get_u8 header of
           (None, _) \<Rightarrow> (None, s)
         | (Some length_byte, header) \<Rightarrow>
           let header_len = length s - length header;
               finish = (\<lambda>len hl ber indef.
                 (case CBS_get_bytes len s of
                    (None, s') \<Rightarrow> (None, s')
                  | (Some out, s') \<Rightarrow>
                      (Some \<lparr>el_out = out, el_tag = tag, el_header_len = hl,
                             el_ber_found = ber, el_indefinite = indef\<rparr>, s')))
           in if length_byte AND 0x80 = 0 then
                finish (size_add (unat length_byte) header_len) header_len False False
              else
                let num_bytes = unat (length_byte AND 0x7f)
                in if ber_ok \<and> tag AND CBS_ASN1_CONSTRUCTED \<noteq> 0 \<and> num_bytes = 0 then
                     finish header_len header_len True True
                   else if num_bytes = 0 \<or> num_bytes > 4 then (None, s)
                   else
                     (case cbs_get_u num_bytes header of
                        (None, _) \<Rightarrow> (None, s)
                      | (Some len64, _) \<Rightarrow>
                          let nonminimal =
                                len64 < 128 \<or> drop_bit ((num_bytes - 1) * 8) len64 = 0;
                              len = unat len64
                          in if nonminimal \<and> \<not> ber_ok then (None, s)
                             else if size_add (size_add len header_len) num_bytes < len
                               then (None, s)
                             else finish (size_add len (size_add header_len num_bytes))
                                    (header_len + num_bytes) nonminimal False)))"

definition CBS_get_any_asn1_element :: "(cbs \<times> CBS_ASN1_TAG \<times> nat) decoder" where
  "CBS_get_any_asn1_element s =
     (case cbs_get_any_asn1_element False s of
        (None, s') \<Rightarrow> (None, s')
      | (Some e, s') \<Rightarrow> (Some (el_out e, el_tag e, el_header_len e), s'))"

definition CBS_get_any_ber_asn1_element :: "element decoder" where
  "CBS_get_any_ber_asn1_element s = cbs_get_any_asn1_element True s"

definition CBS_get_any_asn1 :: "(cbs \<times> CBS_ASN1_TAG) decoder" where
  "CBS_get_any_asn1 s =
     (case CBS_get_any_asn1_element s of
        (None, s') \<Rightarrow> (None, s')
      | (Some (out, tag, header_len), s') \<Rightarrow>
          (case CBS_skip header_len out of
             (False, _) \<Rightarrow> (None, s')
           | (True, out) \<Rightarrow> (Some (out, tag), s')))"

definition cbs_get_asn1 :: "CBS_ASN1_TAG \<Rightarrow> bool \<Rightarrow> cbs decoder" where
  "cbs_get_asn1 tag_value skip_header s =
     (case CBS_get_any_asn1_element s of
        (None, s') \<Rightarrow> (None, s')
      | (Some (out, tag, header_len), s') \<Rightarrow>
          if tag \<noteq> tag_value then (None, s')
          else if skip_header then
            (case CBS_skip header_len out of
               (False, _) \<Rightarrow> (None, s')
             | (True, out) \<Rightarrow> (Some out, s'))
          else (Some out, s'))"

definition CBS_get_asn1 :: "CBS_ASN1_TAG \<Rightarrow> cbs decoder" where
  "CBS_get_asn1 tag_value s = cbs_get_asn1 tag_value True s"

definition CBS_get_asn1_element :: "CBS_ASN1_TAG \<Rightarrow> cbs decoder" where
  "CBS_get_asn1_element tag_value s = cbs_get_asn1 tag_value False s"

definition CBS_peek_asn1_tag :: "CBS_ASN1_TAG \<Rightarrow> cbs \<Rightarrow> bool" where
  "CBS_peek_asn1_tag tag_value s =
     (case fst (parse_asn1_tag s) of None \<Rightarrow> False | Some actual \<Rightarrow> tag_value = actual)"

section \<open>Typed ASN.1 values\<close>

text \<open>The return value and \<^verbatim>\<open>*out_is_negative\<close>, which an empty input leaves unset.\<close>

definition CBS_is_valid_asn1_integer :: "cbs \<Rightarrow> bool \<times> bool option" where
  "CBS_is_valid_asn1_integer s =
     (case CBS_get_u8 s of
        (None, _) \<Rightarrow> (False, None)
      | (Some first_byte, s') \<Rightarrow>
          let is_negative = (first_byte AND 0x80 \<noteq> 0)
          in (case CBS_get_u8 s' of
                (None, _) \<Rightarrow> (True, Some is_negative)
              | (Some second_byte, _) \<Rightarrow>
                  if (first_byte = 0x00 \<and> second_byte AND 0x80 = 0) \<or>
                     (first_byte = 0xff \<and> second_byte AND 0x80 \<noteq> 0)
                  then (False, Some is_negative)
                  else (True, Some is_negative)))"

definition CBS_is_unsigned_asn1_integer :: "cbs \<Rightarrow> bool" where
  "CBS_is_unsigned_asn1_integer s =
     (case CBS_is_valid_asn1_integer s of
        (valid, Some is_negative) \<Rightarrow> valid \<and> \<not> is_negative
      | (valid, None) \<Rightarrow> False)"

fun asn1_uint64_loop :: "u64 \<Rightarrow> bytes \<Rightarrow> u64 option" where
  "asn1_uint64_loop v [] = Some v"
| "asn1_uint64_loop v (b # data) =
     (if drop_bit 56 v \<noteq> 0 then None
      else asn1_uint64_loop (push_bit 8 v OR ucast b) data)"

definition CBS_get_asn1_uint64_with_tag :: "CBS_ASN1_TAG \<Rightarrow> u64 decoder" where
  "CBS_get_asn1_uint64_with_tag tag s =
     (case CBS_get_asn1 tag s of
        (None, s') \<Rightarrow> (None, s')
      | (Some bytes, s') \<Rightarrow>
          if \<not> CBS_is_unsigned_asn1_integer bytes then (None, s')
          else (asn1_uint64_loop 0 bytes, s'))"

definition CBS_get_asn1_uint64 :: "u64 decoder" where
  "CBS_get_asn1_uint64 s = CBS_get_asn1_uint64_with_tag CBS_ASN1_INTEGER s"

definition CRYPTO_load_u64_be :: "bytes \<Rightarrow> u64" where
  "CRYPTO_load_u64_be bs = CRYPTO_bswap8 (word_of_nat (be_val (rev (take 8 bs))))"

text \<open>The \<^verbatim>\<open>int64_t\<close> result as a word, read with \<open>sint\<close>.\<close>

definition CBS_get_asn1_int64_with_tag :: "CBS_ASN1_TAG \<Rightarrow> u64 decoder" where
  "CBS_get_asn1_int64_with_tag tag s =
     (case CBS_get_asn1 tag s of
        (None, s') \<Rightarrow> (None, s')
      | (Some data, s') \<Rightarrow>
          (case CBS_is_valid_asn1_integer data of
             (True, Some is_negative) \<Rightarrow>
               if length data > 8 then (None, s')
               else
                 let sign_extend =
                       replicate (8 - length data) (if is_negative then 0xff else 0) @ data
                 in (Some (CRYPTO_load_u64_be sign_extend), s')
           | _ \<Rightarrow> (None, s')))"

definition CBS_get_asn1_int64 :: "u64 decoder" where
  "CBS_get_asn1_int64 s = CBS_get_asn1_int64_with_tag CBS_ASN1_INTEGER s"

definition CBS_get_asn1_bool :: "bool decoder" where
  "CBS_get_asn1_bool s =
     (case CBS_get_asn1 CBS_ASN1_BOOLEAN s of
        (None, s') \<Rightarrow> (None, s')
      | (Some bytes, s') \<Rightarrow>
          if length bytes \<noteq> 1 then (None, s')
          else let value = bytes ! 0
               in if value \<noteq> 0 \<and> value \<noteq> 0xff then (None, s') else (Some (value \<noteq> 0), s'))"

text \<open>The contents of an optional element, \<open>Some None\<close> when it is absent.\<close>

definition CBS_get_optional_asn1 :: "CBS_ASN1_TAG \<Rightarrow> cbs option decoder" where
  "CBS_get_optional_asn1 tag s =
     (if CBS_peek_asn1_tag tag s then
        (case CBS_get_asn1 tag s of
           (None, s') \<Rightarrow> (None, s')
         | (Some out, s') \<Rightarrow> (Some (Some out), s'))
      else (Some None, s))"

definition CBS_get_optional_asn1_octet_string :: "CBS_ASN1_TAG \<Rightarrow> (cbs \<times> bool) decoder" where
  "CBS_get_optional_asn1_octet_string tag s =
     (case CBS_get_optional_asn1 tag s of
        (None, s') \<Rightarrow> (None, s')
      | (Some None, s') \<Rightarrow> (Some ([], False), s')
      | (Some (Some child), s') \<Rightarrow>
          (case CBS_get_asn1 CBS_ASN1_OCTETSTRING child of
             (None, _) \<Rightarrow> (None, s')
           | (Some out, child') \<Rightarrow>
               if length child' \<noteq> 0 then (None, s') else (Some (out, True), s')))"

definition CBS_get_optional_asn1_uint64 :: "CBS_ASN1_TAG \<Rightarrow> u64 \<Rightarrow> u64 decoder" where
  "CBS_get_optional_asn1_uint64 tag default_value s =
     (case CBS_get_optional_asn1 tag s of
        (None, s') \<Rightarrow> (None, s')
      | (Some None, s') \<Rightarrow> (Some default_value, s')
      | (Some (Some child), s') \<Rightarrow>
          (case CBS_get_asn1_uint64 child of
             (None, _) \<Rightarrow> (None, s')
           | (Some out, child') \<Rightarrow>
               if length child' \<noteq> 0 then (None, s') else (Some out, s')))"

definition CBS_get_optional_asn1_bool :: "CBS_ASN1_TAG \<Rightarrow> bool \<Rightarrow> bool decoder" where
  "CBS_get_optional_asn1_bool tag default_value s =
     (case CBS_get_optional_asn1 tag s of
        (None, s') \<Rightarrow> (None, s')
      | (Some None, s') \<Rightarrow> (Some default_value, s')
      | (Some (Some child), s') \<Rightarrow>
          (case CBS_get_asn1 CBS_ASN1_BOOLEAN child of
             (None, _) \<Rightarrow> (None, s')
           | (Some child2, child') \<Rightarrow>
               if length child2 \<noteq> 1 \<or> length child' \<noteq> 0 then (None, s')
               else if child2 ! 0 = 0 then (Some False, s')
               else if child2 ! 0 = 0xff then (Some True, s')
               else (None, s')))"

definition CBS_is_valid_asn1_bitstring :: "cbs \<Rightarrow> bool" where
  "CBS_is_valid_asn1_bitstring s =
     (case CBS_get_u8 s of
        (None, _) \<Rightarrow> False
      | (Some num_unused_bits, inp) \<Rightarrow>
          if num_unused_bits > 7 then False
          else if num_unused_bits = 0 then True
          else (case CBS_get_last_u8 inp of
                  (None, _) \<Rightarrow> False
                | (Some last_byte, _) \<Rightarrow>
                    if last_byte AND (push_bit (unat num_unused_bits) 1 - 1) \<noteq> 0 then False
                    else True))"

definition CBS_asn1_bitstring_has_bit :: "cbs \<Rightarrow> u32 \<Rightarrow> bool" where
  "CBS_asn1_bitstring_has_bit s bit_index =
     (if \<not> CBS_is_valid_asn1_bitstring s then False
      else
        let byte_num = unat (drop_bit 3 bit_index + 1);
            bit_num = unat (7 - (bit_index AND 7))
        in byte_num < length s \<and> (s ! byte_num) AND push_bit bit_num 1 \<noteq> 0)"

text \<open>The loop over an OID, with the byte before the next one.\<close>

fun asn1_oid_loop :: "u8 \<Rightarrow> bytes \<Rightarrow> bool" where
  "asn1_oid_loop prev [] = (prev AND 0x80 = 0)"
| "asn1_oid_loop prev (v # copy) =
     (if prev AND 0x80 = 0 \<and> v = 0x80 then False else asn1_oid_loop v copy)"

definition CBS_is_valid_asn1_oid :: "cbs \<Rightarrow> bool" where
  "CBS_is_valid_asn1_oid s = (if length s = 0 then False else asn1_oid_loop 0 s)"

definition CBS_is_valid_asn1_relative_oid :: "cbs \<Rightarrow> bool" where
  "CBS_is_valid_asn1_relative_oid s = CBS_is_valid_asn1_oid s"

section \<open>Times\<close>

definition cbs_get_two_digits :: "int decoder" where
  "cbs_get_two_digits s =
     (case CBS_get_u8 s of
        (None, s') \<Rightarrow> (None, s')
      | (Some first_digit, s') \<Rightarrow>
          if \<not> OPENSSL_isdigit first_digit then (None, s')
          else
            (case CBS_get_u8 s' of
               (None, s'') \<Rightarrow> (None, s'')
             | (Some second_digit, s'') \<Rightarrow>
                 if \<not> OPENSSL_isdigit second_digit then (None, s'')
                 else (Some ((uint first_digit - 0x30) * 10 + (uint second_digit - 0x30)), s'')))"

definition is_valid_day :: "int \<Rightarrow> int \<Rightarrow> int \<Rightarrow> bool" where
  "is_valid_day year month day =
     (if day < 1 then False
      else if month \<in> {1, 3, 5, 7, 8, 10, 12} then day \<le> 31
      else if month \<in> {4, 6, 9, 11} then day \<le> 30
      else if month = 2 then
        (if (year smod 4 = 0 \<and> year smod 100 \<noteq> 0) \<or> year smod 400 = 0
         then day \<le> 29 else day \<le> 28)
      else False)"

text \<open>The year field: four digits, or two digits that stand for 1950 to 2049.\<close>

definition parse_time_year :: "bool \<Rightarrow> int decoder" where
  "parse_time_year is_gentime s =
     (if is_gentime then
        (case cbs_get_two_digits s of
           (None, s') \<Rightarrow> (None, s')
         | (Some tmp, s') \<Rightarrow>
             (case cbs_get_two_digits s' of
                (None, s'') \<Rightarrow> (None, s'')
              | (Some tmp', s'') \<Rightarrow> (Some (tmp * 100 + tmp'), s'')))
      else
        (case cbs_get_two_digits s of
           (None, s') \<Rightarrow> (None, s')
         | (Some tmp, s') \<Rightarrow>
             let year = 1900 + tmp; year = (if year < 1950 then year + 100 else year)
             in if year \<ge> 2050 then (None, s') else (Some year, s')))"

text \<open>A two-digit field with the range test that follows it.\<close>

definition parse_time_field :: "(int \<Rightarrow> bool) \<Rightarrow> int decoder" where
  "parse_time_field ok s =
     (case cbs_get_two_digits s of
        (None, s') \<Rightarrow> (None, s')
      | (Some v, s') \<Rightarrow> if ok v then (Some v, s') else (None, s'))"

text \<open>The zone: nothing after \<^verbatim>\<open>Z\<close>, four digits after a sign; the result is in seconds.\<close>

definition parse_time_zone :: "bool \<Rightarrow> int decoder" where
  "parse_time_zone allow_timezone_offset s =
     (case CBS_get_u8 s of
        (None, s') \<Rightarrow> (None, s')
      | (Some tz, s') \<Rightarrow>
          if tz = 0x5a then (Some 0, s')
          else if tz \<noteq> 0x2b \<and> tz \<noteq> 0x2d then (None, s')
          else if \<not> allow_timezone_offset then (None, s')
          else
            let offset_sign = (if tz = 0x2b then 1 else - 1)
            in (case parse_time_field (\<lambda>h. \<not> h > 23) s' of
                  (None, s'') \<Rightarrow> (None, s'')
                | (Some offset_hours, s'') \<Rightarrow>
                    (case parse_time_field (\<lambda>m. \<not> m > 59) s'' of
                       (None, s''') \<Rightarrow> (None, s''')
                     | (Some offset_minutes, s''') \<Rightarrow>
                         (Some (offset_sign * (offset_hours * 3600 + offset_minutes * 60)), s'''))))"

text \<open>
  \<open>None\<close> is the return value zero. On success the result holds \<^verbatim>\<open>*out_tm\<close> when the caller
  passed a pointer (\<open>want_tm\<close>); without one the code validates the string only.
\<close>

definition CBS_parse_rfc5280_time_internal ::
  "bool \<Rightarrow> bool \<Rightarrow> bool \<Rightarrow> cbs \<Rightarrow> tm option option" where
  "CBS_parse_rfc5280_time_internal is_gentime allow_timezone_offset want_tm s =
     (case parse_time_year is_gentime s of
        (None, _) \<Rightarrow> None
      | (Some year, s1) \<Rightarrow>
     (case parse_time_field (\<lambda>m. \<not> (m < 1 \<or> m > 12)) s1 of
        (None, _) \<Rightarrow> None
      | (Some month, s2) \<Rightarrow>
     (case parse_time_field (is_valid_day year month) s2 of
        (None, _) \<Rightarrow> None
      | (Some day, s3) \<Rightarrow>
     (case parse_time_field (\<lambda>h. \<not> h > 23) s3 of
        (None, _) \<Rightarrow> None
      | (Some hour, s4) \<Rightarrow>
     (case parse_time_field (\<lambda>m. \<not> m > 59) s4 of
        (None, _) \<Rightarrow> None
      | (Some minute, s5) \<Rightarrow>
     (case parse_time_field (\<lambda>x. \<not> x > 59) s5 of
        (None, _) \<Rightarrow> None
      | (Some sec, s6) \<Rightarrow>
     (case parse_time_zone allow_timezone_offset s6 of
        (None, _) \<Rightarrow> None
      | (Some offset_seconds, s7) \<Rightarrow>
          if length s7 \<noteq> 0 then None
          else if \<not> want_tm then Some None
          else
            let out_tm = \<lparr>tm_year = year - 1900, tm_mon = month - 1, tm_mday = day,
                          tm_hour = hour, tm_min = minute, tm_sec = sec\<rparr>
            in if offset_seconds \<noteq> 0 then
                 (case OPENSSL_gmtime_adj out_tm 0 offset_seconds of
                    None \<Rightarrow> None
                  | Some out_tm \<Rightarrow> Some (Some out_tm))
               else Some (Some out_tm))))))))"

definition CBS_parse_generalized_time :: "bool \<Rightarrow> bool \<Rightarrow> cbs \<Rightarrow> tm option option" where
  "CBS_parse_generalized_time want_tm allow_timezone_offset s =
     CBS_parse_rfc5280_time_internal True allow_timezone_offset want_tm s"

definition CBS_parse_utc_time :: "bool \<Rightarrow> bool \<Rightarrow> cbs \<Rightarrow> tm option option" where
  "CBS_parse_utc_time want_tm allow_timezone_offset s =
     CBS_parse_rfc5280_time_internal False allow_timezone_offset want_tm s"


section \<open>What the readers do\<close>

named_theorems cbs_simps \<open>what the CBS readers do on a string of known shape\<close>

lemma cbs_get_append [cbs_simps]: "length xs = n \<Longrightarrow> cbs_get n (xs @ r) = (Some xs, r)"
  by (auto simp: cbs_get_def)

lemma cbs_get_short [cbs_simps]: "length s < n \<Longrightarrow> cbs_get n s = (None, s)"
  by (simp add: cbs_get_def)

lemma cbs_get_Some: "cbs_get n s = (Some xs, r) \<longleftrightarrow> length xs = n \<and> s = xs @ r"
  by (auto simp: cbs_get_def)

lemma cbs_get_None: "cbs_get n s = (None, r) \<longleftrightarrow> length s < n \<and> r = s"
  by (auto simp: cbs_get_def)

lemma CBS_get_bytes_eq [cbs_simps]: "CBS_get_bytes n s = cbs_get n s"
  by (simp add: CBS_get_bytes_def split: option.splits prod.splits)

lemma CBS_copy_bytes_eq [cbs_simps]: "CBS_copy_bytes n s = cbs_get n s"
  by (simp add: CBS_copy_bytes_def split: option.splits prod.splits)

lemma CBS_skip_eq [cbs_simps]: "CBS_skip n s = (n \<le> length s, drop (if n \<le> length s then n else 0) s)"
  by (simp add: CBS_skip_def cbs_get_def)

lemma CBS_get_u8_Cons [cbs_simps]: "CBS_get_u8 (b # s) = (Some b, s)"
  by (simp add: CBS_get_u8_def cbs_get_def)

lemma CBS_get_u8_Nil [cbs_simps]: "CBS_get_u8 [] = (None, [])"
  by (simp add: CBS_get_u8_def cbs_get_def)

lemma CBS_get_u8_Some: "CBS_get_u8 s = (Some b, r) \<longleftrightarrow> s = b # r"
  by (cases s) (auto simp: cbs_simps)

lemma CBS_get_u8_None: "CBS_get_u8 s = (None, r) \<longleftrightarrow> s = [] \<and> r = []"
  by (cases s) (auto simp: cbs_simps)

lemma be_fold_u64:
  "length bs \<le> 8 \<Longrightarrow> unat (foldl (\<lambda>r b. push_bit 8 r OR ucast b) (0 :: u64) bs) = be_val bs"
proof (induction bs rule: rev_induct)
  case (snoc b bs)
  define r where "r = foldl (\<lambda>r b. push_bit 8 r OR ucast b) (0 :: u64) bs"
  have r: "unat r = be_val bs" using snoc by (simp add: r_def)
  have b: "unat (ucast b :: u64) = unat b" by (simp add: unat_ucast_up)
  have "be_val (bs @ [b]) < 256 ^ length (bs @ [b])" by (rule be_val_less)
  also have "\<dots> \<le> 256 ^ 8" using snoc.prems by (intro power_increasing) simp_all
  finally have "unat r * 2 ^ 8 + unat (ucast b :: u64) < 2 ^ 64" by (simp add: r b)
  then have "unat (push_bit 8 r OR ucast b) = unat r * 2 ^ 8 + unat (ucast b :: u64)"
    by (intro unat_push_or) (simp_all add: b)
  then show ?case by (simp add: r b flip: r_def)
qed simp

lemma cbs_get_u_eq:
  assumes "n \<le> 8"
  shows "cbs_get_u n s =
    (if length s < n then (None, s) else (Some (word_of_nat (be_val (take n s))), drop n s))"
proof (cases "length s < n")
  case False
  then have "foldl (\<lambda>r b. push_bit 8 r OR ucast b) (0 :: u64) (take n s)
      = word_of_nat (unat (foldl (\<lambda>r b. push_bit 8 r OR ucast b) (0 :: u64) (take n s)))"
    by simp
  also have "\<dots> = word_of_nat (be_val (take n s))"
    using assms by (subst be_fold_u64) simp_all
  finally show ?thesis
    using False by (simp add: cbs_get_u_def cbs_get_def)
qed (simp add: cbs_get_u_def cbs_get_def)

lemma unat_be_val_u64: "length bs \<le> 8 \<Longrightarrow> unat (word_of_nat (be_val bs) :: u64) = be_val bs"
proof -
  assume "length bs \<le> 8"
  then have "(256 :: nat) ^ length bs \<le> 256 ^ 8" by (intro power_increasing) simp_all
  with be_val_less [of bs] have "be_val bs < 2 ^ 64" by simp
  then show ?thesis by (simp add: unat_simps)
qed

lemma cbs_get_u_append [cbs_simps]:
  assumes "length xs = n" and "n \<le> 8"
  shows "cbs_get_u n (xs @ r) = (Some (word_of_nat (be_val xs)), r)"
  using assms by (simp add: cbs_get_u_eq)

lemma cbs_get_u_Some:
  assumes "n \<le> 8"
  shows "cbs_get_u n s = (Some v, r) \<longleftrightarrow> (\<exists>xs. length xs = n \<and> s = xs @ r \<and> unat v = be_val xs)"
proof
  assume "cbs_get_u n s = (Some v, r)"
  then show "\<exists>xs. length xs = n \<and> s = xs @ r \<and> unat v = be_val xs"
    using assms
    by (intro exI [of _ "take n s"]) (auto simp: cbs_get_u_eq unat_be_val_u64 split: if_splits)
next
  assume "\<exists>xs. length xs = n \<and> s = xs @ r \<and> unat v = be_val xs"
  then obtain xs where "length xs = n" "s = xs @ r" "unat v = be_val xs" by blast
  then show "cbs_get_u n s = (Some v, r)"
    using assms by (simp add: cbs_get_u_append word_eq_unat unat_be_val_u64)
qed

text \<open>Length-prefixed strings.\<close>

lemma cbs_get_length_prefixed_append [cbs_simps]:
  assumes "len_len \<le> 8" and "length xs < 256 ^ len_len"
  shows "cbs_get_length_prefixed len_len (be_bytes len_len (length xs) @ xs @ r) = (Some xs, r)"
proof -
  have "unat (word_of_nat (length xs) :: u64) = length xs"
    using unat_be_val_u64 [of "be_bytes len_len (length xs)"] assms by simp
  with assms show ?thesis
    by (simp add: cbs_get_length_prefixed_def cbs_simps)
qed

lemma cbs_get_length_prefixed_Some:
  assumes "len_len \<le> 8"
  shows "cbs_get_length_prefixed len_len s = (Some xs, r) \<longleftrightarrow>
    length xs < 256 ^ len_len \<and> s = be_bytes len_len (length xs) @ xs @ r"
proof
  assume "cbs_get_length_prefixed len_len s = (Some xs, r)"
  then obtain len s' where "cbs_get_u len_len s = (Some len, s')" "cbs_get (unat len) s' = (Some xs, r)"
    by (auto simp: cbs_get_length_prefixed_def cbs_simps split: option.splits prod.splits)
  then obtain ls where ls: "length ls = len_len" "s = ls @ s'" "unat len = be_val ls"
    and "length xs = unat len" "s' = xs @ r"
    using assms by (auto simp: cbs_get_u_Some cbs_get_Some)
  then show "length xs < 256 ^ len_len \<and> s = be_bytes len_len (length xs) @ xs @ r"
    using be_val_less [of ls] by (auto simp: be_bytes_be_val)
qed (use assms in \<open>auto simp: cbs_simps\<close>)

end
