(* ===== verification/Der.thy ===== *)
theory Der
  imports Cbs
begin

text \<open>
  What the ASN.1 readers of \<^verbatim>\<open>crypto/bytestring/cbs.cc\<close> accept. The reference encoding of a tag, a
  length and an element (\<open>der_tag\<close>, \<open>der_len\<close>, \<open>der_element\<close>) and the two's complement value of INTEGER
  contents (\<open>tc_val\<close>, \<open>tc_minimal\<close>) are stated here on their own; the lemmas show that the readers of
  \<open>Cbs\<close> accept exactly these encodings, through the codec interfaces of \<open>Prelude\<close>.
\<close>

unbundle bit_operations_syntax

section \<open>Base-128 integers\<close>

text \<open>
  The reference encoding: the digits of a number in base 128, most significant first and
  without a leading zero, every digit but the last with the high bit set.
\<close>

fun base128_high :: "nat \<Rightarrow> bytes" where
  "base128_high n =
     (if n = 0 then [] else base128_high (n div 128) @ [word_of_nat (128 + n mod 128)])"

declare base128_high.simps [simp del]

definition base128 :: "nat \<Rightarrow> bytes" where
  "base128 n = base128_high (n div 128) @ [word_of_nat (n mod 128)]"

definition base128_val :: "nat \<Rightarrow> bytes \<Rightarrow> nat" where
  "base128_val v bs = foldl (\<lambda>a b. a * 128 + unat b mod 128) v bs"

lemma u8_minus_128: "unat (b :: u8) - 128 < 128"
  using unat_u8_less [of b] by linarith

lemma u8_mod_128: "128 \<le> unat (b :: u8) \<Longrightarrow> unat b mod 128 = unat b - 128"
  using u8_minus_128 [of b] by (simp add: le_mod_geq)

lemma u8_high_bit: "(b :: u8) AND 0x80 = 0 \<longleftrightarrow> unat b < 128"
proof -
  have "\<forall>b::u8. (b AND 0x80 = 0) = (unat b < 128)"
    unfolding u8_all by code_simp
  then show ?thesis by blast
qed

lemma u8_low_bits: "unat ((b :: u8) AND 0x7f) = unat b mod 128"
  using unat_and_mask [of b 7] by (simp add: mask_eq_exp_minus_1)

lemma base128_step:
  fixes v :: u64
  assumes "unat v < 2 ^ 57"
  shows "unat (push_bit 7 v OR ucast ((b :: u8) AND 0x7f)) = unat v * 128 + unat b mod 128"
proof -
  have b: "unat (ucast (b AND 0x7f) :: u64) = unat b mod 128"
    by (simp add: unat_ucast_up u8_low_bits)
  have "unat v * 2 ^ 7 + unat (ucast (b AND 0x7f) :: u64) < 2 ^ 64"
    using assms by (simp add: b)
  then show ?thesis
    by (subst unat_push_or) (simp_all add: b)
qed

lemma base128_overflow: "drop_bit 57 (v :: u64) = 0 \<longleftrightarrow> unat v < 2 ^ 57"
  by (simp add: word_eq_unat unat_simps div_eq_0_iff)

lemma base128_val_Cons [simp]:
  "base128_val v (b # bs) = base128_val (v * 128 + unat b mod 128) bs"
  by (simp add: base128_val_def)

lemma base128_val_Nil [simp]: "base128_val v [] = v"
  by (simp add: base128_val_def)

lemma base128_val_snoc: "base128_val v (bs @ [b]) = base128_val v bs * 128 + unat b mod 128"
  by (simp add: base128_val_def)

lemma base128_val_ge: "v \<le> base128_val v bs"
proof (induction bs arbitrary: v)
  case (Cons b bs)
  have "v \<le> v * 128 + unat b mod 128" by simp
  also have "\<dots> \<le> base128_val v (b # bs)" using Cons.IH by simp
  finally show ?case .
qed simp

text \<open>What the loop accepts, from the value read so far.\<close>

lemma base128_loop_accepts:
  assumes "\<forall>h \<in> set hs. 128 \<le> unat h" and "unat l < 128"
    and "v = 0 \<longrightarrow> hd (hs @ [l]) \<noteq> 0x80" and "base128_val (unat v) (hs @ [l]) < 2 ^ 64"
  shows "base128_loop v (hs @ l # r) = (Some (word_of_nat (base128_val (unat v) (hs @ [l]))), r)"
  using assms
proof (induction hs arbitrary: v)
  case Nil
  have v: "unat v < 2 ^ 57"
    using Nil.prems(4) by simp
  have "push_bit 7 v OR ucast (l AND 0x7f) = word_of_nat (unat v * 128 + unat l mod 128)"
    using base128_step [OF v, of l] Nil.prems(4)
    by (simp only: word_eq_unat) (subst unat_word_of_nat_small; simp)
  moreover have "l AND 0x80 = 0" using Nil.prems(2) by (simp add: u8_high_bit)
  ultimately show ?case
    using v Nil.prems by (simp add: base128_overflow Let_def)
next
  case (Cons h hs)
  have "unat v * 128 + unat h mod 128 \<le> base128_val (unat v) ((h # hs) @ [l])"
    using base128_val_ge by simp
  with Cons.prems(4) have v: "unat v < 2 ^ 57" by simp
  define v' where "v' = push_bit 7 v OR ucast (h AND 0x7f)"
  have v': "unat v' = unat v * 128 + unat h mod 128"
    unfolding v'_def by (rule base128_step [OF v])
  have h: "h AND 0x80 \<noteq> 0" "128 \<le> unat h" using Cons.prems(1) by (simp_all add: u8_high_bit not_less)
  have "v' \<noteq> 0"
  proof
    assume "v' = 0"
    with v' have "v = 0" and "unat h mod 128 = 0" by (simp_all add: word_eq_unat)
    moreover have "unat h = 128"
      using h(2) calculation(2) by (simp add: u8_mod_128)
    ultimately show False using Cons.prems(3) by (simp add: word_eq_unat)
  qed
  moreover have "base128_val (unat v') (hs @ [l]) < 2 ^ 64"
    using Cons.prems(4) by (simp add: v')
  ultimately have "base128_loop v' (hs @ l # r) = (Some (word_of_nat (base128_val (unat v') (hs @ [l]))), r)"
    using Cons.IH [of v'] Cons.prems by simp
  with h v Cons.prems(3) show ?case
    by (simp add: base128_overflow Let_def v' flip: v'_def)
qed

lemma base128_loop_inv:
  "base128_loop v s = (Some w, r) \<Longrightarrow>
     \<exists>hs l. s = hs @ l # r \<and> (\<forall>h \<in> set hs. 128 \<le> unat h) \<and> unat l < 128
       \<and> (v = 0 \<longrightarrow> hd (hs @ [l]) \<noteq> 0x80) \<and> unat w = base128_val (unat v) (hs @ [l])"
proof (induction v s rule: base128_loop.induct)
  case (2 v b s)
  from 2(2) have nov: "drop_bit 57 v = 0" and first: "\<not> (v = 0 \<and> b = 0x80)"
    by (auto split: if_splits)
  then have v: "unat v < 2 ^ 57" by (simp only: base128_overflow)
  define v' where "v' = push_bit 7 v OR ucast (b AND 0x7f)"
  have v': "unat v' = unat v * 128 + unat b mod 128"
    unfolding v'_def by (rule base128_step [OF v])
  have step: "(if b AND 0x80 \<noteq> 0 then base128_loop v' s else (Some v', s)) = (Some w, r)"
    using 2(2) nov first by (simp add: Let_def flip: v'_def split: if_splits)
  show ?case
  proof (cases "b AND 0x80 = 0")
    case True
    with step v' first show ?thesis
      by (intro exI [of _ "[]"] exI [of _ b]) (simp add: u8_high_bit)
  next
    case False
    have "base128_loop v' s = (Some w, r)" using False step by simp
    from 2(1) [OF _ first v'_def False this] nov obtain hs l where
      "s = hs @ l # r" "\<forall>h \<in> set hs. 128 \<le> unat h" "unat l < 128"
      "unat w = base128_val (unat v') (hs @ [l])"
      by auto
    with False v' first show ?thesis
      by (intro exI [of _ "b # hs"] exI [of _ l]) (auto simp: u8_high_bit not_less)
  qed
qed simp

text \<open>The reference encoding is the only string the parser reads as a given value.\<close>

lemma base128_high_snoc:
  "base128_high n = (if n = 0 then [] else base128_high (n div 128) @ [word_of_nat (128 + n mod 128)])"
  by (rule base128_high.simps)

lemma base128_high_props:
  "(\<forall>h \<in> set (base128_high n). 128 \<le> unat h) \<and> base128_val 0 (base128_high n) = n
    \<and> (base128_high n \<noteq> [] \<longrightarrow> hd (base128_high n) \<noteq> 0x80) \<and> (base128_high n = [] \<longleftrightarrow> n = 0)"
proof (induction n rule: base128_high.induct)
  case (1 n)
  show ?case
  proof (cases "n = 0")
    case True
    then show ?thesis by (simp add: base128_high.simps)
  next
    case False
    have d: "unat (word_of_nat (128 + n mod 128) :: u8) = 128 + n mod 128"
      by (rule unat_word_of_nat_small) simp
    have "hd (base128_high n) \<noteq> 0x80"
    proof (cases "n div 128 = 0")
      case True
      then have "base128_high n = [word_of_nat (128 + n mod 128)]" and "n mod 128 \<noteq> 0"
        using False by (simp_all add: base128_high.simps [of n] base128_high.simps [of 0])
      then show ?thesis using d by (simp only: list.sel word_eq_unat) simp
    next
      case nz: False
      with 1 [OF False] show ?thesis
        by (subst base128_high.simps) (simp add: False)
    qed
    with 1 [OF False] False d show ?thesis
      by (subst (1 2 5) base128_high.simps) (auto simp: base128_val_snoc base128_high.simps [of n])
  qed
qed


lemma base128_high_unique:
  assumes "\<forall>h \<in> set hs. 128 \<le> unat h" and "hs \<noteq> [] \<longrightarrow> hd hs \<noteq> 0x80"
  shows "hs = base128_high (base128_val 0 hs)"
  using assms
proof (induction hs rule: rev_induct)
  case Nil
  then show ?case by (simp add: base128_high.simps)
next
  case (snoc h hs)
  define n where "n = base128_val 0 hs"
  have h: "128 \<le> unat h" "unat h < 256" using snoc.prems(1) by simp_all
  then have hm: "unat h mod 128 = unat h - 128"
    by (simp add: u8_mod_128)
  have hv: "word_of_nat (128 + unat h mod 128) = h"
    using h(1) by (simp add: hm del: of_nat_add)
  have hs: "hs = base128_high n"
    unfolding n_def by (rule snoc.IH) (use snoc.prems in \<open>auto simp: hd_append\<close>)
  have val: "base128_val 0 (hs @ [h]) = n * 128 + unat h mod 128"
    by (simp add: base128_val_snoc n_def)
  have "base128_val 0 (hs @ [h]) \<noteq> 0"
  proof
    assume "base128_val 0 (hs @ [h]) = 0"
    with val have "n = 0" "unat h mod 128 = 0" by simp_all
    then have "hs = []" and "unat h = 128"
      using hs h hm base128_high.simps [of 0] by simp_all
    with snoc.prems(2) show False by (simp add: word_eq_unat)
  qed
  then show ?case
    by (subst base128_high.simps) (simp add: val hv del: of_nat_add flip: hs)
qed

lemma parse_base128_iff:
  "parse_base128_integer s = (Some w, r) \<longleftrightarrow> s = base128 (unat w) @ r"
proof
  assume "parse_base128_integer s = (Some w, r)"
  then obtain hs l where p: "s = hs @ l # r" "\<forall>h \<in> set hs. 128 \<le> unat h" "unat l < 128"
    "hd (hs @ [l]) \<noteq> 0x80" "unat w = base128_val 0 (hs @ [l])"
    unfolding parse_base128_integer_def by (auto dest!: base128_loop_inv)
  have "hs = base128_high (base128_val 0 hs)"
    using p(2,4) by (intro base128_high_unique) (auto simp: hd_append split: if_splits)
  moreover have "unat w = base128_val 0 hs * 128 + unat l"
    using p(3,5) by (simp add: base128_val_snoc)
  moreover have "word_of_nat (unat l) = l" by simp
  ultimately show "s = base128 (unat w) @ r"
    using p(1,3) by (simp add: base128_def)
next
  assume s: "s = base128 (unat w) @ r"
  define n where "n = unat w"
  define l where "l = (word_of_nat (n mod 128) :: u8)"
  note high = base128_high_props [of "n div 128"]
  have l: "unat l = n mod 128" unfolding l_def by (rule unat_word_of_nat_small) (simp add: mod_less_divisor less_trans)
  have "base128_val 0 (base128_high (n div 128) @ [l]) = n"
    using high by (simp add: base128_val_snoc l)
  moreover have "hd (base128_high (n div 128) @ [l]) \<noteq> 0x80"
    using high l by (auto simp: hd_append word_eq_unat)
  moreover have "n < 2 ^ 64" unfolding n_def by (rule unat_u64_less)
  ultimately have "base128_loop 0 (base128_high (n div 128) @ l # r) = (Some (word_of_nat n), r)"
    using base128_loop_accepts [of "base128_high (n div 128)" l 0 r] high l by simp
  then show "parse_base128_integer s = (Some w, r)"
    by (simp add: parse_base128_integer_def s base128_def n_def l_def)
qed


section \<open>Tags and lengths\<close>

text \<open>The DER identifier of a tag and the DER length, as the standard has them.\<close>

definition der_tag :: "CBS_ASN1_TAG \<Rightarrow> bytes" where
  "der_tag tag =
     (let bits = unat tag div 2 ^ 29 * 32; number = unat tag mod 2 ^ 29
      in if number \<ge> 31 then word_of_nat (bits + 31) # base128 number
         else [word_of_nat (bits + number)])"

definition tag_ok :: "CBS_ASN1_TAG \<Rightarrow> bool" where
  "tag_ok tag \<longleftrightarrow> tag AND NOT CBS_ASN1_CONSTRUCTED \<noteq> 0"

definition der_len_len :: "nat \<Rightarrow> nat" where
  "der_len_len n = (if n < 2 ^ 8 then 1 else if n < 2 ^ 16 then 2 else if n < 2 ^ 24 then 3 else 4)"

definition der_len :: "nat \<Rightarrow> bytes" where
  "der_len n =
     (if n < 128 then [word_of_nat n]
      else word_of_nat (128 + der_len_len n) # be_bytes (der_len_len n) n)"

definition der_element :: "CBS_ASN1_TAG \<Rightarrow> bytes \<Rightarrow> bytes" where
  "der_element tag contents = der_tag tag @ der_len (length contents) @ contents"

text \<open>The tag with class and constructed bits \<open>k\<close> and number \<open>n\<close>.\<close>

definition mk_tag :: "nat \<Rightarrow> nat \<Rightarrow> CBS_ASN1_TAG" where
  "mk_tag k n = word_of_nat (k * 536870912 + n)"

lemma unat_mk_tag: "k < 8 \<Longrightarrow> n < 536870912 \<Longrightarrow> unat (mk_tag k n) = k * 536870912 + n"
  unfolding mk_tag_def by (rule unat_word_of_nat_small) simp

lemma mk_tag_parts: "mk_tag (unat t div 536870912) (unat t mod 536870912) = t"
  by (simp add: mk_tag_def del: of_nat_add)

lemma u8_div_32: "unat (b :: u8) div 32 < 8"
  using unat_u8_less [of b] by linarith

lemma u8_class_bits: "unat ((b :: u8) AND 0xe0) = unat b div 32 * 32"
proof -
  have "\<forall>b::u8. b AND 0xe0 = push_bit 5 (drop_bit 5 b)"
    unfolding u8_all by code_simp
  then have "unat (b AND 0xe0) = unat b div 32 * 32 mod 256"
    by (simp only: unat_push_bit unat_drop_bit) (simp add: unat_simps)
  then show ?thesis
    using u8_div_32 [of b] by simp
qed

lemma tag_byte_bits:
  "unat (asn1_tag_bits b) = unat b div 32 * 536870912"
  "unat (ucast (b AND 0x1f) :: u32) = unat b mod 32"
proof -
  have "ucast b AND 0xe0 = (ucast (b AND 0xe0) :: u32)"
    by (simp add: unsigned_and_eq)
  then have "asn1_tag_bits b = push_bit 24 (ucast (b AND 0xe0))"
    by (simp only: asn1_tag_bits_def)
  then have "unat (asn1_tag_bits b) = (unat b div 32 * 32) * 2 ^ 24 mod 2 ^ 32"
    by (simp only: unat_push_bit unat_ucast_up u8_class_bits) (simp add: unat_ucast_up u8_class_bits)
  also have "\<dots> = unat b div 32 * 536870912"
    using u8_div_32 [of b] by (subst mod_less) auto
  finally show "unat (asn1_tag_bits b) = unat b div 32 * 536870912" .
  show "unat (ucast (b AND 0x1f) :: u32) = unat b mod 32"
    using unat_and_mask [of b 5] by (simp add: unat_ucast_up mask_eq_exp_minus_1)
qed

lemma tag_build:
  assumes "unat n < 536870912"
  shows "asn1_tag_bits b OR n = mk_tag (unat b div 32) (unat n)"
proof -
  have less: "unat b div 32 * 536870912 + unat n < 2 ^ 32"
    using assms u8_div_32 [of b] by simp
  have "asn1_tag_bits b OR n = asn1_tag_bits b + n"
    by (rule or_plus_disjoint [of _ 29]) (simp_all add: assms tag_byte_bits)
  then have "unat (asn1_tag_bits b OR n) = unat b div 32 * 536870912 + unat n"
    using less by (simp add: unat_word_ariths tag_byte_bits)
  then show ?thesis
    by (simp only: word_eq_unat unat_mk_tag [OF u8_div_32 assms])
qed

lemma parse_asn1_tag_low:
  assumes "unat b mod 32 < 31"
  shows "parse_asn1_tag (b # s) =
    (let t = mk_tag (unat b div 32) (unat b mod 32) in (if tag_ok t then Some t else None, s))"
proof -
  have "ucast (b AND 0x1f) \<noteq> (0x1f :: u32)"
    using assms by (simp add: word_eq_unat tag_byte_bits)
  moreover have "asn1_tag_bits b OR ucast (b AND 0x1f) = mk_tag (unat b div 32) (unat b mod 32)"
    using tag_build [of "ucast (b AND 0x1f)" b] assms by (simp add: tag_byte_bits)
  ultimately show ?thesis
    by (simp add: parse_asn1_tag_def tag_ok_def cbs_simps Let_def)
qed

lemma parse_asn1_tag_high:
  assumes "unat b mod 32 = 31"
  shows "parse_asn1_tag (b # s) =
    (case parse_base128_integer s of
       (None, s') \<Rightarrow> (None, s')
     | (Some v, s') \<Rightarrow>
         if unat v < 31 \<or> 536870912 \<le> unat v then (None, s')
         else let t = mk_tag (unat b div 32) (unat v) in (if tag_ok t then Some t else None, s'))"
proof -
  have n: "ucast (b AND 0x1f) = (0x1f :: u32)"
    using assms by (simp add: word_eq_unat tag_byte_bits)
  have range: "v > ucast CBS_ASN1_TAG_NUMBER_MASK \<or> v < 0x1f \<longleftrightarrow> unat v < 31 \<or> 536870912 \<le> unat v"
    for v :: u64
    by (auto simp: CBS_ASN1_TAG_NUMBER_MASK_def word_less_nat_alt)
  have build: "asn1_tag_bits b OR ucast v = mk_tag (unat b div 32) (unat v)"
    if "\<not> 536870912 \<le> unat v" for v :: u64
    using tag_build [of "ucast v" b] that by (simp add: unat_simps)
  obtain v s' where "parse_base128_integer s = (v, s')" by fastforce
  then show ?thesis
    by (cases v) (simp_all only: parse_asn1_tag_def CBS_get_u8_Cons n range tag_ok_def Let_def build
      prod.case option.case if_True refl split: if_splits, auto simp: build)
qed

text \<open>Every identifier is a byte for the class bits and, for a high number, the number.\<close>

lemma der_tag_mk:
  assumes "k < 8" and "n < 536870912"
  shows "der_tag (mk_tag k n) =
    (if 31 \<le> n then word_of_nat (k * 32 + 31) # base128 n else [word_of_nat (k * 32 + n)])"
  using assms by (simp add: der_tag_def unat_mk_tag Let_def)

lemma unat_tag_byte: "k < 8 \<Longrightarrow> n < 32 \<Longrightarrow> unat (word_of_nat (k * 32 + n) :: u8) = k * 32 + n"
  by (rule unat_word_of_nat_small) simp

lemma parse_asn1_tag_der_tag:
  assumes "tag_ok tag"
  shows "parse_asn1_tag (der_tag tag @ r) = (Some tag, r)"
proof -
  define k n where "k = unat tag div 536870912" and "n = unat tag mod 536870912"
  have kn: "k < 8" "n < 536870912" and tag: "tag = mk_tag k n"
    using unat_u32_less [of tag] by (auto simp: k_def n_def mk_tag_parts less_mult_imp_div_less)
  show ?thesis
  proof (cases "31 \<le> n")
    case True
    have b: "unat (word_of_nat (k * 32 + 31) :: u8) = k * 32 + 31"
      using kn by (intro unat_tag_byte) simp_all
    have v: "unat (word_of_nat n :: u64) = n" using kn by (intro unat_word_of_nat_small) simp
    then have "parse_base128_integer (base128 n @ r) = (Some (word_of_nat n), r)"
      by (simp add: parse_base128_iff)
    with True kn assms v show ?thesis
      by (simp add: tag der_tag_mk parse_asn1_tag_high b del: of_nat_add)
  next
    case False
    have b: "unat (word_of_nat (k * 32 + n) :: u8) = k * 32 + n"
      using kn False by (intro unat_tag_byte) simp_all
    with False kn assms show ?thesis
      by (simp add: tag der_tag_mk parse_asn1_tag_low b del: of_nat_add)
  qed
qed

lemma parse_asn1_tag_inv:
  assumes "parse_asn1_tag s = (Some tag, r)"
  shows "tag_ok tag \<and> s = der_tag tag @ r"
proof (cases s)
  case Nil
  with assms show ?thesis by (simp add: parse_asn1_tag_def cbs_simps)
next
  case (Cons b s')
  have b32: "word_of_nat (unat b div 32 * 32 + unat b mod 32) = b"
    by (simp del: of_nat_add)
  have "unat b mod 32 < 32" by simp
  then consider "unat b mod 32 < 31" | "unat b mod 32 = 31" by linarith
  then show ?thesis
  proof cases
    case 1
    then have "tag = mk_tag (unat b div 32) (unat b mod 32)" "tag_ok tag" "r = s'"
      using assms Cons by (auto simp: parse_asn1_tag_low Let_def split: if_splits)
    with 1 show ?thesis
      using b32 by (simp add: Cons der_tag_mk u8_div_32 del: of_nat_add)
  next
    case 2
    with assms Cons obtain v where v: "parse_base128_integer s' = (Some v, r)"
      "31 \<le> unat v" "unat v < 536870912" "tag = mk_tag (unat b div 32) (unat v)" "tag_ok tag"
      by (auto simp: parse_asn1_tag_high Let_def not_less split: option.splits prod.splits if_splits)
    then show ?thesis
      using b32 unfolding 2 by (simp add: Cons der_tag_mk u8_div_32 parse_base128_iff del: of_nat_add)
  qed
qed

lemma cbs_get_rest:
  assumes "cbs_get (p + n) s = (Some out, r)" and "s = hdr @ t" and "length hdr = p"
  obtains c where "t = c @ r" and "length c = n" and "out = hdr @ c"
proof
  have "length out = p + n" "hdr @ t = out @ r"
    using assms by (auto simp: cbs_get_Some)
  then show "t = drop p out @ r" "length (drop p out) = n" "out = hdr @ drop p out"
    using assms(3) by (auto simp: append_eq_append_conv2)
qed

lemma base128_length: "n < 536870912 \<Longrightarrow> length (base128 n) \<le> 5"
  by (simp add: base128_def base128_high.simps [of "n div 128"] base128_high.simps [of "n div 16384"]
      base128_high.simps [of "n div 2097152"] base128_high.simps [of "n div 268435456"]
      base128_high.simps [of 0] div_mult2_eq [symmetric])

lemma der_tag_length: "length (der_tag tag) \<le> 6" "0 < length (der_tag tag)"
  using base128_length [of "unat tag mod 536870912"] by (auto simp: der_tag_def Let_def)

lemma der_len_len_iff:
  assumes "128 \<le> n" and "1 \<le> k" and "k \<le> 4" and "n < 256 ^ k"
  shows "der_len_len n = k \<longleftrightarrow> 256 ^ (k - 1) \<le> n"
proof -
  have "k = 1 \<or> k = 2 \<or> k = 3 \<or> k = 4" using assms(2,3) by linarith
  then show ?thesis using assms by (auto simp: der_len_len_def)
qed

lemma der_len_len_range: "1 \<le> der_len_len n" "der_len_len n \<le> 4"
  by (auto simp: der_len_len_def)

lemma der_len_len_fits: "n < 4294967296 \<Longrightarrow> n < 256 ^ der_len_len n"
  by (auto simp: der_len_len_def)

text \<open>Reading the length after an identifier, in the short and the long form.\<close>

lemma element_short:
  assumes "parse_asn1_tag s = (Some tag, lb # h)" and "unat lb < 128"
  shows "cbs_get_any_asn1_element ber_ok s =
    (let hl = length (der_tag tag) + 1
     in case cbs_get (hl + unat lb) s of
          (None, s') \<Rightarrow> (None, s')
        | (Some out, s') \<Rightarrow> (Some \<lparr>el_out = out, el_tag = tag, el_header_len = hl,
                                 el_ber_found = False, el_indefinite = False\<rparr>, s'))"
proof -
  have s: "s = der_tag tag @ lb # h" using assms(1) by (auto dest: parse_asn1_tag_inv)
  have "size_add (unat lb) (length (der_tag tag) + 1) = length (der_tag tag) + 1 + unat lb"
    using der_tag_length(1) [of tag] assms(2) by (subst size_add_exact) simp_all
  moreover have "length s - length h = length (der_tag tag) + 1" by (simp add: s)
  ultimately show ?thesis
    using assms by (simp add: cbs_get_any_asn1_element_def cbs_simps u8_high_bit Let_def
        split: option.splits prod.splits)
qed

lemma element_long:
  assumes "parse_asn1_tag s = (Some tag, lb # xs @ h)" and "unat lb = 128 + length xs"
    and "1 \<le> length xs" and "length xs \<le> 4"
  shows "cbs_get_any_asn1_element ber_ok s =
    (let n = be_val xs; minimal = (128 \<le> n \<and> der_len_len n = length xs);
         hl = length (der_tag tag) + 1 + length xs
     in if \<not> minimal \<and> \<not> ber_ok then (None, s)
        else case cbs_get (hl + n) s of
          (None, s') \<Rightarrow> (None, s')
        | (Some out, s') \<Rightarrow> (Some \<lparr>el_out = out, el_tag = tag, el_header_len = hl,
                                 el_ber_found = \<not> minimal, el_indefinite = False\<rparr>, s'))"
proof -
  define n where "n = be_val xs"
  define hl where "hl = length (der_tag tag) + 1"
  define w where "w = (word_of_nat (be_val xs) :: u64)"
  have s: "s = der_tag tag @ lb # xs @ h" using assms(1) by (auto dest: parse_asn1_tag_inv)
  have w: "unat w = n" using assms(4) by (simp add: w_def n_def unat_be_val_u64)
  have nb: "n < 256 ^ length xs" unfolding n_def by (rule be_val_less)
  also have "(256::nat) ^ length xs \<le> 256 ^ 4" using assms(4) by (intro power_increasing) simp_all
  finally have n32: "n < 2 ^ 32" by simp
  have hl: "hl \<le> 7" using der_tag_length(1) [of tag] by (simp add: hl_def)
  have num: "unat (lb AND 0x7f) = length xs" "\<not> unat lb < 128"
    using assms(2,4) by (simp_all add: u8_low_bits)
  have get: "cbs_get_u (length xs) (xs @ h) = (Some w, h)"
    using assms(4) by (simp add: w_def cbs_simps)
  have "256 ^ (length xs - 1) = (2::nat) ^ ((length xs - 1) * 8)"
    using power_mult [of "2::nat" 8 "length xs - 1"] by (simp add: mult.commute)
  then have "(w < 128 \<or> drop_bit ((length xs - 1) * 8) w = 0) \<longleftrightarrow> n < 128 \<or> n < 256 ^ (length xs - 1)"
    by (simp add: word_less_nat_alt word_eq_unat unat_drop_bit w div_eq_0_iff)
  also have "\<dots> \<longleftrightarrow> \<not> (128 \<le> n \<and> der_len_len n = length xs)"
    using der_len_len_iff [OF _ assms(3,4) nb] by (auto simp: not_less)
  finally have minimal: "(w < 128 \<or> drop_bit ((length xs - 1) * 8) w = 0)
      \<longleftrightarrow> \<not> (128 \<le> n \<and> der_len_len n = length xs)" .
  have add: "size_add (size_add n hl) (length xs) = n + hl + length xs"
    "size_add n (size_add hl (length xs)) = hl + length xs + n"
    using n32 hl assms(4) by (simp_all add: size_add_exact)
  have "length s - length (xs @ h) = hl" by (simp add: s hl_def)
  moreover have "length xs \<noteq> 0" "\<not> 4 < length xs" using assms(3,4) by linarith+
  ultimately show ?thesis
    unfolding cbs_get_any_asn1_element_def assms(1) prod.case option.case CBS_get_u8_Cons Let_def
    by (simp only: num get minimal w add u8_high_bit n_def [symmetric] hl_def [symmetric] CBS_get_bytes_eq
        if_False simp_thms prod.case option.case)
      (simp add: not_less)
qed

text \<open>The strict reader accepts exactly the DER encodings; the lenient one accepts them too.\<close>

lemma element_der:
  assumes "tag_ok tag" and "length c < 4294967296"
  shows "cbs_get_any_asn1_element ber_ok (der_element tag c @ r) =
    (Some \<lparr>el_out = der_element tag c, el_tag = tag,
           el_header_len = length (der_tag tag) + length (der_len (length c)),
           el_ber_found = False, el_indefinite = False\<rparr>, r)"
proof (cases "length c < 128")
  case True
  have lb: "unat (word_of_nat (length c) :: u8) = length c"
    using True by (intro unat_word_of_nat_small) simp
  have "parse_asn1_tag (der_element tag c @ r) = (Some tag, word_of_nat (length c) # c @ r)"
    using True assms(1) by (simp add: der_element_def der_len_def parse_asn1_tag_der_tag)
  note short = element_short [OF this, of ber_ok]
  have "length (der_element tag c) = length (der_tag tag) + 1 + length c"
    "length (der_len (length c)) = 1"
    using True by (simp_all add: der_element_def der_len_def)
  then show ?thesis
    using short lb True by (simp add: cbs_get_append Let_def)
next
  case False
  define k where "k = der_len_len (length c)"
  have k: "1 \<le> k" "k \<le> 4" "length c < 256 ^ k"
    unfolding k_def by (rule der_len_len_range, rule der_len_len_range, rule der_len_len_fits [OF assms(2)])
  have lb: "unat (word_of_nat (128 + k) :: u8) = 128 + k"
    using k by (intro unat_word_of_nat_small) simp
  have enc: "der_element tag c @ r = der_tag tag @ word_of_nat (128 + k) # be_bytes k (length c) @ c @ r"
    using False by (simp add: der_element_def der_len_def k_def)
  have "parse_asn1_tag (der_element tag c @ r)
      = (Some tag, word_of_nat (128 + k) # be_bytes k (length c) @ c @ r)"
    unfolding enc by (rule parse_asn1_tag_der_tag [OF assms(1)])
  note long = element_long [OF this, of ber_ok]
  have "length (der_element tag c) = length (der_tag tag) + 1 + k + length c"
    "length (der_len (length c)) = 1 + k"
    using False by (simp_all add: der_element_def der_len_def k_def)
  then show ?thesis
    using long lb k False by (simp add: cbs_get_append Let_def k_def [symmetric] not_less del: of_nat_add)
qed

lemma element_inv:
  assumes "cbs_get_any_asn1_element False s = (Some e, r)"
  shows "\<exists>tag c. tag_ok tag \<and> length c < 4294967296 \<and> s = der_element tag c @ r"
proof -
  obtain tag lb h where tag: "parse_asn1_tag s = (Some tag, lb # h)"
    using assms by (auto simp: cbs_get_any_asn1_element_def CBS_get_u8_Some
        split: prod.splits option.splits)
  then have s: "s = der_tag tag @ lb # h" and ok: "tag_ok tag"
    by (auto dest: parse_asn1_tag_inv)
  show ?thesis
  proof (cases "unat lb < 128")
    case True
    then have get: "cbs_get (length (der_tag tag) + 1 + unat lb) s = (Some (el_out e), r)"
      using assms element_short [OF tag True, of False]
      by (auto simp: Let_def split: prod.splits option.splits)
    obtain c where "h = c @ r" "length c = unat lb"
      using cbs_get_rest [OF get, of "der_tag tag @ [lb]" h] by (auto simp: s)
    then show ?thesis
      using True ok unat_u8_less [of lb]
      by (intro exI [of _ tag] exI [of _ c]) (auto simp: s der_element_def der_len_def)
  next
    case False
    define k where "k = unat lb - 128"
    have lb: "unat lb = 128 + k" "unat (lb AND 0x7f) = k"
      using False u8_minus_128 [of lb] by (simp_all add: k_def u8_low_bits le_mod_geq)
    then obtain xs h' where k: "1 \<le> k" "k \<le> 4" and xs: "length xs = k" "h = xs @ h'"
      using assms False
      by (auto simp: cbs_get_any_asn1_element_def tag CBS_get_u8_Cons u8_high_bit Let_def cbs_get_u_Some
          split: prod.splits option.splits if_splits)
    define n where "n = be_val xs"
    have min: "128 \<le> n" "der_len_len n = k" and
      get: "cbs_get (length (der_tag tag) + 1 + k + n) s = (Some (el_out e), r)"
      using assms element_long [of s tag lb xs h' False] tag lb(1) k xs
      by (auto simp: Let_def n_def split: prod.splits option.splits if_splits)
    have "n < 256 ^ k" using be_val_less [of xs] xs(1) by (simp add: n_def)
    also have "\<dots> \<le> 256 ^ 4" using k(2) by (intro power_increasing) simp_all
    finally have n: "n < 4294967296" by simp
    obtain c where c: "h' = c @ r" "length c = n"
      using cbs_get_rest [OF get, of "der_tag tag @ lb # xs" h'] xs(1) by (auto simp: s xs)
    have "word_of_nat (128 + k) = lb" "be_bytes k n = xs"
      using lb(1) xs(1) by (simp_all add: n_def flip: lb(1) del: of_nat_add) (simp add: be_bytes_be_val)
    with c n min ok show ?thesis
      by (intro exI [of _ tag] exI [of _ c]) (simp add: s xs der_element_def der_len_def del: of_nat_add)
  qed
qed


lemma CBS_get_any_asn1_element_iff:
  "CBS_get_any_asn1_element s = (Some (out, tag, header_len), r) \<longleftrightarrow>
     (\<exists>c. tag_ok tag \<and> length c < 4294967296 \<and> out = der_element tag c
        \<and> header_len = length (der_tag tag) + length (der_len (length c)) \<and> s = out @ r)"
  (is "?get \<longleftrightarrow> ?der")
proof
  assume ?get
  then obtain e where e: "cbs_get_any_asn1_element False s = (Some e, r)"
    "out = el_out e" "tag = el_tag e" "header_len = el_header_len e"
    by (auto simp: CBS_get_any_asn1_element_def split: option.splits prod.splits)
  obtain t c where "tag_ok t" "length c < 4294967296" "s = der_element t c @ r"
    using element_inv [OF e(1)] by blast
  with element_der [of t c False r] e show ?der by auto
next
  assume ?der
  then show ?get
    by (auto simp: CBS_get_any_asn1_element_def element_der)
qed

lemma CBS_get_any_asn1_element_fail:
  "CBS_get_any_asn1_element s = (None, r) \<Longrightarrow> r = s"
  by (auto simp: CBS_get_any_asn1_element_def cbs_get_any_asn1_element_def Let_def CBS_get_bytes_eq cbs_get_None
      split: option.splits prod.splits if_splits)

lemma CBS_skip_header:
  "CBS_skip (length (der_tag tag) + length (der_len (length c))) (der_element tag c) = (True, c)"
  by (simp add: CBS_skip_eq der_element_def)

lemma element_contents_iff:
  "(\<exists>out header_len. CBS_get_any_asn1_element s = (Some (out, tag, header_len), r)
      \<and> CBS_skip header_len out = (True, c)) \<longleftrightarrow>
     tag_ok tag \<and> length c < 4294967296 \<and> s = der_element tag c @ r" (is "?get \<longleftrightarrow> ?der")
proof
  assume ?get
  then show ?der by (auto simp: CBS_get_any_asn1_element_iff CBS_skip_header)
next
  assume ?der
  then have "CBS_get_any_asn1_element s =
      (Some (der_element tag c, tag, length (der_tag tag) + length (der_len (length c))), r)"
    by (auto simp: CBS_get_any_asn1_element_iff)
  then show ?get using CBS_skip_header by blast
qed

lemma CBS_get_any_asn1_iff:
  "CBS_get_any_asn1 s = (Some (c, tag), r) \<longleftrightarrow>
     tag_ok tag \<and> length c < 4294967296 \<and> s = der_element tag c @ r"
proof -
  have "CBS_get_any_asn1 s = (Some (c, tag), r) \<longleftrightarrow>
      (\<exists>out header_len. CBS_get_any_asn1_element s = (Some (out, tag, header_len), r)
         \<and> CBS_skip header_len out = (True, c))"
    by (auto simp: CBS_get_any_asn1_def split: option.splits prod.splits bool.splits)
  then show ?thesis
    by (simp only: element_contents_iff)
qed

lemma CBS_get_asn1_iff:
  "CBS_get_asn1 tag s = (Some c, r) \<longleftrightarrow>
     tag_ok tag \<and> length c < 4294967296 \<and> s = der_element tag c @ r"
proof -
  have "CBS_get_asn1 tag s = (Some c, r) \<longleftrightarrow>
      (\<exists>out header_len. CBS_get_any_asn1_element s = (Some (out, tag, header_len), r)
         \<and> CBS_skip header_len out = (True, c))"
    by (auto simp: CBS_get_asn1_def cbs_get_asn1_def split: option.splits prod.splits bool.splits if_splits)
  then show ?thesis
    by (simp only: element_contents_iff)
qed

lemma CBS_get_asn1_element_iff:
  "CBS_get_asn1_element tag s = (Some out, r) \<longleftrightarrow>
     (\<exists>c. tag_ok tag \<and> length c < 4294967296 \<and> out = der_element tag c \<and> s = out @ r)"
proof -
  have "CBS_get_asn1_element tag s = (Some out, r) \<longleftrightarrow>
      (\<exists>header_len. CBS_get_any_asn1_element s = (Some (out, tag, header_len), r))"
    by (auto simp: CBS_get_asn1_element_def cbs_get_asn1_def split: option.splits prod.splits if_splits)
  then show ?thesis
    by (auto simp: CBS_get_any_asn1_element_iff)
qed

interpretation base128_codec: canonical_codec "\<lambda>w :: u64. base128 (unat w)" parse_base128_integer "\<lambda>_. True"
  by unfold_locales (simp_all add: parse_base128_iff)

interpretation tag_codec: canonical_codec der_tag parse_asn1_tag tag_ok
  by unfold_locales (simp_all add: parse_asn1_tag_der_tag parse_asn1_tag_inv)

interpretation der_codec: canonical_codec "\<lambda>(c, tag). der_element tag c" CBS_get_any_asn1
  "\<lambda>(c, tag). tag_ok tag \<and> length c < 4294967296"
proof (unfold_locales, goal_cases)
  case (1 v r) then show ?case by (cases v) (simp add: CBS_get_any_asn1_iff)
next
  case (2 s v r) then show ?case by (cases v) (simp add: CBS_get_any_asn1_iff)
qed

section \<open>Integers\<close>

text \<open>The contents octets of an INTEGER: two's complement, most significant first, shortest form.\<close>

definition tc_val :: "bytes \<Rightarrow> int" where
  "tc_val bs = int (be_val bs) - (if bs \<noteq> [] \<and> unat (hd bs) \<ge> 128 then 256 ^ length bs else 0)"

fun tc_minimal :: "bytes \<Rightarrow> bool" where
  "tc_minimal [] = False"
| "tc_minimal [b] = True"
| "tc_minimal (b # c # bs) \<longleftrightarrow> \<not> (b = 0 \<and> unat c < 128) \<and> \<not> (b = 255 \<and> unat c \<ge> 128)"

lemma tc_val_Cons:
  "tc_val (b # bs) = (if unat b < 128 then int (unat b) else int (unat b) - 256) * 256 ^ length bs + int (be_val bs)"
  by (simp add: tc_val_def be_val_Cons algebra_simps)

lemma tc_val_bounds:
  assumes "bs \<noteq> []"
  shows "- 128 * 256 ^ (length bs - 1) \<le> tc_val bs" "tc_val bs < 128 * 256 ^ (length bs - 1)"
    "tc_val bs < 0 \<longleftrightarrow> 128 \<le> unat (hd bs)"
proof -
  obtain b cs where bs: "bs = b # cs" using assms by (cases bs) auto
  define P :: int where "P = 256 ^ length cs"
  define h where "h = (if unat b < 128 then int (unat b) else int (unat b) - 256)"
  have cs: "0 \<le> int (be_val cs)" "int (be_val cs) < P"
    using be_val_less [of cs] by (simp_all add: P_def flip: of_nat_less_iff)
  have h: "- 128 \<le> h" "h \<le> 127" "h < 0 \<longleftrightarrow> 128 \<le> unat b"
    using unat_u8_less [of b] unfolding h_def by (split if_split, linarith)+
  have P: "0 < P" by (simp add: P_def)
  have val: "tc_val bs = h * P + int (be_val cs)" by (simp only: bs tc_val_Cons h_def P_def)
  have "- 128 * P \<le> h * P" "h * P \<le> 127 * P" using h P by (intro mult_right_mono; simp)+
  with cs val have "- 128 * P \<le> tc_val bs" "tc_val bs < 128 * P" by linarith+
  then show "- 128 * 256 ^ (length bs - 1) \<le> tc_val bs" "tc_val bs < 128 * 256 ^ (length bs - 1)"
    by (simp_all add: bs P_def)
  have "h < 0 \<Longrightarrow> h * P \<le> - 1 * P" "0 \<le> h \<Longrightarrow> 0 * P \<le> h * P"
    using P by (intro mult_right_mono; simp)+
  with cs val have "tc_val bs < 0 \<longleftrightarrow> h < 0" by linarith
  with h(3) show "tc_val bs < 0 \<longleftrightarrow> 128 \<le> unat (hd bs)" by (simp add: bs)
qed

text \<open>A minimal string of two or more bytes does not fit in one byte less.\<close>

lemma tc_minimal_large:
  assumes "tc_minimal (b # c # bs)"
  shows "tc_val (b # c # bs) < - 128 * 256 ^ length bs \<or> 128 * 256 ^ length bs \<le> tc_val (b # c # bs)"
proof -
  define P :: int where "P = 256 ^ length bs"
  have "be_val bs < 256 ^ length bs" by (rule be_val_less)
  then have r: "0 \<le> int (be_val bs)" "int (be_val bs) < P"
    by (simp_all add: P_def flip: of_nat_less_iff)
  have cb: "int (unat c) < 256" "0 \<le> int (unat c)" "int (unat b) < 256" using unat_u8_less [of b] unat_u8_less [of c] by linarith+
  define h where "h = (if unat b < 128 then int (unat b) else int (unat b) - 256) * 256 + int (unat c)"
  have val: "tc_val (b # c # bs) = h * P + int (be_val bs)"
    by (simp add: tc_val_Cons be_val_Cons P_def h_def algebra_simps)
  have "unat b = 0 \<Longrightarrow> b = 0" "unat b = 255 \<Longrightarrow> b = 255" by (simp_all add: word_eq_unat)
  then have "\<not> (unat b = 0 \<and> unat c < 128) \<and> \<not> (unat b = 255 \<and> 128 \<le> unat c)"
    using assms by auto
  then consider "unat b = 0" "128 \<le> unat c" | "0 < unat b" "unat b < 128"
    | "128 \<le> unat b" "unat b \<le> 254" | "unat b = 255" "unat c < 128"
    using cb by linarith
  then have "h \<le> - 129 \<or> 128 \<le> h"
  proof cases
    case 1
    then have "h = int (unat c)" by (simp add: h_def)
    then show ?thesis using 1 by linarith
  next
    case 2
    then have "h = int (unat b) * 256 + int (unat c)" by (simp add: h_def)
    then show ?thesis using 2 cb by linarith
  next
    case 3
    then have "h = int (unat b) * 256 - 65536 + int (unat c)" by (simp add: h_def)
    moreover have "int (unat b) \<le> 254" using 3 by linarith
    ultimately have "h \<le> - 129" using cb by linarith
    then show ?thesis ..
  next
    case 4
    then have "h = int (unat c) - 256" by (simp add: h_def)
    then show ?thesis using 4 by linarith
  qed
  moreover have "h \<le> - 129 \<Longrightarrow> h * P \<le> - 129 * P" "128 \<le> h \<Longrightarrow> 128 * P \<le> h * P"
    by (intro mult_right_mono; simp add: P_def)+
  ultimately show ?thesis using r unfolding val P_def [symmetric] by linarith
qed

lemma tc_minimal_length:
  assumes "tc_minimal xs" and "tc_minimal ys" and "tc_val xs = tc_val ys"
  shows "length xs \<le> length ys"
proof (rule ccontr)
  assume "\<not> length xs \<le> length ys"
  moreover have ys: "ys \<noteq> []" using assms(2) by auto
  ultimately obtain b c zs where xs: "xs = b # c # zs" and len: "length ys - 1 \<le> length zs"
    by (cases xs rule: tc_minimal.cases) (auto simp: not_le less_Suc_eq_le neq_Nil_conv)
  then have "(256::int) ^ (length ys - 1) \<le> 256 ^ length zs" by (intro power_increasing) simp_all
  moreover have "tc_val ys < - 128 * 256 ^ length zs \<or> 128 * 256 ^ length zs \<le> tc_val ys"
    using tc_minimal_large [of b c zs] assms xs by simp
  ultimately show False using tc_val_bounds(1,2) [OF ys] by linarith
qed

lemma tc_minimal_unique:
  assumes "tc_minimal xs" and "tc_minimal ys" and "tc_val xs = tc_val ys"
  shows "xs = ys"
proof -
  have len: "length xs = length ys"
    using tc_minimal_length assms by (metis le_antisym)
  have ne: "xs \<noteq> []" "ys \<noteq> []" using assms by auto
  have "128 \<le> unat (hd xs) \<longleftrightarrow> 128 \<le> unat (hd ys)"
    using tc_val_bounds(3) [OF ne(1)] tc_val_bounds(3) [OF ne(2)] assms(3) by simp
  then have "be_val xs = be_val ys" using assms(3) ne len by (auto simp: tc_val_def split: if_splits)
  with len show ?thesis by (intro be_val_inj)
qed

lemma is_valid_asn1_integer_iff:
  "fst (CBS_is_valid_asn1_integer bs) \<longleftrightarrow> tc_minimal bs"
  "tc_minimal bs \<Longrightarrow> snd (CBS_is_valid_asn1_integer bs) = Some (tc_val bs < 0)"
  using tc_val_bounds(3) [of bs]
  by (cases bs rule: tc_minimal.cases;
      auto simp: CBS_is_valid_asn1_integer_def cbs_simps u8_high_bit Let_def not_less)+

lemma is_unsigned_asn1_integer_iff:
  "CBS_is_unsigned_asn1_integer bs \<longleftrightarrow> tc_minimal bs \<and> 0 \<le> tc_val bs"
  using is_valid_asn1_integer_iff [of bs]
  by (cases "CBS_is_valid_asn1_integer bs") (auto simp: CBS_is_unsigned_asn1_integer_def split: option.splits)

lemma tc_val_nonneg: "0 \<le> tc_val bs \<Longrightarrow> tc_val bs = int (be_val bs)"
  using be_val_less [of bs] by (auto simp: tc_val_def simp flip: of_nat_less_iff split: if_splits)

lemma asn1_uint64_loop_eq:
  "asn1_uint64_loop v bs =
     (if unat v * 256 ^ length bs + be_val bs < 2 ^ 64
      then Some (word_of_nat (unat v * 256 ^ length bs + be_val bs)) else None)"
proof (induction bs arbitrary: v)
  case Nil
  then show ?case using unat_u64_less [of v] by simp
next
  case (Cons b bs)
  have over: "drop_bit 56 v = 0 \<longleftrightarrow> unat v < 2 ^ 56"
    by (simp add: word_eq_unat unat_drop_bit div_eq_0_iff)
  show ?case
  proof (cases "unat v < 2 ^ 56")
    case True
    have "unat v < 72057594037927936" using True by simp
    then have "unat v * 256 + unat b < 18446744073709551616"
      using unat_u8_less [of b] by linarith
    then have "unat (push_bit 8 v OR ucast b) = unat v * 2 ^ 8 + unat (ucast b :: u64)"
      by (intro unat_push_or) (simp_all add: unat_ucast_up)
    then have "unat (push_bit 8 v OR ucast b) = unat v * 256 + unat b"
      by (simp add: unat_ucast_up)
    with Cons [of "push_bit 8 v OR ucast b"] True over show ?thesis
      by (simp add: be_val_Cons algebra_simps del: of_nat_add of_nat_mult)
  next
    case False
    then have "2 ^ 56 * 256 \<le> unat v * 256" by simp
    also have "\<dots> \<le> unat v * 256 * 256 ^ length bs" by simp
    finally have "2 ^ 64 \<le> unat v * 256 ^ length (b # bs) + be_val (b # bs)" by (simp add: algebra_simps)
    with False over show ?thesis by simp
  qed
qed

lemma CBS_get_asn1_uint64_with_tag_iff:
  "CBS_get_asn1_uint64_with_tag tag s = (Some v, r) \<longleftrightarrow>
     tag_ok tag \<and> (\<exists>c. tc_minimal c \<and> tc_val c = uint v \<and> length c < 4294967296 \<and> s = der_element tag c @ r)"
proof -
  have "(\<not> CBS_is_unsigned_asn1_integer c \<longrightarrow> False) \<and> asn1_uint64_loop 0 c = Some v
      \<longleftrightarrow> tc_minimal c \<and> tc_val c = uint v" for c
  proof -
    have "asn1_uint64_loop 0 c = Some v \<longleftrightarrow> be_val c = unat v"
      using unat_u64_less [of v]
      by (auto simp: asn1_uint64_loop_eq unat_simps)
    moreover have "tc_val c = uint v \<longleftrightarrow> 0 \<le> tc_val c \<and> be_val c = unat v"
      using tc_val_nonneg [of c] uint_nat [of v] uint_ge_0 [of v] by (metis of_nat_eq_iff)
    ultimately show ?thesis by (auto simp: is_unsigned_asn1_integer_iff)
  qed
  note read = this
  have "CBS_get_asn1_uint64_with_tag tag s = (Some v, r) \<longleftrightarrow>
      (\<exists>c. CBS_get_asn1 tag s = (Some c, r) \<and> CBS_is_unsigned_asn1_integer c \<and> asn1_uint64_loop 0 c = Some v)"
    by (auto simp: CBS_get_asn1_uint64_with_tag_def split: option.splits prod.splits if_splits)
  then show ?thesis using read by (auto simp: CBS_get_asn1_iff)
qed

lemma bswap4_bit:
  assumes "n < 32"
  shows "bit (CRYPTO_bswap4 x) n \<longleftrightarrow> bit x (8 * (3 - n div 8) + n mod 8)"
proof -
  have "n \<in> {0,1,2,3,4,5,6,7,8,9,10,11,12,13,14,15,16,17,18,19,20,21,22,23,24,25,26,27,28,29,30,31}"
    using assms by (simp add: numeral_eq_Suc less_Suc_eq)
  moreover have "bit x k = False" if "32 \<le> k" for k
    using that bit_imp_le_length [of x k] by auto
  ultimately show ?thesis
    unfolding insert_iff empty_iff
    by (elim disjE FalseE; hypsubst; simp add: CRYPTO_bswap4_def Let_def bit_simps flip: numeral_2_eq_2)
qed

lemma bswap8_bit:
  assumes "n < 64"
  shows "bit (CRYPTO_bswap8 x) n \<longleftrightarrow> bit x (8 * (7 - n div 8) + n mod 8)"
proof (cases "n < 32")
  case True
  then have "8 * (3 - n div 8) + n mod 8 < 32" "8 * (7 - n div 8) + n mod 8 = 32 + (8 * (3 - n div 8) + n mod 8)"
    by linarith+
  with True show ?thesis
    by (simp add: CRYPTO_bswap8_def bit_simps bswap4_bit add.assoc)
next
  case False
  define k where "k = n - 32"
  have n: "n = k + 32" "k < 32" using False assms by (simp_all add: k_def)
  have d: "n div 8 = k div 8 + 4" "n mod 8 = k mod 8"
    using div_mult_self1 [of 8 k 4] mod_mult_self1 [of k 4 8] by (simp_all add: n(1))
  then have m: "8 * (7 - n div 8) + n mod 8 = 8 * (3 - k div 8) + k mod 8" by simp
  have "8 * (3 - k div 8) + k mod 8 < 32" using n(2) by linarith
  moreover have "\<not> bit (CRYPTO_bswap4 (ucast (drop_bit 32 x))) (k + 32)"
    using bit_imp_le_length [of "CRYPTO_bswap4 (ucast (drop_bit 32 x))" "k + 32"] by auto
  ultimately show ?thesis
    using bswap4_bit [of k "ucast x"] n unfolding m
    by (simp add: CRYPTO_bswap8_def bit_simps)
qed

lemma be_val_bit:
  assumes "n < 8 * length bs"
  shows "bit (be_val bs) n \<longleftrightarrow> bit (bs ! (length bs - 1 - n div 8)) (n mod 8)"
  using assms
proof (induction bs arbitrary: n rule: rev_induct)
  case (snoc b bs)
  show ?case
  proof (cases "n < 8")
    case True
    have "bit (be_val (bs @ [b])) n \<longleftrightarrow> bit (take_bit 8 (be_val (bs @ [b]))) n"
      using True by (simp add: bit_simps)
    also have "take_bit 8 (be_val (bs @ [b])) = unat b"
      by (simp add: be_val_snoc take_bit_eq_mod)
    finally show ?thesis using True by (simp add: nth_append bit_simps)
  next
    case False
    have "bit (be_val (bs @ [b])) n \<longleftrightarrow> bit (drop_bit 8 (be_val (bs @ [b]))) (n - 8)"
      using False by (simp add: bit_simps)
    also have "drop_bit 8 (be_val (bs @ [b])) = be_val bs"
      by (simp add: be_val_snoc drop_bit_eq_div)
    also have "bit (be_val bs) (n - 8) \<longleftrightarrow> bit (bs ! (length bs - 1 - (n - 8) div 8)) ((n - 8) mod 8)"
      using snoc False by simp
    finally show ?thesis
      using False snoc.prems by (cases bs rule: rev_cases) (auto simp: nth_append le_div_geq le_mod_geq)
  qed
qed simp

lemma load_u64_be:
  assumes "length bs = 8"
  shows "CRYPTO_load_u64_be bs = word_of_nat (be_val bs)"
proof (rule bit_word_eqI)
  fix n assume "n < LENGTH(64)"
  then have n: "n < 64" by simp
  define m where "m = 8 * (7 - n div 8) + n mod 8"
  have m: "m < 64" "m div 8 = 7 - n div 8" "m mod 8 = n mod 8" "n div 8 < 8"
    using n unfolding m_def by simp_all
  have "bit (CRYPTO_load_u64_be bs) n \<longleftrightarrow> bit (word_of_nat (be_val (rev bs)) :: u64) m"
    using n assms by (simp add: CRYPTO_load_u64_be_def bswap8_bit m_def)
  also have "\<dots> \<longleftrightarrow> bit (bs ! (7 - n div 8)) (n mod 8)"
    using m assms by (simp add: bit_simps be_val_bit rev_nth)
  also have "\<dots> \<longleftrightarrow> bit (word_of_nat (be_val bs) :: u64) n"
    using n assms by (simp add: bit_simps be_val_bit)
  finally show "bit (CRYPTO_load_u64_be bs) n \<longleftrightarrow> bit (word_of_nat (be_val bs) :: u64) n" .
qed

text \<open>Sign extension to eight bytes keeps the two's complement value.\<close>

lemma be_val_replicate_255:
  "be_val (replicate k 255 @ bs) + 256 ^ length bs = be_val bs + 256 ^ (k + length bs)"
proof (induction k)
  case (Suc k)
  have "unat (255 :: u8) = 255" by simp
  with Suc show ?case by (simp add: be_val_Cons)
qed simp

lemma be_val_replicate_0: "be_val (replicate k 0 @ bs) = be_val bs"
  by (induction k) (simp_all add: be_val_Cons)

lemma sint_of_tc:
  assumes "length bs = 8"
  shows "sint (word_of_nat (be_val bs) :: u64) = tc_val bs"
proof -
  have ne: "bs \<noteq> []" using assms by auto
  have "word_of_nat (be_val bs) = (word_of_int (tc_val bs) :: u64)"
    using assms by (simp add: tc_val_def)
  moreover have "- (2 ^ 63) \<le> tc_val bs" "tc_val bs < 2 ^ 63"
    using tc_val_bounds(1,2) [OF ne] assms by simp_all
  ultimately show ?thesis
    by (simp add: sint_sbintrunc' signed_take_bit_int_eq_self)
qed

lemma sign_extend_value:
  assumes "bs \<noteq> []" and "length bs \<le> 8"
  shows "sint (CRYPTO_load_u64_be (replicate (8 - length bs) (if tc_val bs < 0 then 0xff else 0) @ bs)) = tc_val bs"
proof -
  define xs where "xs = replicate (8 - length bs) (if tc_val bs < 0 then 0xff else 0) @ bs"
  have len: "length xs = 8" using assms(2) by (simp add: xs_def)
  have neg: "tc_val bs < 0 \<longleftrightarrow> 128 \<le> unat (hd bs)" by (rule tc_val_bounds(3) [OF assms(1)])
  have hd: "128 \<le> unat (hd xs) \<longleftrightarrow> tc_val bs < 0"
    using assms neg by (cases "8 - length bs") (auto simp: xs_def)
  have p: "256 ^ (8 - length bs + length bs) = (256 :: nat) ^ 8" using assms(2) by simp
  have "tc_val xs = tc_val bs"
  proof (cases "tc_val bs < 0")
    case True
    then have "be_val xs + 256 ^ length bs = be_val bs + 256 ^ 8"
      using be_val_replicate_255 [of "8 - length bs" bs] p by (simp add: xs_def)
    then have "int (be_val xs) + 256 ^ length bs = int (be_val bs) + 256 ^ 8"
      by (metis of_nat_add of_nat_numeral of_nat_power)
    with True hd neg assms(1) len show ?thesis by (auto simp: tc_val_def [of xs] tc_val_def [of bs])
  next
    case False
    then have "be_val xs = be_val bs" by (simp add: xs_def be_val_replicate_0)
    with False hd neg assms(1) len show ?thesis by (auto simp: tc_val_def [of xs] tc_val_def [of bs])
  qed
  then show ?thesis using len by (simp add: load_u64_be sint_of_tc flip: xs_def)
qed

lemma tc_minimal_length_le:
  assumes "tc_minimal c" and "- 128 * 256 ^ k \<le> tc_val c" and "tc_val c < 128 * 256 ^ k"
  shows "length c \<le> k + 1"
proof (rule ccontr)
  assume "\<not> length c \<le> k + 1"
  then obtain a b cs where c: "c = a # b # cs" and "k \<le> length cs"
    by (cases c rule: tc_minimal.cases) auto
  then have "(256::int) ^ k \<le> 256 ^ length cs" by (intro power_increasing) simp_all
  then show False using tc_minimal_large [of a b cs] assms unfolding c by linarith
qed

lemma tc_val_length_8:
  "tc_minimal c \<Longrightarrow> - (2 ^ 63) \<le> tc_val c \<Longrightarrow> tc_val c < 2 ^ 63 \<Longrightarrow> length c \<le> 8"
  using tc_minimal_length_le [of c 7] by simp

lemma CBS_get_asn1_int64_with_tag_iff:
  "CBS_get_asn1_int64_with_tag tag s = (Some v, r) \<longleftrightarrow>
     tag_ok tag \<and> (\<exists>c. tc_minimal c \<and> tc_val c = sint v \<and> s = der_element tag c @ r)"
proof -
  have "CBS_get_asn1_int64_with_tag tag s = (Some v, r) \<longleftrightarrow>
      (\<exists>c. CBS_get_asn1 tag s = (Some c, r) \<and> tc_minimal c \<and> length c \<le> 8
         \<and> CRYPTO_load_u64_be (replicate (8 - length c) (if tc_val c < 0 then 0xff else 0) @ c) = v)"
  proof -
    obtain oc s' where g: "CBS_get_asn1 tag s = (oc, s')" by fastforce
    show ?thesis
    proof (cases oc)
      case (Some c)
      obtain ok neg where "CBS_is_valid_asn1_integer c = (ok, neg)" by fastforce
      with is_valid_asn1_integer_iff [of c] g Some show ?thesis
        by (cases "tc_minimal c") (auto simp: CBS_get_asn1_int64_with_tag_def Let_def split: if_splits)
    qed (simp add: CBS_get_asn1_int64_with_tag_def g)
  qed
  also have "\<dots> \<longleftrightarrow> (\<exists>c. CBS_get_asn1 tag s = (Some c, r) \<and> tc_minimal c \<and> tc_val c = sint v)"
  proof -
    have "tc_minimal c \<and> length c \<le> 8
         \<and> CRYPTO_load_u64_be (replicate (8 - length c) (if tc_val c < 0 then 0xff else 0) @ c) = v
        \<longleftrightarrow> tc_minimal c \<and> tc_val c = sint v" for c
      using sign_extend_value [of c] tc_val_length_8 [of c] sint_range_size [of v]
      by (cases c) (auto simp: word_size signed_word_eqI)
    then show ?thesis by simp
  qed
  also have "\<dots> \<longleftrightarrow> tag_ok tag \<and> (\<exists>c. tc_minimal c \<and> tc_val c = sint v \<and> s = der_element tag c @ r)"
  proof -
    have "tc_minimal c \<Longrightarrow> tc_val c = sint v \<Longrightarrow> length c < 4294967296" for c
      using tc_val_length_8 [of c] sint_range_size [of v] by (simp add: word_size)
    then show ?thesis by (auto simp: CBS_get_asn1_iff)
  qed
  finally show ?thesis .
qed

lemma tag_ok_universal:
  "tag_ok CBS_ASN1_BOOLEAN" "tag_ok CBS_ASN1_INTEGER" "tag_ok CBS_ASN1_OCTETSTRING" "tag_ok CBS_ASN1_SEQUENCE"
  by (simp_all add: tag_ok_def CBS_ASN1_CONSTRUCTED_def CBS_ASN1_BOOLEAN_def CBS_ASN1_INTEGER_def
      CBS_ASN1_OCTETSTRING_def CBS_ASN1_SEQUENCE_def)

lemma element_shape:
  assumes "cbs_get_any_asn1_element ber_ok s = (Some e, r)"
  obtains tag lb h where "parse_asn1_tag s = (Some tag, lb # h)"
    and "unat lb < 128 \<or> (\<exists>xs h'. h = xs @ h' \<and> unat lb = 128 + length xs \<and> 1 \<le> length xs \<and> length xs \<le> 4)
      \<or> (ber_ok \<and> el_ber_found e)"
proof -
  obtain tag lb h where tag: "parse_asn1_tag s = (Some tag, lb # h)"
    using assms by (auto simp: cbs_get_any_asn1_element_def CBS_get_u8_Some split: prod.splits option.splits)
  have "(\<exists>xs h'. h = xs @ h' \<and> unat lb = 128 + length xs \<and> 1 \<le> length xs \<and> length xs \<le> 4)
      \<or> (ber_ok \<and> el_ber_found e)" if "\<not> unat lb < 128"
  proof -
    have lb: "unat lb = 128 + unat (lb AND 0x7f)"
      using that u8_minus_128 [of lb] by (simp add: u8_low_bits le_mod_geq)
    show ?thesis
    proof (cases "ber_ok \<and> tag AND CBS_ASN1_CONSTRUCTED \<noteq> 0 \<and> unat (lb AND 0x7f) = 0")
      case True
      with assms that show ?thesis
        by (auto simp: cbs_get_any_asn1_element_def tag CBS_get_u8_Cons u8_high_bit Let_def
            split: prod.splits option.splits if_splits)
    next
      case False
      define k where "k = unat (lb AND 0x7f)"
      have "1 \<le> k \<and> k \<le> 4 \<and> (\<exists>v h'. cbs_get_u k h = (Some v, h'))"
        using assms that False unfolding k_def
        by (auto simp: cbs_get_any_asn1_element_def tag CBS_get_u8_Cons u8_high_bit Let_def
            split: prod.splits option.splits if_splits)
      then obtain v h' where k: "1 \<le> k" "k \<le> 4" "cbs_get_u k h = (Some v, h')" by blast
      then obtain xs where "length xs = k" "h = xs @ h'" by (auto simp: cbs_get_u_Some)
      with k lb show ?thesis by (intro disjI1 exI [of _ xs] exI [of _ h']) (simp add: k_def)
    qed
  qed
  with tag that show thesis by blast
qed

lemma ber_agrees:
  "cbs_get_any_asn1_element False s = (Some e, r) \<longleftrightarrow>
     cbs_get_any_asn1_element True s = (Some e, r) \<and> \<not> el_ber_found e" (is "?strict \<longleftrightarrow> ?lenient")
proof
  assume ?strict
  then obtain tag c where "tag_ok tag" "length c < 4294967296" "s = der_element tag c @ r"
    using element_inv by blast
  with \<open>?strict\<close> show ?lenient by (auto simp: element_der)
next
  assume len: ?lenient
  then obtain tag lb h where tag: "parse_asn1_tag s = (Some tag, lb # h)"
    and shape: "unat lb < 128 \<or> (\<exists>xs h'. h = xs @ h' \<and> unat lb = 128 + length xs \<and> 1 \<le> length xs \<and> length xs \<le> 4)"
    by (elim conjE element_shape) blast
  from shape show ?strict
  proof
    assume "unat lb < 128"
    with len tag show ?thesis by (simp add: element_short)
  next
    assume "\<exists>xs h'. h = xs @ h' \<and> unat lb = 128 + length xs \<and> 1 \<le> length xs \<and> length xs \<le> 4"
    then obtain xs h' where "h = xs @ h'" "unat lb = 128 + length xs" "1 \<le> length xs" "length xs \<le> 4" by blast
    with len tag show ?thesis
      by (auto simp: element_long Let_def split: prod.splits option.splits if_splits)
  qed
qed

lemma CBS_get_asn1_fail:
  assumes "CBS_get_asn1 tag s = (None, s')"
  shows "s' = s \<or> (\<exists>tag' c. tag' \<noteq> tag \<and> CBS_get_any_asn1 s = (Some (c, tag'), s'))"
proof (cases "CBS_get_any_asn1_element s")
  case (Pair el s'')
  show ?thesis
  proof (cases el)
    case None
    then show ?thesis
      using assms Pair CBS_get_any_asn1_element_fail [of s s'']
      by (simp add: CBS_get_asn1_def cbs_get_asn1_def)
  next
    case (Some e)
    obtain out t hl where e: "e = (out, t, hl)" by (cases e)
    then obtain c where c: "tag_ok t" "length c < 4294967296" "out = der_element t c"
      "hl = length (der_tag t) + length (der_len (length c))" "s = out @ s''"
      using Pair Some CBS_get_any_asn1_element_iff by blast
    then have "CBS_skip hl out = (True, c)" by (simp add: CBS_skip_header)
    with assms Pair Some e have "t \<noteq> tag" "s' = s''"
      by (auto simp: CBS_get_asn1_def cbs_get_asn1_def split: if_splits)
    with c show ?thesis by (auto simp: CBS_get_any_asn1_iff)
  qed
qed

lemma peek_asn1_tag_iff:
  "tag_ok tag \<Longrightarrow> CBS_peek_asn1_tag tag s \<longleftrightarrow> (\<exists>r. s = der_tag tag @ r)"
  by (auto simp: CBS_peek_asn1_tag_def parse_asn1_tag_der_tag split: option.splits)
    (metis parse_asn1_tag_inv prod.collapse)

lemma CBS_get_asn1_bool_iff:
  "CBS_get_asn1_bool s = (Some b, r) \<longleftrightarrow> s = der_element CBS_ASN1_BOOLEAN [if b then 0xff else 0] @ r"
proof -
  have "CBS_get_asn1_bool s = (Some b, r) \<longleftrightarrow>
      (\<exists>x. CBS_get_asn1 CBS_ASN1_BOOLEAN s = (Some [x], r) \<and> (x = 0 \<or> x = 0xff) \<and> b = (x \<noteq> 0))"
    by (auto simp: CBS_get_asn1_bool_def Let_def length_Suc_conv split: prod.splits option.splits if_splits)
  then show ?thesis by (auto simp: CBS_get_asn1_iff tag_ok_universal)
qed

section \<open>Properties\<close>

text \<open>C30: the strict reader accepts exactly the DER encodings, so an element has one accepted encoding,
  and gives back the contents, the tag and what follows.\<close>

theorem get_any_asn1_canonical:
  "CBS_get_any_asn1 s = (Some (c, tag), r) \<longleftrightarrow>
     tag_ok tag \<and> length c < 4294967296 \<and> s = der_element tag c @ r"
  using der_codec.dec_iff [of s "(c, tag)" r] by simp

text \<open>C34: the reader that tolerates BER agrees with the strict one on every element in which it
  finds no BER-only form.\<close>

theorem ber_reader_extends_der:
  "cbs_get_any_asn1_element False s = (Some e, r) \<longleftrightarrow>
     cbs_get_any_asn1_element True s = (Some e, r) \<and> \<not> el_ber_found e"
  by (rule ber_agrees)

text \<open>reading an element with an expected tag either leaves the input as it was or has consumed a
  whole well-formed element with another tag.\<close>

theorem get_asn1_failure:
  assumes "CBS_get_asn1 tag s = (None, s')"
  shows "s' = s \<or> (\<exists>tag' c. tag' \<noteq> tag \<and> CBS_get_any_asn1 s = (Some (c, tag'), s'))"
  by (rule CBS_get_asn1_fail [OF assms])

theorem get_asn1_failure_witness:
  "CBS_get_asn1 2 [4, 1, 7, 9] = (None, [9])
   \<and> ([9 :: u8] = [4, 1, 7, 9] \<or> (\<exists>tag' c. tag' \<noteq> 2 \<and> CBS_get_any_asn1 [4, 1, 7, 9] = (Some (c, tag'), [9])))"
proof -
  have "CBS_get_any_asn1_element [4, 1, 7, 9] = (Some ([4, 1, 7], 4, 2), [9])"
    by (simp add: CBS_get_any_asn1_element_iff)
      (intro conjI exI [of _ "[7]"], simp_all add: tag_ok_def CBS_ASN1_CONSTRUCTED_def der_element_def
        der_tag_def der_len_def Let_def)
  then have "CBS_get_asn1 2 [4, 1, 7, 9] = (None, [9])"
    by (simp add: CBS_get_asn1_def cbs_get_asn1_def)
  from get_asn1_failure [OF this] this show ?thesis by blast
qed

text \<open>C31: signed and unsigned 64-bit integers are read exactly from the shortest two's complement
  contents of that value.\<close>

theorem get_asn1_integers:
  "(CBS_get_asn1_uint64 s = (Some v, r) \<longleftrightarrow>
      (\<exists>c. tc_minimal c \<and> tc_val c = uint v \<and> s = der_element CBS_ASN1_INTEGER c @ r))
   \<and> (CBS_get_asn1_int64 s = (Some v, r) \<longleftrightarrow>
      (\<exists>c. tc_minimal c \<and> tc_val c = sint v \<and> s = der_element CBS_ASN1_INTEGER c @ r))"
proof -
  have "length c \<le> 9" if "tc_minimal c" "tc_val c = uint v" for c
    using tc_minimal_length_le [OF that(1), of 8] that(2) unsigned_less [of v, where ?'a = int]
      uint_ge_0 [of v] by (simp del: uint_ge_0; linarith)
  then have "\<And>c. tc_minimal c \<Longrightarrow> tc_val c = uint v \<Longrightarrow> length c < 4294967296" by fastforce
  then show ?thesis
    by (auto simp: CBS_get_asn1_int64_def CBS_get_asn1_int64_with_tag_iff
        CBS_get_asn1_uint64_def CBS_get_asn1_uint64_with_tag_iff tag_ok_universal)
qed

end
