(* ===== verification/DerText.thy ===== *)
theory DerText
  imports Der
begin

text \<open>
  The textual values \<^verbatim>\<open>crypto/bytestring/cbs.cc\<close> reads: decimal numbers, object identifiers and the
  UTCTime and GeneralizedTime strings of RFC 5280. Each reader is shown to accept exactly a reference
  rendering defined here.
\<close>

unbundle bit_operations_syntax

section \<open>Decimal numbers\<close>

text \<open>The reference rendering of a number in decimal, without a leading zero.\<close>

fun decimal :: "nat \<Rightarrow> bytes" where
  "decimal n = (if n < 10 then [word_of_nat (48 + n)] else decimal (n div 10) @ [word_of_nat (48 + n mod 10)])"

declare decimal.simps [simp del]

definition digits_val :: "nat \<Rightarrow> bytes \<Rightarrow> nat" where
  "digits_val v ds = foldl (\<lambda>a d. a * 10 + (unat d - 48)) v ds"

lemma digits_val_Nil [simp]: "digits_val v [] = v"
  by (simp add: digits_val_def)

lemma digits_val_Cons [simp]: "digits_val v (d # ds) = digits_val (v * 10 + (unat d - 48)) ds"
  by (simp add: digits_val_def)

lemma digits_val_snoc: "digits_val v (ds @ [d]) = digits_val v ds * 10 + (unat d - 48)"
  by (simp add: digits_val_def)

lemma digits_val_ge: "v \<le> digits_val v ds"
proof (induction ds arbitrary: v)
  case (Cons d ds)
  have "v \<le> v * 10 + (unat d - 48)" by simp
  also have "\<dots> \<le> digits_val v (d # ds)" using Cons.IH by simp
  finally show ?case .
qed simp

lemma isdigit_iff: "OPENSSL_isdigit c \<longleftrightarrow> 48 \<le> unat c \<and> unat c \<le> 57"
  by (simp add: OPENSSL_isdigit_def word_le_nat_alt)

lemma digit_value: "OPENSSL_isdigit c \<Longrightarrow> unat (ucast (c - 0x30) :: u64) = unat c - 48"
  by (simp add: isdigit_iff unat_ucast_up unat_sub word_le_nat_alt)

lemma decimal_step:
  fixes v :: u64
  assumes "OPENSSL_isdigit c"
  shows "(v > (- 1) div 10 \<or> v * 10 > (- 1) - ucast (c - 0x30)) \<longleftrightarrow> \<not> unat v * 10 + (unat c - 48) < 2 ^ 64"
    and "unat v * 10 + (unat c - 48) < 2 ^ 64 \<Longrightarrow>
      v * 10 + ucast (c - 0x30) = word_of_nat (unat v * 10 + (unat c - 48))"
proof -
  define d where "d = (ucast (c - 0x30) :: u64)"
  have d: "unat d = unat c - 48" "unat d \<le> 9"
    using assms by (auto simp: d_def digit_value isdigit_iff)
  have max: "unat ((- 1) div 10 :: u64) = 1844674407370955161"
    by (simp add: unat_div)
  have "d \<le> - 1" by simp
  moreover have "unat (- 1 :: u64) = 18446744073709551615" by (simp add: unsigned_minus_1_eq_mask mask_eq_exp_minus_1)
  ultimately have md: "unat (- 1 - d) = 18446744073709551615 - unat d"
    by (simp add: unat_sub)
  have "(v > (- 1) div 10 \<or> v * 10 > (- 1) - d) \<longleftrightarrow> \<not> unat v * 10 + unat d < 2 ^ 64"
  proof (cases "unat v \<le> 1844674407370955161")
    case True
    then have "unat (v * 10) = unat v * 10"
      by (simp add: unat_word_ariths)
    with True d(2) show ?thesis by (auto simp: word_less_nat_alt max md)
  next
    case False
    then show ?thesis by (simp add: word_less_nat_alt max)
  qed
  then show "(v > (- 1) div 10 \<or> v * 10 > (- 1) - ucast (c - 0x30)) \<longleftrightarrow> \<not> unat v * 10 + (unat c - 48) < 2 ^ 64"
    by (simp add: d_def d(1) [unfolded d_def])
  have "v * 10 + d = word_of_nat (unat v * 10 + unat d)" by simp
  then show "v * 10 + ucast (c - 0x30) = word_of_nat (unat v * 10 + (unat c - 48))"
    by (simp only: d_def d(1) [unfolded d_def])
qed

lemma decimal_loop_accepts:
  assumes "\<forall>d \<in> set ds. OPENSSL_isdigit d" and "seen \<or> ds \<noteq> []" and "seen \<and> v = 0 \<longrightarrow> ds = []"
    and "v = 0 \<and> \<not> seen \<and> 1 < length ds \<longrightarrow> unat (hd ds) \<noteq> 48"
    and "digits_val (unat v) ds < 2 ^ 64" and "r \<noteq> [] \<longrightarrow> \<not> OPENSSL_isdigit (hd r)"
  shows "u64_decimal_loop v seen (ds @ r) = (Some (word_of_nat (digits_val (unat v) ds)), r)"
  using assms
proof (induction ds arbitrary: v seen)
  case Nil
  then show ?case by (cases r) auto
next
  case (Cons d ds)
  have dig: "OPENSSL_isdigit d" using Cons.prems(1) by simp
  define n where "n = unat v * 10 + (unat d - 48)"
  have "n \<le> digits_val (unat v) (d # ds)" using digits_val_ge by (simp add: n_def)
  with Cons.prems(5) have n: "n < 2 ^ 64" by simp
  define v' where "v' = (word_of_nat n :: u64)"
  have v': "unat v' = n" unfolding v'_def using n by (intro unat_word_of_nat_small) simp
  have "v' = 0 \<longrightarrow> ds = []"
  proof
    assume "v' = 0"
    then have "n = 0" using v' by simp
    then have "v = 0" "unat d = 48" using dig by (auto simp: n_def isdigit_iff word_eq_unat)
    then show "ds = []" using Cons.prems(3,4) by (cases ds) auto
  qed
  then have "u64_decimal_loop v' True (ds @ r) = (Some (word_of_nat (digits_val (unat v') ds)), r)"
    using Cons.prems v' by (intro Cons.IH) (auto simp: n_def)
  then have rest: "u64_decimal_loop v' True (ds @ r) = (Some (word_of_nat (digits_val (unat v) (d # ds))), r)"
    by (simp add: v' n_def)
  have "\<not> (v > (- 1) div 10 \<or> v * 10 > (- 1) - ucast (d - 0x30))" "v * 10 + ucast (d - 0x30) = v'"
    using decimal_step [OF dig, of v] n unfolding v'_def n_def by blast+
  with rest Cons.prems(3) dig show ?case
    by (simp only: append_Cons u64_decimal_loop.simps list.distinct) auto
qed

lemma decimal_loop_inv:
  "u64_decimal_loop v seen s = (Some w, r) \<Longrightarrow>
     \<exists>ds. s = ds @ r \<and> (\<forall>d \<in> set ds. OPENSSL_isdigit d) \<and> (seen \<or> ds \<noteq> []) \<and> (seen \<and> v = 0 \<longrightarrow> ds = [])
       \<and> (v = 0 \<and> \<not> seen \<and> 1 < length ds \<longrightarrow> unat (hd ds) \<noteq> 48)
       \<and> unat w = digits_val (unat v) ds \<and> (r \<noteq> [] \<longrightarrow> \<not> OPENSSL_isdigit (hd r))"
proof (induction v seen s rule: u64_decimal_loop.induct)
  case (1 v seen)
  then show ?case by (auto split: if_splits)
next
  case (2 v seen c s)
  show ?case
  proof (cases "OPENSSL_isdigit c")
    case True
    define n where "n = unat v * 10 + (unat c - 48)"
    have zero: "\<not> (v = 0 \<and> seen)" and n: "n < 2 ^ 64"
      and rest: "u64_decimal_loop (v * 10 + ucast (c - 0x30)) True s = (Some w, r)"
      and no: "\<not> ((v = 0 \<and> seen) \<or> v > (- 1) div 10 \<or> v * 10 > (- 1) - ucast (c - 0x30))"
      using 2(2) True decimal_step(1) [OF True, of v] unfolding n_def by (auto split: if_splits)
    have v': "unat (v * 10 + ucast (c - 0x30)) = n"
      using n decimal_step(2) [OF True, of v] unfolding n_def
      by (simp only: unat_word_of_nat_small) (rule unat_word_of_nat_small, simp)
    from 2(1) [OF _ no rest] True obtain ds where
      ds: "s = ds @ r" "\<forall>d \<in> set ds. OPENSSL_isdigit d"
      "v * 10 + ucast (c - 0x30) = 0 \<longrightarrow> ds = []"
      "unat w = digits_val n ds" "r \<noteq> [] \<longrightarrow> \<not> OPENSSL_isdigit (hd r)"
      unfolding v' by auto
    have "v = 0 \<and> unat c = 48 \<longrightarrow> ds = []" using ds(3) v' by (auto simp: n_def word_eq_unat)
    with ds True zero show ?thesis
      by (intro exI [of _ "c # ds"]) (auto simp: n_def)
  next
    case False
    with 2(2) show ?thesis by (auto split: if_splits)
  qed
qed

lemma decimal_props:
  "(\<forall>d \<in> set (decimal n). OPENSSL_isdigit d) \<and> decimal n \<noteq> [] \<and> digits_val 0 (decimal n) = n
    \<and> (0 < n \<longrightarrow> unat (hd (decimal n)) \<noteq> 48) \<and> (n = 0 \<longrightarrow> length (decimal n) = 1)"
proof (induction n rule: decimal.induct)
  case (1 n)
  have d: "unat (word_of_nat (48 + n mod 10) :: u8) = 48 + n mod 10"
    by (rule unat_word_of_nat_small) simp
  show ?case
  proof (cases "n < 10")
    case True
    then show ?thesis using d by (simp add: decimal.simps isdigit_iff del: of_nat_add)
  next
    case False
    then have "decimal n = decimal (n div 10) @ [word_of_nat (48 + n mod 10)]"
      by (simp add: decimal.simps [of n])
    moreover have "n div 10 * 10 + n mod 10 = n" "0 < n div 10" using False by simp_all
    ultimately show ?thesis
      using 1 [OF False] d False by (auto simp: digits_val_snoc isdigit_iff simp del: of_nat_add)
  qed
qed

lemma decimal_unique:
  assumes "\<forall>d \<in> set ds. OPENSSL_isdigit d" and "ds \<noteq> []" and "1 < length ds \<longrightarrow> unat (hd ds) \<noteq> 48"
  shows "ds = decimal (digits_val 0 ds)"
  using assms
proof (induction ds rule: rev_induct)
  case (snoc d ds)
  define k where "k = unat d - 48"
  have d: "48 \<le> unat d" "unat d \<le> 57" using snoc.prems(1) by (auto simp: isdigit_iff)
  then have k: "k < 10" "word_of_nat (48 + k) = d" by (simp_all add: k_def del: of_nat_add)
  show ?case
  proof (cases "ds = []")
    case True
    then show ?thesis using k by (simp add: decimal.simps k_def [symmetric] del: of_nat_add)
  next
    case False
    have IH: "decimal (digits_val 0 ds) = ds"
      using snoc False by (intro snoc.IH [symmetric]) (auto split: if_splits)
    have "0 < digits_val 0 ds"
    proof -
      obtain e es where "ds = e # es" using False by (cases ds) auto
      moreover have "48 < unat e" using calculation snoc.prems by (force simp: isdigit_iff)
      ultimately show ?thesis using digits_val_ge [of "unat e - 48" es] by simp
    qed
    then have "decimal (digits_val 0 ds * 10 + k) = decimal (digits_val 0 ds) @ [word_of_nat (48 + k)]"
      using k(1) by (subst decimal.simps) (simp del: of_nat_add)
    then show ?thesis
      using k(2) IH by (simp add: digits_val_snoc k_def [symmetric])
  qed
qed simp

text \<open>The reader takes the longest run of digits and accepts exactly the shortest renderings.\<close>

lemma CBS_get_u64_decimal_iff:
  "CBS_get_u64_decimal s = (Some v, r) \<longleftrightarrow>
     s = decimal (unat v) @ r \<and> (r = [] \<or> \<not> OPENSSL_isdigit (hd r))" (is "?get \<longleftrightarrow> ?dec")
proof
  assume ?get
  then obtain ds where ds: "s = ds @ r" "\<forall>d \<in> set ds. OPENSSL_isdigit d" "ds \<noteq> []"
    "1 < length ds \<longrightarrow> unat (hd ds) \<noteq> 48" "unat v = digits_val 0 ds" "r \<noteq> [] \<longrightarrow> \<not> OPENSSL_isdigit (hd r)"
    using decimal_loop_inv [of 0 False s v r] by (auto simp: CBS_get_u64_decimal_def)
  with decimal_unique [OF ds(2-4)] show ?dec by auto
next
  assume dec: ?dec
  define n where "n = unat v"
  have "1 < length (decimal n) \<longrightarrow> unat (hd (decimal n)) \<noteq> 48" "n < 2 ^ 64"
    using decimal_props [of n] unat_u64_less [of v] by (auto simp: n_def)
  then have "u64_decimal_loop 0 False (decimal n @ r) = (Some (word_of_nat n), r)"
    using decimal_loop_accepts [of "decimal n" False 0 r] decimal_props [of n] dec by auto
  with dec show ?get by (simp add: CBS_get_u64_decimal_def n_def)
qed

section \<open>Object identifiers\<close>

lemma oid_loop_component:
  assumes "\<forall>h \<in> set hs. 128 \<le> unat h" and "unat l < 128"
  shows "asn1_oid_loop prev (hs @ l # r) \<longleftrightarrow>
    \<not> (unat prev < 128 \<and> hd (hs @ [l]) = 0x80) \<and> asn1_oid_loop l r"
  using assms
proof (induction hs arbitrary: prev)
  case Nil
  then have "l \<noteq> 0x80" by (auto simp: word_eq_unat)
  then show ?case by (simp add: u8_high_bit)
next
  case (Cons h hs)
  then have "\<not> unat h < 128" by (simp add: not_less)
  with Cons show ?case by (simp add: u8_high_bit)
qed

lemma oid_loop_low: "asn1_oid_loop prev s \<Longrightarrow> s \<noteq> [] \<or> 128 \<le> unat prev \<Longrightarrow> \<exists>b \<in> set s. unat b < 128"
proof (induction prev s rule: asn1_oid_loop.induct)
  case (2 prev v copy)
  then show ?case by (cases "unat v < 128") (auto simp: u8_high_bit split: if_splits)
qed (simp add: u8_high_bit)

text \<open>The loop accepts exactly the concatenations of base-128 numbers.\<close>

lemma oid_loop_iff:
  "unat prev < 128 \<Longrightarrow> asn1_oid_loop prev s \<longleftrightarrow> (\<exists>ns. s = concat (map base128 ns))"
proof (induction s arbitrary: prev rule: length_induct)
  case (1 s)
  show ?case
  proof
    assume acc: "asn1_oid_loop prev s"
    show "\<exists>ns. s = concat (map base128 ns)"
    proof (cases "s = []")
      case True
      then show ?thesis by (intro exI [of _ "[]"]) simp
    next
      case False
      then obtain hs l r where s: "s = hs @ l # r" and l: "unat l < 128" and hs: "\<forall>h \<in> set hs. 128 \<le> unat h"
        using oid_loop_low [OF acc] split_list_first_prop [of s "\<lambda>b. unat b < 128"]
        unfolding not_less by blast
      with acc 1(2) have hd: "hd (hs @ [l]) \<noteq> 0x80" and r: "asn1_oid_loop l r"
        by (simp_all add: oid_loop_component)
      with 1(1) s l obtain ns where ns: "r = concat (map base128 ns)" by fastforce
      have "hs @ [l] = base128 (base128_val 0 hs * 128 + unat l)"
        using base128_high_unique [OF hs] hd l by (auto simp: base128_def hd_append split: if_splits)
      then show ?thesis
        using s ns by (intro exI [of _ "(base128_val 0 hs * 128 + unat l) # ns"]) simp
    qed
  next
    assume "\<exists>ns. s = concat (map base128 ns)"
    then obtain ns where ns: "s = concat (map base128 ns)" by blast
    show "asn1_oid_loop prev s"
    proof (cases ns)
      case Nil
      then show ?thesis using ns 1(2) by (simp add: u8_high_bit)
    next
      case (Cons n ms)
      define l where "l = (word_of_nat (n mod 128) :: u8)"
      have l: "unat l = n mod 128"
        unfolding l_def by (rule unat_word_of_nat_small) (simp add: mod_less_divisor less_trans)
      have s: "s = base128_high (n div 128) @ l # concat (map base128 ms)"
        by (simp add: ns Cons base128_def l_def)
      have "asn1_oid_loop l (concat (map base128 ms))"
        using 1(1) s l by (auto simp: mod_less_divisor)
      moreover have "hd (base128_high (n div 128) @ [l]) \<noteq> 0x80"
        using base128_high_props [of "n div 128"] l by (auto simp: hd_append word_eq_unat)
      ultimately show ?thesis
        unfolding s using base128_high_props [of "n div 128"] l by (subst oid_loop_component) auto
    qed
  qed
qed

lemma CBS_is_valid_asn1_oid_iff:
  "CBS_is_valid_asn1_oid s \<longleftrightarrow> (\<exists>ns. ns \<noteq> [] \<and> s = concat (map base128 ns))"
proof -
  have "s = concat (map base128 ns) \<Longrightarrow> s = [] \<longleftrightarrow> ns = []" for ns
    by (cases ns) (simp_all add: base128_def)
  then show ?thesis using oid_loop_iff [of 0 s] by (auto simp: CBS_is_valid_asn1_oid_def)
qed

section \<open>Times\<close>

text \<open>The reference rendering of the fields of a time.\<close>

definition two_digits :: "int \<Rightarrow> bytes" where
  "two_digits v = [word_of_int (48 + v div 10), word_of_int (48 + v mod 10)]"

definition time_fields :: "tm \<Rightarrow> bytes" where
  "time_fields t = two_digits (tm_mon t + 1) @ two_digits (tm_mday t) @ two_digits (tm_hour t)
     @ two_digits (tm_min t) @ two_digits (tm_sec t)"

definition year_digits :: "bool \<Rightarrow> int \<Rightarrow> bytes" where
  "year_digits is_gentime y =
     (if is_gentime then two_digits (y div 100) @ two_digits (y mod 100) else two_digits (y mod 100))"

definition year_ok :: "bool \<Rightarrow> int \<Rightarrow> bool" where
  "year_ok is_gentime y \<longleftrightarrow> (if is_gentime then 0 \<le> y \<and> y \<le> 9999 else 1950 \<le> y \<and> y \<le> 2049)"

definition tm_ok :: "tm \<Rightarrow> bool" where
  "tm_ok t \<longleftrightarrow> is_valid_date (tm_year t + 1900) (tm_mon t + 1) (tm_mday t)
     \<and> is_valid_time (tm_hour t) (tm_min t) (tm_sec t)"

lemma uint_small_byte: "0 \<le> n \<Longrightarrow> n < 256 \<Longrightarrow> uint (word_of_int n :: u8) = n"
  by (simp add: uint_word_of_int)

lemma two_digits_read: "0 \<le> v \<Longrightarrow> v < 100 \<Longrightarrow> cbs_get_two_digits (two_digits v @ r) = (Some v, r)"
proof -
  assume "0 \<le> v" "v < 100"
  then have "0 \<le> v div 10" "v div 10 \<le> 9" "0 \<le> v mod 10" "v mod 10 \<le> 9" by auto
  then have "uint (word_of_int (48 + v div 10) :: u8) = 48 + v div 10"
    "uint (word_of_int (48 + v mod 10) :: u8) = 48 + v mod 10"
    by (intro uint_small_byte; simp)+
  moreover from this have "OPENSSL_isdigit (word_of_int (48 + v div 10))" "OPENSSL_isdigit (word_of_int (48 + v mod 10))"
    using \<open>0 \<le> v div 10\<close> \<open>v div 10 \<le> 9\<close> \<open>0 \<le> v mod 10\<close> \<open>v mod 10 \<le> 9\<close>
    by (simp_all add: OPENSSL_isdigit_def word_le_def del: of_int_add)
  ultimately show ?thesis
    by (simp add: cbs_get_two_digits_def two_digits_def cbs_simps del: of_int_add)
qed

lemma two_digits_iff:
  "cbs_get_two_digits s = (Some v, r) \<longleftrightarrow> 0 \<le> v \<and> v < 100 \<and> s = two_digits v @ r"
proof
  assume "cbs_get_two_digits s = (Some v, r)"
  then obtain a b where s: "s = a # b # r" and d: "OPENSSL_isdigit a" "OPENSSL_isdigit b"
    and v: "v = (uint a - 48) * 10 + (uint b - 48)"
    by (auto simp: cbs_get_two_digits_def CBS_get_u8_Some split: option.splits prod.splits if_splits)
  have ab: "48 \<le> uint a" "uint a \<le> 57" "48 \<le> uint b" "uint b \<le> 57"
    using d by (simp_all add: OPENSSL_isdigit_def word_le_def)
  then have "v div 10 = uint a - 48" "v mod 10 = uint b - 48"
    unfolding v by (simp, simp only: mod_mult_self3 mod_pos_pos_trivial)
  then have "two_digits v = [a, b]" by (simp add: two_digits_def)
  then show "0 \<le> v \<and> v < 100 \<and> s = two_digits v @ r" using ab by (simp add: s v)
qed (simp add: two_digits_read)

lemma parse_time_field_iff:
  "parse_time_field ok s = (Some v, r) \<longleftrightarrow> ok v \<and> 0 \<le> v \<and> v < 100 \<and> s = two_digits v @ r"
proof -
  have "parse_time_field ok s = (Some v, r) \<longleftrightarrow> ok v \<and> cbs_get_two_digits s = (Some v, r)"
    by (auto simp: parse_time_field_def split: option.splits prod.splits if_splits)
  then show ?thesis by (simp add: two_digits_iff)
qed

lemma mod_unique: "(a :: int) = b * q + r \<Longrightarrow> 0 \<le> r \<Longrightarrow> r < b \<Longrightarrow> a mod b = r"
  by simp

lemma parse_time_year_iff:
  "parse_time_year is_gentime s = (Some y, r) \<longleftrightarrow> year_ok is_gentime y \<and> s = year_digits is_gentime y @ r"
proof (cases is_gentime)
  case True
  have "parse_time_year True s = (Some y, r) \<longleftrightarrow>
      (\<exists>a b s'. cbs_get_two_digits s = (Some a, s') \<and> cbs_get_two_digits s' = (Some b, r) \<and> y = a * 100 + b)"
    by (auto simp: parse_time_year_def split: option.splits prod.splits)
  also have "\<dots> \<longleftrightarrow> year_ok True y \<and> s = year_digits True y @ r"
  proof
    assume "\<exists>a b s'. cbs_get_two_digits s = (Some a, s') \<and> cbs_get_two_digits s' = (Some b, r) \<and> y = a * 100 + b"
    then show "year_ok True y \<and> s = year_digits True y @ r"
      by (auto simp: two_digits_iff year_ok_def year_digits_def)
  next
    assume "year_ok True y \<and> s = year_digits True y @ r"
    then show "\<exists>a b s'. cbs_get_two_digits s = (Some a, s') \<and> cbs_get_two_digits s' = (Some b, r) \<and> y = a * 100 + b"
      by (intro exI [of _ "y div 100"] exI [of _ "y mod 100"] exI [of _ "two_digits (y mod 100) @ r"])
        (auto simp: two_digits_iff year_ok_def year_digits_def)
  qed
  finally show ?thesis using True by simp
next
  case False
  have y2: "(y :: int) mod 100 = (if y < 2000 then y - 1900 else y - 2000)" if "1950 \<le> y" "y \<le> 2049"
  proof -
    have "y mod 100 = y - 1900" if "y < 2000"
      using that \<open>1950 \<le> y\<close> by (intro mod_unique [where q = 19]) simp_all
    moreover have "y mod 100 = y - 2000" if "\<not> y < 2000"
      using that \<open>y \<le> 2049\<close> by (intro mod_unique [where q = 20]) simp_all
    ultimately show ?thesis by simp
  qed
  have y2': "y mod 100 = a" if "y = (if a < 50 then 2000 + a else 1900 + a)" "0 \<le> a" "a < 100" for a
    using that y2 by (auto split: if_splits)
  have "parse_time_year False s = (Some y, r) \<longleftrightarrow>
      (\<exists>a. cbs_get_two_digits s = (Some a, r) \<and> y = (if 1900 + a < 1950 then 2000 + a else 1900 + a) \<and> y < 2050)"
  proof -
    obtain oa s' where g: "cbs_get_two_digits s = (oa, s')" by fastforce
    define yr where "yr a = (if 1900 + a < 1950 then 2000 + a else 1900 + a :: int)" for a
    have "parse_time_year False s =
        (case oa of None \<Rightarrow> (None, s') | Some a \<Rightarrow> if yr a \<ge> 2050 then (None, s') else (Some (yr a), s'))"
      by (simp add: parse_time_year_def g yr_def Let_def add.commute split: option.splits)
    then show ?thesis unfolding yr_def [symmetric] by (cases oa) (auto simp: g)
  qed
  also have "\<dots> \<longleftrightarrow> year_ok False y \<and> s = year_digits False y @ r"
  proof
    assume "\<exists>a. cbs_get_two_digits s = (Some a, r) \<and> y = (if 1900 + a < 1950 then 2000 + a else 1900 + a) \<and> y < 2050"
    then obtain a where a: "0 \<le> a" "a < 100" "s = two_digits a @ r" "y = (if a < 50 then 2000 + a else 1900 + a)"
      by (auto simp: two_digits_iff)
    then have "year_ok False y" "y mod 100 = a" using y2' by (simp_all add: year_ok_def)
    then show "year_ok False y \<and> s = year_digits False y @ r" by (simp add: year_digits_def a(3))
  next
    assume "year_ok False y \<and> s = year_digits False y @ r"
    then show "\<exists>a. cbs_get_two_digits s = (Some a, r) \<and> y = (if 1900 + a < 1950 then 2000 + a else 1900 + a) \<and> y < 2050"
      by (intro exI [of _ "y mod 100"]) (simp add: two_digits_iff year_ok_def year_digits_def y2)
  qed
  finally show ?thesis using False by simp
qed


lemma parse_time_zone_Z: "parse_time_zone False s = (Some off, r) \<longleftrightarrow> off = 0 \<and> s = 0x5a # r"
  by (cases s) (auto simp: parse_time_zone_def cbs_simps split: if_splits)

lemma parse_time_zone_offset:
  assumes "0 \<le> h" and "h \<le> 23" and "0 \<le> m" and "m \<le> 59"
  shows "parse_time_zone True (0x2b # two_digits h @ two_digits m) = (Some (h * 3600 + m * 60), [])"
    and "parse_time_zone True (0x2d # two_digits h @ two_digits m) = (Some (- (h * 3600 + m * 60)), [])"
proof -
  have "parse_time_field (\<lambda>h. \<not> h > 23) (two_digits h @ two_digits m) = (Some h, two_digits m)"
    "parse_time_field (\<lambda>m. \<not> m > 59) (two_digits m) = (Some m, [])"
    using assms by (simp_all add: parse_time_field_iff)
  then show "parse_time_zone True (0x2b # two_digits h @ two_digits m) = (Some (h * 3600 + m * 60), [])"
    and "parse_time_zone True (0x2d # two_digits h @ two_digits m) = (Some (- (h * 3600 + m * 60)), [])"
    by (simp_all add: parse_time_zone_def cbs_simps)
qed

lemma decode_bind:
  "(case p of (None, _) \<Rightarrow> None | (Some x, s) \<Rightarrow> g x s) = Some y \<longleftrightarrow>
     (\<exists>x s. p = (Some x, s) \<and> g x s = Some y)"
  by (auto split: prod.splits option.splits)

lemma is_valid_day_date:
  "1 \<le> month \<Longrightarrow> 0 \<le> year \<Longrightarrow> year \<le> 9999 \<Longrightarrow> is_valid_day year month day = is_valid_date year month day"
  by (auto simp: is_valid_day_def is_valid_date_def is_leap_def)

lemma is_valid_date_ranges:
  "is_valid_date y m d \<Longrightarrow> 0 \<le> y \<and> y \<le> 9999 \<and> 1 \<le> m \<and> m \<le> 12 \<and> 1 \<le> d \<and> d \<le> 31"
  by (auto simp: is_valid_date_def split: if_splits)

text \<open>What follows the fields of a time, once they are read.\<close>

definition finish_time :: "int \<Rightarrow> tm \<Rightarrow> tm option option" where
  "finish_time offset_seconds t =
     (if offset_seconds \<noteq> 0 then map_option Some (OPENSSL_gmtime_adj t 0 offset_seconds) else Some (Some t))"

lemma finish_time_tail:
  "(if length z \<noteq> 0 then None else if \<not> True then Some None
    else let out_tm = t in
      if off \<noteq> 0 then (case OPENSSL_gmtime_adj out_tm 0 off of None \<Rightarrow> None | Some out_tm \<Rightarrow> Some (Some out_tm))
      else Some (Some out_tm)) = Some res \<longleftrightarrow> z = [] \<and> finish_time off t = Some res"
  by (auto simp: finish_time_def Let_def split: option.splits)

lemma parse_time_iff:
  "CBS_parse_rfc5280_time_internal is_gentime allow_timezone_offset True s = Some res \<longleftrightarrow>
     (\<exists>t off z. tm_ok t \<and> year_ok is_gentime (tm_year t + 1900)
        \<and> s = year_digits is_gentime (tm_year t + 1900) @ time_fields t @ z
        \<and> parse_time_zone allow_timezone_offset z = (Some off, []) \<and> finish_time off t = Some res)"
  (is "?parse \<longleftrightarrow> ?text")
proof
  assume ?parse
  then obtain y s1 m s2 d s3 h s4 mi s5 se z off where
    p: "parse_time_year is_gentime s = (Some y, s1)"
    "parse_time_field (\<lambda>m. \<not> (m < 1 \<or> m > 12)) s1 = (Some m, s2)"
    "parse_time_field (is_valid_day y m) s2 = (Some d, s3)"
    "parse_time_field (\<lambda>h. \<not> h > 23) s3 = (Some h, s4)"
    "parse_time_field (\<lambda>m. \<not> m > 59) s4 = (Some mi, s5)"
    "parse_time_field (\<lambda>m. \<not> m > 59) s5 = (Some se, z)"
    and f: "parse_time_zone allow_timezone_offset z = (Some off, [])"
    and r: "finish_time off \<lparr>tm_year = y - 1900, tm_mon = m - 1, tm_mday = d,
       tm_hour = h, tm_min = mi, tm_sec = se\<rparr> = Some res"
    unfolding CBS_parse_rfc5280_time_internal_def decode_bind finish_time_tail
    by (elim exE conjE) (rule that; simp only:)
  note p = p [unfolded parse_time_year_iff parse_time_field_iff]
  have "0 \<le> y" "y \<le> 9999" using p(1) by (auto simp: year_ok_def split: if_splits)
  then have "tm_ok \<lparr>tm_year = y - 1900, tm_mon = m - 1, tm_mday = d, tm_hour = h, tm_min = mi, tm_sec = se\<rparr>"
    using p by (simp add: tm_ok_def is_valid_day_date is_valid_time_def)
  with f r p show ?text
    by (intro exI [of _ "\<lparr>tm_year = y - 1900, tm_mon = m - 1, tm_mday = d,
       tm_hour = h, tm_min = mi, tm_sec = se\<rparr>"] exI [of _ off] exI [of _ z]) (simp add: time_fields_def)
next
  assume ?text
  then obtain t off z where t: "tm_ok t" "year_ok is_gentime (tm_year t + 1900)"
    "s = year_digits is_gentime (tm_year t + 1900) @ time_fields t @ z"
    "parse_time_zone allow_timezone_offset z = (Some off, [])" "finish_time off t = Some res" by blast
  have v: "is_valid_date (tm_year t + 1900) (tm_mon t + 1) (tm_mday t)"
    "0 \<le> tm_hour t" "tm_hour t \<le> 23" "0 \<le> tm_min t" "tm_min t \<le> 59" "0 \<le> tm_sec t" "tm_sec t \<le> 59"
    using t(1) by (auto simp: tm_ok_def is_valid_time_def split: if_splits)
  note rng = is_valid_date_ranges [OF v(1)]
  have eta: "\<lparr>tm_year = tm_year t, tm_mon = tm_mon t, tm_mday = tm_mday t,
      tm_hour = tm_hour t, tm_min = tm_min t, tm_sec = tm_sec t\<rparr> = t" by (cases t) simp
  define s5 s4 s3 s2 where "s5 = two_digits (tm_sec t) @ z" and "s4 = two_digits (tm_min t) @ s5"
    and "s3 = two_digits (tm_hour t) @ s4" and "s2 = two_digits (tm_mday t) @ s3"
  note parts = s5_def s4_def s3_def s2_def
  have "parse_time_year is_gentime s = (Some (tm_year t + 1900), two_digits (tm_mon t + 1) @ s2)"
    using t by (simp add: parse_time_year_iff time_fields_def parts)
  moreover have "parse_time_field (\<lambda>m. \<not> (m < 1 \<or> m > 12)) (two_digits (tm_mon t + 1) @ s2) = (Some (tm_mon t + 1), s2)"
    using rng by (simp add: parse_time_field_iff)
  moreover have "parse_time_field (is_valid_day (tm_year t + 1900) (tm_mon t + 1)) s2 = (Some (tm_mday t), s3)"
    using rng v by (simp add: parse_time_field_iff is_valid_day_date s2_def)
  moreover have "parse_time_field (\<lambda>h. \<not> h > 23) s3 = (Some (tm_hour t), s4)"
    "parse_time_field (\<lambda>m. \<not> m > 59) s4 = (Some (tm_min t), s5)"
    "parse_time_field (\<lambda>m. \<not> m > 59) s5 = (Some (tm_sec t), z)"
    using v by (simp_all add: parse_time_field_iff s3_def s4_def s5_def)
  ultimately show ?parse
    using t(4,5) unfolding CBS_parse_rfc5280_time_internal_def decode_bind finish_time_tail
    by (simp only: prod.inject option.inject ex_simps simp_thms) (simp add: eta)
qed


text \<open>Without offsets the parsers accept exactly the renderings of valid times, and give them back.\<close>

lemma parse_time_Z_iff:
  "CBS_parse_rfc5280_time_internal is_gentime False True s = Some res \<longleftrightarrow>
     (\<exists>t. tm_ok t \<and> year_ok is_gentime (tm_year t + 1900) \<and> res = Some t
        \<and> s = year_digits is_gentime (tm_year t + 1900) @ time_fields t @ [0x5a])"
  by (auto simp: parse_time_iff parse_time_zone_Z finish_time_def)

text \<open>With an offset the parsers move the fields by the offset as written.\<close>

lemma parse_time_offset:
  assumes "tm_ok t" and "year_ok is_gentime (tm_year t + 1900)" and "OPENSSL_tm_to_posix t = Some p"
    and "0 \<le> h" "h \<le> 23" "0 \<le> m" "m \<le> 59" and "OPENSSL_posix_to_tm (p + (h * 3600 + m * 60)) = Some u"
  shows "CBS_parse_rfc5280_time_internal is_gentime True True
    (year_digits is_gentime (tm_year t + 1900) @ time_fields t @ 0x2b # two_digits h @ two_digits m) = Some (Some u)"
proof -
  define off where "off = h * 3600 + m * 60"
  have off: "0 \<le> off" "off < 86400" using assms(4-7) by (simp_all add: off_def)
  have p: "OPENSSL_posix_to_tm p = Some t" by (rule posix_to_tm_of_posix [OF assms(3)])
  note range = tm_to_posix_range [OF assms(3)]
  have "finish_time off t = Some (Some u)"
  proof (cases "off = 0")
    case True
    then show ?thesis using p assms(8) by (simp add: finish_time_def off_def [symmetric])
  next
    case False
    have "OPENSSL_gmtime_adj t 0 off = Some u"
      using range off assms(3,8) by (simp add: OPENSSL_gmtime_adj_def INT64_MAX_def INT64_MIN_def off_def [symmetric])
    then show ?thesis using False by (simp add: finish_time_def)
  qed
  then show ?thesis
    unfolding parse_time_iff using assms(1,2) parse_time_zone_offset(1) [OF assms(4-7)]
    by (intro exI [of _ t] exI [of _ off] exI [of _ "0x2b # two_digits h @ two_digits m"]) (simp add: off_def)
qed

section \<open>Properties\<close>

text \<open>C36: the decimal reader takes the longest run of digits and accepts exactly the numbers below
  2 to the 64 written without a leading zero.\<close>

theorem get_u64_decimal_correct:
  "CBS_get_u64_decimal s = (Some v, r) \<longleftrightarrow>
     s = decimal (unat v) @ r \<and> takeWhile OPENSSL_isdigit r = []"
  by (cases r) (simp_all add: CBS_get_u64_decimal_iff)

text \<open>C35: an object identifier is valid exactly when it is a non-empty sequence of numbers in
  base 128, each in its shortest form.\<close>

theorem valid_oid_components:
  "CBS_is_valid_asn1_oid s \<longleftrightarrow> (\<exists>ns. ns \<noteq> [] \<and> s = concat (map base128 ns))"
  by (rule CBS_is_valid_asn1_oid_iff)

text \<open>C33: without timezone offsets the GeneralizedTime and UTCTime parsers accept exactly the
  fixed-width renderings of valid times (for UTCTime, of the years 1950 to 2049), and return the
  fields that were rendered.\<close>

theorem parse_times_canonical:
  "(CBS_parse_generalized_time True False s = Some (Some t) \<longleftrightarrow>
      tm_ok t \<and> s = year_digits True (tm_year t + 1900) @ time_fields t @ [0x5a])
   \<and> (CBS_parse_utc_time True False s = Some (Some t) \<longleftrightarrow>
      tm_ok t \<and> 50 \<le> tm_year t \<and> tm_year t \<le> 149
        \<and> s = year_digits False (tm_year t + 1900) @ time_fields t @ [0x5a])"
proof -
  have "tm_ok t \<Longrightarrow> year_ok True (tm_year t + 1900)"
    using is_valid_date_ranges [of "tm_year t + 1900" "tm_mon t + 1" "tm_mday t"]
    by (simp add: tm_ok_def year_ok_def)
  then show ?thesis
    by (auto simp: CBS_parse_generalized_time_def CBS_parse_utc_time_def parse_time_Z_iff year_ok_def)
qed

text \<open>a UTCTime with a zone offset east of Greenwich is moved forward by the offset: the time
  returned for \<^verbatim>\<open>+hhmm\<close> is the written time plus the offset.\<close>

theorem utc_time_offset_added:
  assumes "tm_ok t" and "50 \<le> tm_year t" and "tm_year t \<le> 149" and "OPENSSL_tm_to_posix t = Some p"
    and "0 \<le> h" and "h \<le> 23" and "0 \<le> m" and "m \<le> 59"
    and "OPENSSL_posix_to_tm (p + (h * 3600 + m * 60)) = Some u"
  shows "CBS_parse_utc_time True True
    (year_digits False (tm_year t + 1900) @ time_fields t @ 0x2b # two_digits h @ two_digits m) = Some (Some u)"
  unfolding CBS_parse_utc_time_def
  by (rule parse_time_offset) (use assms in \<open>simp_all add: year_ok_def\<close>)

theorem utc_time_offset_added_witness:
  "CBS_parse_utc_time True True
     [0x37, 0x30, 0x30, 0x31, 0x30, 0x31, 0x30, 0x30, 0x30, 0x30, 0x30, 0x30, 0x2b, 0x30, 0x31, 0x30, 0x30]
   = Some (Some \<lparr>tm_year = 70, tm_mon = 0, tm_mday = 1, tm_hour = 1, tm_min = 0, tm_sec = 0\<rparr>)"
proof -
  let ?t = "\<lparr>tm_year = 70, tm_mon = 0, tm_mday = 1, tm_hour = 0, tm_min = 0, tm_sec = 0\<rparr>"
  let ?u = "\<lparr>tm_year = 70, tm_mon = 0, tm_mday = 1, tm_hour = 1, tm_min = 0, tm_sec = 0\<rparr>"
  have p: "OPENSSL_tm_to_posix ?t = Some 0" and u: "OPENSSL_tm_to_posix ?u = Some 3600"
    by (simp_all add: OPENSSL_tm_to_posix_def posix_time_from_utc_eq is_valid_date_days is_valid_time_def
        days_in_month_def days_of_date_def year_start_def month_start_def)
  have "OPENSSL_posix_to_tm (0 + (1 * 3600 + 0 * 60)) = Some ?u"
    using posix_to_tm_of_posix [OF u] by simp
  from utc_time_offset_added [OF _ _ _ p _ _ _ _ this] show ?thesis
    by (simp add: tm_ok_def is_valid_date_def is_valid_time_def year_digits_def time_fields_def two_digits_def)
qed

end
