(* ===== verification/Text.thy ===== *)
theory Text
  imports Prelude
begin

text \<open>
  What the Rust sources of this repository use of \<^verbatim>\<open>str\<close>, \<^verbatim>\<open>Result\<close> and the number parsers. A
  Rust string is the list of the bytes of its UTF-8 encoding, a HOL \<^typ>\<open>string\<close>; the operations below
  act on these bytes, as the Rust ones do. A fallible function returns \<open>Inl\<close> of the format string of
  its error message, or \<open>Inr\<close> of its result.
\<close>

type_synonym str = string
type_synonym error = string
type_synonym 'a result = "error + 'a"

section \<open>Results\<close>

definition and_then :: "'a result \<Rightarrow> ('a \<Rightarrow> 'b result) \<Rightarrow> 'b result" where
  "and_then r f = (case r of Inl e \<Rightarrow> Inl e | Inr x \<Rightarrow> f x)"

definition ensure :: "bool \<Rightarrow> error \<Rightarrow> unit result" where
  "ensure b e = (if b then Inr () else Inl e)"

fun map_result :: "('a \<Rightarrow> 'b result) \<Rightarrow> 'a list \<Rightarrow> 'b list result" where
  "map_result f [] = Inr []"
| "map_result f (x # xs) = and_then (f x) (\<lambda>y. and_then (map_result f xs) (\<lambda>ys. Inr (y # ys)))"

definition ok :: "'a result \<Rightarrow> 'a option" where
  "ok r = (case r of Inl _ \<Rightarrow> None | Inr x \<Rightarrow> Some x)"

definition ok_or :: "error \<Rightarrow> 'a option \<Rightarrow> 'a result" where
  "ok_or e r = (case r of None \<Rightarrow> Inl e | Some x \<Rightarrow> Inr x)"

lemma and_then_simps [simp]: "and_then (Inl e) f = Inl e" "and_then (Inr x) f = f x"
  by (simp_all add: and_then_def)

lemma and_then_Inr: "and_then r f = Inr y \<longleftrightarrow> (\<exists>x. r = Inr x \<and> f x = Inr y)"
  by (cases r) simp_all

lemma and_then_cong [fundef_cong]:
  "r = r' \<Longrightarrow> (\<And>x. r' = Inr x \<Longrightarrow> f x = g x) \<Longrightarrow> and_then r f = and_then r' g"
  by (cases r') simp_all

lemma ensure_simps [simp]: "ensure True e = Inr ()" "ensure False e = Inl e"
  by (simp_all add: ensure_def)

lemma ensure_Inr [simp]: "ensure b e = Inr u \<longleftrightarrow> b"
  by (simp add: ensure_def)

lemma ok_or_simps [simp]: "ok_or e None = Inl e" "ok_or e (Some x) = Inr x"
  by (simp_all add: ok_or_def)

lemma ok_or_Inr [simp]: "ok_or e r = Inr x \<longleftrightarrow> r = Some x"
  by (cases r) simp_all

lemma map_result_cong [fundef_cong]:
  "xs = ys \<Longrightarrow> (\<And>x. x \<in> set ys \<Longrightarrow> f x = g x) \<Longrightarrow> map_result f xs = map_result g ys"
  by (induction ys arbitrary: xs) simp_all

lemma map_result_Inr:
  "map_result f xs = Inr ys \<longleftrightarrow> length ys = length xs \<and> (\<forall>i < length xs. f (xs ! i) = Inr (ys ! i))"
proof (induction xs arbitrary: ys)
  case (Cons x xs)
  show ?case
    by (cases ys) (auto simp: and_then_Inr Cons nth_Cons split: nat.splits)
qed auto

lemma map_result_set:
  assumes "map_result f xs = Inr ys"
  shows "\<forall>x \<in> set xs. \<exists>y \<in> set ys. f x = Inr y" and "\<forall>y \<in> set ys. \<exists>x \<in> set xs. f x = Inr y"
  using assms by (induction xs arbitrary: ys) (fastforce simp: and_then_Inr)+

text \<open>A loop whose body may fail, and a sequence of \<^verbatim>\<open>ensure!\<close> checks.\<close>

fun for_each :: "('a \<Rightarrow> unit result) \<Rightarrow> 'a list \<Rightarrow> unit result" where
  "for_each f [] = Inr ()"
| "for_each f (x # xs) = and_then (f x) (\<lambda>_. for_each f xs)"

definition checks :: "(bool \<times> error) list \<Rightarrow> unit result" where
  "checks cs = for_each (\<lambda>(b, e). ensure b e) cs"

lemma for_each_cong [fundef_cong]:
  "xs = ys \<Longrightarrow> (\<And>x. x \<in> set ys \<Longrightarrow> f x = g x) \<Longrightarrow> for_each f xs = for_each g ys"
  by (induction ys arbitrary: xs) simp_all

lemma for_each_Inr [simp]: "for_each f xs = Inr u \<longleftrightarrow> (\<forall>x \<in> set xs. f x = Inr ())"
  by (induction xs) (auto simp: and_then_Inr)

lemma checks_Inr [simp]: "checks cs = Inr u \<longleftrightarrow> (\<forall>c \<in> set cs. fst c)"
  by (auto simp: checks_def)

section \<open>White space\<close>

text \<open>The encodings of the characters of the Unicode property White_Space, which \<^verbatim>\<open>trim\<close> removes.\<close>

definition white_space :: "str list" where
  "white_space =
     map (\<lambda>c. [c]) [CHR 0x09, CHR 0x0A, CHR 0x0B, CHR 0x0C, CHR 0x0D, CHR 0x20]
     @ [[CHR 0xC2, CHR 0x85], [CHR 0xC2, CHR 0xA0], [CHR 0xE1, CHR 0x9A, CHR 0x80]]
     @ map (\<lambda>c. [CHR 0xE2, CHR 0x80, c])
         [CHR 0x80, CHR 0x81, CHR 0x82, CHR 0x83, CHR 0x84, CHR 0x85, CHR 0x86, CHR 0x87, CHR 0x88,
          CHR 0x89, CHR 0x8A, CHR 0xA8, CHR 0xA9, CHR 0xAF]
     @ [[CHR 0xE2, CHR 0x81, CHR 0x9F], [CHR 0xE3, CHR 0x80, CHR 0x80]]"

lemma white_space_nonempty: "w \<in> set white_space \<Longrightarrow> w \<noteq> []"
  by (auto simp: white_space_def)

function trim_start :: "str \<Rightarrow> str" where
  "trim_start s =
     (case find (\<lambda>w. prefix w s) white_space of None \<Rightarrow> s | Some w \<Rightarrow> trim_start (drop (length w) s))"
  by pat_completeness auto
termination
proof (relation "measure length")
  fix s w assume w: "find (\<lambda>w. prefix w s) white_space = Some w"
  then have "w \<in> set white_space" "prefix w s" by (auto simp: find_Some_iff)
  then have "w \<noteq> []" "length w \<le> length s" by (auto simp: white_space_nonempty prefix_length_le)
  then have "length (drop (length w) s) < length s" by (cases w) auto
  then show "(drop (length w) s, s) \<in> measure length" by simp
qed simp

function trim_end :: "str \<Rightarrow> str" where
  "trim_end s =
     (case find (\<lambda>w. suffix w s) white_space of
        None \<Rightarrow> s | Some w \<Rightarrow> trim_end (take (length s - length w) s))"
  by pat_completeness auto
termination
proof (relation "measure length")
  fix s w assume w: "find (\<lambda>w. suffix w s) white_space = Some w"
  then have "w \<in> set white_space" "suffix w s" by (auto simp: find_Some_iff)
  then have "w \<noteq> []" "length w \<le> length s" by (auto simp: white_space_nonempty suffix_length_le)
  then have "length (take (length s - length w) s) < length s" by (cases w) auto
  then show "(take (length s - length w) s, s) \<in> measure length" by simp
qed simp

declare trim_start.simps [simp del] trim_end.simps [simp del]

definition trim :: "str \<Rightarrow> str" where
  "trim s = trim_end (trim_start s)"

definition trimmed :: "str \<Rightarrow> bool" where
  "trimmed s \<longleftrightarrow> (\<forall>w \<in> set white_space. \<not> prefix w s \<and> \<not> suffix w s)"

lemma find_None_all: "find P xs = None \<longleftrightarrow> (\<forall>x \<in> set xs. \<not> P x)"
  by (auto simp: find_None_iff)

lemma trim_start_suffix: "suffix (trim_start s) s"
proof (induction s rule: trim_start.induct)
  case (1 s)
  show ?case
  proof (cases "find (\<lambda>w. prefix w s) white_space")
    case None
    then show ?thesis by (subst trim_start.simps) simp
  next
    case (Some w)
    then have "suffix (trim_start (drop (length w) s)) (drop (length w) s)" by (rule 1)
    then show ?thesis
      by (subst trim_start.simps) (simp add: Some, meson suffix_drop suffix_order.trans)
  qed
qed

lemma trim_end_prefix: "prefix (trim_end s) s"
proof (induction s rule: trim_end.induct)
  case (1 s)
  show ?case
  proof (cases "find (\<lambda>w. suffix w s) white_space")
    case None
    then show ?thesis by (subst trim_end.simps) simp
  next
    case (Some w)
    then have "prefix (trim_end (take (length s - length w) s)) (take (length s - length w) s)" by (rule 1)
    then show ?thesis
      by (subst trim_end.simps) (simp add: Some, meson take_is_prefix prefix_order.trans)
  qed
qed

lemma trim_start_no_prefix: "w \<in> set white_space \<Longrightarrow> \<not> prefix w (trim_start s)"
proof (induction s rule: trim_start.induct)
  case (1 s)
  show ?case
  proof (cases "find (\<lambda>w. prefix w s) white_space")
    case None
    then have "trim_start s = s" by (subst trim_start.simps) simp
    then show ?thesis using None 1(2) by (auto simp: find_None_all)
  next
    case (Some w')
    then have "trim_start s = trim_start (drop (length w') s)" by (subst trim_start.simps) simp
    then show ?thesis using 1 Some by simp
  qed
qed

lemma trim_end_no_suffix: "w \<in> set white_space \<Longrightarrow> \<not> suffix w (trim_end s)"
proof (induction s rule: trim_end.induct)
  case (1 s)
  show ?case
  proof (cases "find (\<lambda>w. suffix w s) white_space")
    case None
    then have "trim_end s = s" by (subst trim_end.simps) simp
    then show ?thesis using None 1(2) by (auto simp: find_None_all)
  next
    case (Some w')
    then have "trim_end s = trim_end (take (length s - length w') s)" by (subst trim_end.simps) simp
    then show ?thesis using 1 Some by simp
  qed
qed

lemma trimmed_trim: "trimmed (trim s)"
  unfolding trimmed_def trim_def
  using trim_end_no_suffix trim_start_no_prefix trim_end_prefix by (meson prefix_order.trans)

lemma trim_trimmed: "trimmed s \<Longrightarrow> trim s = s"
proof -
  assume "trimmed s"
  then have "find (\<lambda>w. prefix w s) white_space = None" "find (\<lambda>w. suffix w s) white_space = None"
    by (simp_all add: trimmed_def find_None_all)
  then show ?thesis
    unfolding trim_def by (simp add: trim_start.simps [of s] trim_end.simps [of s])
qed

lemma trim_trim [simp]: "trim (trim s) = trim s"
  by (rule trim_trimmed [OF trimmed_trim])

lemma trim_set: "set (trim s) \<subseteq> set s"
  unfolding trim_def
  by (meson set_mono_prefix set_mono_suffix subset_trans trim_end_prefix trim_start_suffix)

lemma trim_length: "length (trim s) \<le> length s"
  unfolding trim_def
  by (meson le_trans prefix_length_le suffix_length_le trim_end_prefix trim_start_suffix)


text \<open>Nothing is trimmed from a text that starts and ends in a printable ASCII character.\<close>

definition graphic :: "char \<Rightarrow> bool" where
  "graphic c \<longleftrightarrow> 33 \<le> (of_char c :: nat) \<and> of_char c \<le> (126 :: nat)"

lemma white_space_graphic: "w \<in> set white_space \<Longrightarrow> \<not> graphic (hd w) \<and> \<not> graphic (last w)"
  by (auto simp: white_space_def graphic_def)

lemma trim_graphic: "s = [] \<or> graphic (hd s) \<and> graphic (last s) \<Longrightarrow> trim s = s"
proof -
  assume "s = [] \<or> graphic (hd s) \<and> graphic (last s)"
  then have "trimmed s"
    unfolding trimmed_def using white_space_graphic white_space_nonempty
    by (metis hd_append2 last_appendR prefix_Nil prefix_def suffix_Nil suffix_def append_Nil)
  then show ?thesis by (rule trim_trimmed)
qed

section \<open>Searching and splitting\<close>

definition strip_prefix :: "str \<Rightarrow> str \<Rightarrow> str option" where
  "strip_prefix p s = (if prefix p s then Some (drop (length p) s) else None)"

definition strip_suffix :: "str \<Rightarrow> str \<Rightarrow> str option" where
  "strip_suffix p s = (if suffix p s then Some (take (length s - length p) s) else None)"

text \<open>\<^verbatim>\<open>split_once\<close> at the first occurrence of a one-byte character.\<close>

definition split_once :: "char \<Rightarrow> str \<Rightarrow> (str \<times> str) option" where
  "split_once c s =
     (if c \<in> set s then Some (takeWhile (\<lambda>x. x \<noteq> c) s, tl (dropWhile (\<lambda>x. x \<noteq> c) s)) else None)"

fun split_on :: "char \<Rightarrow> str \<Rightarrow> str list" where
  "split_on c [] = [[]]"
| "split_on c (x # s) =
     (if x = c then [] # split_on c s
      else (case split_on c s of [] \<Rightarrow> [[x]] | p # ps \<Rightarrow> (x # p) # ps))"

fun join :: "str \<Rightarrow> str list \<Rightarrow> str" where
  "join sep [] = []"
| "join sep [s] = s"
| "join sep (s # t # ss) = s @ sep @ join sep (t # ss)"

definition trim_end_matches :: "char \<Rightarrow> str \<Rightarrow> str" where
  "trim_end_matches c s = rev (dropWhile (\<lambda>x. x = c) (rev s))"

definition trim_matches :: "char \<Rightarrow> str \<Rightarrow> str" where
  "trim_matches c s = trim_end_matches c (dropWhile (\<lambda>x. x = c) s)"

lemma strip_prefix_Some: "strip_prefix p s = Some r \<longleftrightarrow> s = p @ r"
  by (auto simp: strip_prefix_def prefix_def)

lemma strip_suffix_Some: "strip_suffix p s = Some r \<longleftrightarrow> s = r @ p"
  by (auto simp: strip_suffix_def suffix_def)

lemma split_once_Some: "split_once c s = Some (a, b) \<longleftrightarrow> s = a @ c # b \<and> c \<notin> set a"
proof
  assume "split_once c s = Some (a, b)"
  then have c: "c \<in> set s" and a: "a = takeWhile (\<lambda>x. x \<noteq> c) s"
    and b: "b = tl (dropWhile (\<lambda>x. x \<noteq> c) s)"
    by (simp_all add: split_once_def split: if_splits)
  obtain y ys where y: "dropWhile (\<lambda>x. x \<noteq> c) s = y # ys"
    using c by (cases "dropWhile (\<lambda>x. x \<noteq> c) s") (auto simp: dropWhile_eq_Nil_conv)
  then have "s = a @ y # ys" "y = c" unfolding a dropWhile_eq_Cons_conv by blast+
  moreover have "c \<notin> set a" unfolding a by (auto dest: set_takeWhileD)
  ultimately show "s = a @ c # b \<and> c \<notin> set a" using b y by simp
next
  assume s: "s = a @ c # b \<and> c \<notin> set a"
  then have "\<And>x. x \<in> set a \<Longrightarrow> x \<noteq> c" by blast
  with s show "split_once c s = Some (a, b)"
    by (simp add: split_once_def takeWhile_append2 dropWhile_append2)
qed

lemma split_once_None: "split_once c s = None \<longleftrightarrow> c \<notin> set s"
  by (simp add: split_once_def)

lemma join_Cons: "ss \<noteq> [] \<Longrightarrow> join sep (s # ss) = s @ sep @ join sep ss"
  by (cases ss) simp_all

lemma join_snoc: "ss \<noteq> [] \<Longrightarrow> join sep (ss @ [s]) = join sep ss @ sep @ s"
  by (induction sep ss rule: join.induct) (simp_all add: join_Cons)

lemma split_on_nonempty [simp]: "split_on c s \<noteq> []"
  by (induction s) (auto split: list.splits)

lemma split_on_join: "join [c] (split_on c s) = s"
proof (induction s)
  case (Cons x s)
  obtain p ps where ps: "split_on c s = p # ps" by (cases "split_on c s") auto
  have "join [c] ((x # p) # ps) = x # join [c] (p # ps)" by (cases ps) simp_all
  then show ?case using Cons ps by (simp add: join_Cons)
qed simp

section \<open>Letters and numbers\<close>

definition ascii_lower :: "char \<Rightarrow> char" where
  "ascii_lower c = (if 65 \<le> (of_char c :: nat) \<and> of_char c \<le> (90 :: nat) then char_of (of_char c + 32 :: nat) else c)"

definition to_ascii_lowercase :: "str \<Rightarrow> str" where
  "to_ascii_lowercase s = map ascii_lower s"

definition ascii_upper :: "char \<Rightarrow> char" where
  "ascii_upper c = (if 97 \<le> (of_char c :: nat) \<and> of_char c \<le> (122 :: nat) then char_of (of_char c - 32 :: nat) else c)"

definition to_ascii_uppercase :: "str \<Rightarrow> str" where
  "to_ascii_uppercase s = map ascii_upper s"

definition eq_ignore_ascii_case :: "str \<Rightarrow> str \<Rightarrow> bool" where
  "eq_ignore_ascii_case a b \<longleftrightarrow> to_ascii_lowercase a = to_ascii_lowercase b"

lemma ascii_lower_idem [simp]: "ascii_lower (ascii_lower c) = ascii_lower c"
proof (cases "65 \<le> (of_char c :: nat) \<and> of_char c \<le> (90 :: nat)")
  case True
  then have "(of_char (char_of (of_char c + 32 :: nat)) :: nat) = of_char c + 32" by simp
  then show ?thesis using True by (simp only: ascii_lower_def) simp
qed (simp only: ascii_lower_def if_False)

lemma to_ascii_lowercase_idem [simp]: "to_ascii_lowercase (to_ascii_lowercase s) = to_ascii_lowercase s"
  by (simp add: to_ascii_lowercase_def)

definition is_digit :: "char \<Rightarrow> bool" where
  "is_digit c \<longleftrightarrow> 48 \<le> (of_char c :: nat) \<and> of_char c \<le> (57 :: nat)"

definition digits_value :: "str \<Rightarrow> nat" where
  "digits_value s = foldl (\<lambda>n c. n * 10 + (of_char c - 48)) 0 s"

text \<open>\<^verbatim>\<open>str::parse\<close> for an unsigned integer type with the given greatest value.\<close>

definition parse_unsigned :: "nat \<Rightarrow> str \<Rightarrow> nat result" where
  "parse_unsigned limit s =
     (let digits = (case s of c # r \<Rightarrow> if c = CHR ''+'' then r else s | [] \<Rightarrow> s)
      in if digits = [] then Inl ''cannot parse integer from empty string''
         else if \<not> list_all is_digit digits then Inl ''invalid digit found in string''
         else if digits_value digits > limit then Inl ''number too large to fit in target type''
         else Inr (digits_value digits))"

definition str_bytes :: "str \<Rightarrow> bytes" where
  "str_bytes s = map (\<lambda>c. word_of_nat (of_char c)) s"

text \<open>Well-formed UTF-8, the byte strings \<^verbatim>\<open>std::str::from_utf8\<close> accepts.\<close>

definition continues :: "u8 \<Rightarrow> bool" where
  "continues b \<longleftrightarrow> 0x80 \<le> b \<and> b \<le> 0xBF"

fun utf8_valid :: "bytes \<Rightarrow> bool" where
  "utf8_valid [] = True"
| "utf8_valid (a # r) =
     (if a < 0x80 then utf8_valid r
      else
        (case r of
           [] \<Rightarrow> False
         | b # r1 \<Rightarrow>
             if 0xC2 \<le> a \<and> a \<le> 0xDF then continues b \<and> utf8_valid r1
             else
               (case r1 of
                  [] \<Rightarrow> False
                | c # r2 \<Rightarrow>
                    if 0xE0 \<le> a \<and> a \<le> 0xEF then
                      continues b \<and> continues c \<and> (a = 0xE0 \<longrightarrow> 0xA0 \<le> b) \<and> (a = 0xED \<longrightarrow> b \<le> 0x9F) \<and> utf8_valid r2
                    else
                      (case r2 of
                         [] \<Rightarrow> False
                       | d # r3 \<Rightarrow>
                           0xF0 \<le> a \<and> a \<le> 0xF4 \<and> continues b \<and> continues c \<and> continues d
                           \<and> (a = 0xF0 \<longrightarrow> 0x90 \<le> b) \<and> (a = 0xF4 \<longrightarrow> b \<le> 0x8F) \<and> utf8_valid r3))))"

definition from_utf8 :: "bytes \<Rightarrow> str result" where
  "from_utf8 b = (if utf8_valid b then Inr (map (\<lambda>x. char_of (unat x)) b) else Inl ''invalid utf-8 sequence'')"

abbreviation "u16_max \<equiv> 65535 :: nat"
abbreviation "u64_max \<equiv> 18446744073709551615 :: nat"

lemma parse_unsigned_le: "parse_unsigned limit s = Inr n \<Longrightarrow> n \<le> limit"
  by (auto simp: parse_unsigned_def Let_def split: if_splits list.splits)

end
