(* ===== verification/NetText.thy ===== *)
theory NetText
  imports Text
begin

text \<open>
  IP addresses and socket addresses as the Rust standard library reads them from text
  (\<^verbatim>\<open>core::net\<close>). A reader returns its value and the text after it, or \<open>None\<close> with nothing consumed.
\<close>

type_synonym u128 = "128 word"

datatype ip_addr = V4 u32 | V6 u128

type_synonym socket_addr = "ip_addr \<times> u16"

type_synonym 'a reader = "str \<Rightarrow> ('a \<times> str) option"

definition to_digit :: "nat \<Rightarrow> char \<Rightarrow> nat option" where
  "to_digit radix c =
     (let n = of_char c :: nat;
          d = (if 48 \<le> n \<and> n \<le> 57 then n - 48
               else if 65 \<le> n \<and> n \<le> 90 then n - 55
               else if 97 \<le> n \<and> n \<le> 122 then n - 87 else 36)
      in if d < radix then Some d else None)"

definition read_given_char :: "char \<Rightarrow> unit reader" where
  "read_given_char c s = (case s of x # r \<Rightarrow> if x = c then Some ((), r) else None | [] \<Rightarrow> None)"

text \<open>A number of at most \<open>max_digits\<close> digits, if given, and at most \<open>limit\<close>.\<close>

definition read_number :: "nat \<Rightarrow> nat option \<Rightarrow> bool \<Rightarrow> nat \<Rightarrow> nat reader" where
  "read_number radix max_digits allow_zero_prefix limit s =
     (let ds = takeWhile (\<lambda>c. to_digit radix c \<noteq> None) s;
          n = foldl (\<lambda>n c. n * radix + the (to_digit radix c)) 0 ds
      in if ds = [] \<or> (case max_digits of Some k \<Rightarrow> length ds > k | None \<Rightarrow> False)
            \<or> \<not> allow_zero_prefix \<and> hd ds = CHR ''0'' \<and> length ds > 1 \<or> n > limit
         then None else Some (n, drop (length ds) s))"

definition read_separator :: "char \<Rightarrow> nat \<Rightarrow> 'a reader \<Rightarrow> 'a reader" where
  "read_separator c i f s =
     (if i > 0 then Option.bind (read_given_char c s) (\<lambda>(_, s). f s) else f s)"

definition read_octet :: "nat \<Rightarrow> nat reader" where
  "read_octet i = read_separator (CHR ''.'') i (read_number 10 (Some 3) False 255)"

definition read_ipv4_addr :: "u32 reader" where
  "read_ipv4_addr s =
     Option.bind (read_octet 0 s) (\<lambda>(a, s).
     Option.bind (read_octet 1 s) (\<lambda>(b, s).
     Option.bind (read_octet 2 s) (\<lambda>(c, s).
     Option.bind (read_octet 3 s) (\<lambda>(d, s).
       Some (word_of_nat (((a * 256 + b) * 256 + c) * 256 + d), s)))))"

text \<open>The groups of an IPv6 address from index \<open>i\<close> on, at most \<open>n\<close> of them; two may be an IPv4 address.\<close>

fun read_groups :: "nat \<Rightarrow> nat \<Rightarrow> str \<Rightarrow> nat list \<times> bool \<times> str" where
  "read_groups i 0 s = ([], False, s)"
| "read_groups i (Suc n) s =
     (case (if n > 0 then read_separator (CHR '':'') i read_ipv4_addr s else None) of
        Some (v, s) \<Rightarrow> ([unat v div 65536, unat v mod 65536], True, s)
      | None \<Rightarrow>
          (case read_separator (CHR '':'') i (read_number 16 (Some 4) True 65535) s of
             Some (g, s) \<Rightarrow> (let (gs, v4, s) = read_groups (i + 1) n s in (g # gs, v4, s))
           | None \<Rightarrow> ([], False, s)))"

definition groups_addr :: "nat list \<Rightarrow> u128" where
  "groups_addr gs = word_of_nat (foldl (\<lambda>n g. n * 65536 + g) 0 gs)"

definition read_ipv6_addr :: "u128 reader" where
  "read_ipv6_addr s =
     (let (head, head_ipv4, s) = read_groups 0 8 s
      in if length head = 8 then Some (groups_addr head, s)
         else if head_ipv4 then None
         else
           Option.bind (read_given_char (CHR '':'') s) (\<lambda>(_, s).
           Option.bind (read_given_char (CHR '':'') s) (\<lambda>(_, s).
             let (tail, _, s) = read_groups 0 (8 - (length head + 1)) s
             in Some (groups_addr (head @ replicate (8 - length head - length tail) 0 @ tail), s))))"

definition read_ip_addr :: "ip_addr reader" where
  "read_ip_addr s =
     (case read_ipv4_addr s of
        Some (a, s) \<Rightarrow> Some (V4 a, s)
      | None \<Rightarrow> map_option (\<lambda>(a, s). (V6 a, s)) (read_ipv6_addr s))"

definition read_port :: "u16 reader" where
  "read_port s =
     Option.bind (read_given_char (CHR '':'') s) (\<lambda>(_, s).
     map_option (\<lambda>(n, s). (word_of_nat n, s)) (read_number 10 None True 65535 s))"

definition read_scope_id :: "nat reader" where
  "read_scope_id s =
     Option.bind (read_given_char (CHR ''%'') s) (\<lambda>(_, s). read_number 10 None True (2 ^ 32 - 1) s)"

definition read_socket_addr_v4 :: "socket_addr reader" where
  "read_socket_addr_v4 s =
     Option.bind (read_ipv4_addr s) (\<lambda>(ip, s). Option.bind (read_port s) (\<lambda>(port, s). Some ((V4 ip, port), s)))"

definition read_socket_addr_v6 :: "socket_addr reader" where
  "read_socket_addr_v6 s =
     Option.bind (read_given_char (CHR ''['') s) (\<lambda>(_, s).
     Option.bind (read_ipv6_addr s) (\<lambda>(ip, s).
       let s = (case read_scope_id s of Some (_, s) \<Rightarrow> s | None \<Rightarrow> s)
       in Option.bind (read_given_char (CHR '']'') s) (\<lambda>(_, s).
          Option.bind (read_port s) (\<lambda>(port, s). Some ((V6 ip, port), s)))))"

definition read_socket_addr :: "socket_addr reader" where
  "read_socket_addr s =
     (case read_socket_addr_v4 s of Some r \<Rightarrow> Some r | None \<Rightarrow> read_socket_addr_v6 s)"

text \<open>\<^verbatim>\<open>str::parse\<close> accepts a text that the reader consumes completely.\<close>

definition parse_with :: "'a reader \<Rightarrow> str \<Rightarrow> 'a option" where
  "parse_with f s = (case f s of Some (v, []) \<Rightarrow> Some v | _ \<Rightarrow> None)"

definition parse_ip_addr :: "str \<Rightarrow> ip_addr option" where
  "parse_ip_addr = parse_with read_ip_addr"

definition parse_socket_addr :: "str \<Rightarrow> socket_addr option" where
  "parse_socket_addr = parse_with read_socket_addr"

fun is_loopback :: "ip_addr \<Rightarrow> bool" where
  "is_loopback (V4 a) \<longleftrightarrow> drop_bit 24 a = 127"
| "is_loopback (V6 a) \<longleftrightarrow> a = 1"

text \<open>A text that starts with neither a hexadecimal digit nor a colon is no address.\<close>

lemma to_digit_mono: "to_digit 16 c = None \<Longrightarrow> to_digit 10 c = None"
  by (auto simp: to_digit_def Let_def split: if_splits)

lemma parse_ip_addr_name:
  assumes "to_digit 16 c = None" and "c \<noteq> CHR '':''"
  shows "parse_ip_addr (c # s) = None"
proof -
  have n: "read_number 16 m z l (c # s) = None" "read_number 10 m z l (c # s) = None" for m z l
    using assms(1) to_digit_mono [OF assms(1)] by (simp_all add: read_number_def)
  have "read_ipv4_addr (c # s) = None"
    by (simp add: read_ipv4_addr_def read_octet_def read_separator_def n)
  moreover from this have "read_groups 0 (Suc k) (c # s) = ([], False, c # s)" for k
    by (simp add: read_separator_def n)
  from this [of 7] have "read_groups 0 8 (c # s) = ([], False, c # s)" by (simp only: numeral_nat)
  ultimately show ?thesis
    using assms(2) by (simp add: parse_ip_addr_def parse_with_def read_ip_addr_def read_ipv6_addr_def read_given_char_def)
qed

end
