(* ===== verification/Rules.thy ===== *)
theory Rules
  imports NetText "HOL-Library.Product_Lexorder"
begin

text \<open>
  The routing rules of \<^verbatim>\<open>crates/config/src/rule.rs\<close> and the port ranges of
  \<^verbatim>\<open>crates/config/src/compat.rs\<close>: parsing, the sets of domains and networks they compile to, and the
  three-valued evaluation that asks for a DNS lookup only when an undecided condition needs one.
  Regular expressions, the textual syntax of networks and the external IP matchers come from other
  crates; they are the fields of the record \<open>crates\<close>, an argument of the definitions that use them.
\<close>

section \<open>Addresses and sets\<close>

text \<open>A network of the \<^verbatim>\<open>ipnet\<close> crate, by its network and broadcast addresses.\<close>

datatype ip_net = Net4 u32 u32 | Net6 u128 u128

fun net_contains :: "ip_net \<Rightarrow> ip_addr \<Rightarrow> bool" where
  "net_contains (Net4 lo hi) (V4 ip) \<longleftrightarrow> lo \<le> ip \<and> ip \<le> hi"
| "net_contains (Net6 lo hi) (V6 ip) \<longleftrightarrow> lo \<le> ip \<and> ip \<le> hi"
| "net_contains _ _ \<longleftrightarrow> False"

fun net_ok :: "ip_net \<Rightarrow> bool" where
  "net_ok (Net4 lo hi) \<longleftrightarrow> lo \<le> hi"
| "net_ok (Net6 lo hi) \<longleftrightarrow> lo \<le> hi"

record 'r domain_set =
  exact :: "str set"
  suffixes :: "str set"
  keyword_list :: "str list"
  regexes :: "'r list"

record ip_set =
  v4 :: "(u128 \<times> u128) list"
  v6 :: "(u128 \<times> u128) list"
  inverse :: bool

record ('r, 'x) crates =
  compile_regex :: "str \<Rightarrow> 'r result"
  regex_new :: "str \<Rightarrow> 'r result"
  regex_escape :: "str \<Rightarrow> str"
  is_match :: "'r \<Rightarrow> str \<Rightarrow> bool"
  parse_net :: "str \<Rightarrow> ip_net result"
  external_matches :: "'x \<Rightarrow> ip_addr \<Rightarrow> bool"

text \<open>The loop of \<^verbatim>\<open>DomainSet::matches\<close> over the labels of a host name.\<close>

function suffix_loop :: "str set \<Rightarrow> str \<Rightarrow> bool" where
  "suffix_loop S label =
     (if label \<in> S then True
      else (case split_once (CHR ''.'') label of None \<Rightarrow> False | Some (_, rest) \<Rightarrow> suffix_loop S rest))"
  by pat_completeness auto
termination
proof (relation "measure (\<lambda>(S, label). length label)")
  fix S label x a rest
  assume "split_once (CHR ''.'') label = Some x" and "(a, rest) = x"
  then have "split_once (CHR ''.'') label = Some (a, rest)" by simp
  then show "((S, rest), (S, label)) \<in> measure (\<lambda>(S, label). length label)"
    by (auto simp: split_once_Some)
qed simp

declare suffix_loop.simps [simp del]

definition domain_set_matches :: "('r, 'x) crates \<Rightarrow> 'r domain_set \<Rightarrow> str \<Rightarrow> bool" where
  "domain_set_matches X d host =
     (if host \<in> exact d then True
      else if suffix_loop (suffixes d) host then True
      else list_ex (\<lambda>v. sublist v host) (keyword_list d) \<or> list_ex (\<lambda>r. is_match X r host) (regexes d))"

definition saturating_succ :: "u128 \<Rightarrow> u128" where
  "saturating_succ n = (if n = - 1 then n else n + 1)"

text \<open>The merge loop of \<^verbatim>\<open>IpSet::new\<close>; the merged ranges are kept with the last one first.\<close>

fun merge_loop :: "(u128 \<times> u128) list \<Rightarrow> (u128 \<times> u128) list \<Rightarrow> (u128 \<times> u128) list" where
  "merge_loop merged [] = rev merged"
| "merge_loop [] ((a, b) # ranges) = merge_loop [(a, b)] ranges"
| "merge_loop ((c, d) # merged) ((a, b) # ranges) =
     (if a \<le> saturating_succ d then merge_loop ((c, max d b) # merged) ranges
      else merge_loop ((a, b) # (c, d) # merged) ranges)"

definition merge_ranges :: "(u128 \<times> u128) list \<Rightarrow> (u128 \<times> u128) list" where
  "merge_ranges ranges = merge_loop [] (sort ranges)"

fun net4_range :: "ip_net \<Rightarrow> (u128 \<times> u128) option" where
  "net4_range (Net4 lo hi) = Some (ucast lo, ucast hi)"
| "net4_range (Net6 _ _) = None"

fun net6_range :: "ip_net \<Rightarrow> (u128 \<times> u128) option" where
  "net6_range (Net4 _ _) = None"
| "net6_range (Net6 lo hi) = Some (lo, hi)"

definition ip_set_new :: "ip_net list \<Rightarrow> bool \<Rightarrow> ip_set" where
  "ip_set_new nets invert =
     \<lparr>v4 = merge_ranges (List.map_filter net4_range nets),
      v6 = merge_ranges (List.map_filter net6_range nets), inverse = invert\<rparr>"

definition ranges_match :: "(u128 \<times> u128) list \<Rightarrow> u128 \<Rightarrow> bool" where
  "ranges_match ranges n =
     (let i = length (takeWhile (\<lambda>r. fst r \<le> n) ranges)
      in i > 0 \<and> n \<le> snd (ranges ! (i - 1)))"

definition ip_set_matches :: "ip_set \<Rightarrow> ip_addr \<Rightarrow> bool" where
  "ip_set_matches s ip =
     ((case ip of V4 ip \<Rightarrow> ranges_match (v4 s) (ucast ip) | V6 ip \<Rightarrow> ranges_match (v6 s) ip)
        \<noteq> inverse s)"

section \<open>Matchers\<close>

datatype ('r, 'x) matcher =
    Domain str
  | Suffix str
  | Keyword str
  | Regex 'r
  | Net ip_net
  | Port u16
  | Ports "(u16 \<times> u16) list"
  | Network str
  | GeoIp str
  | GeoSite str
  | RuleSet str
  | And "('r, 'x) matcher list"
  | Or "('r, 'x) matcher list"
  | Not "('r, 'x) matcher"
  | NoResolve "('r, 'x) matcher"
  | Domains "'r domain_set"
  | Nets ip_set
  | ExternalIp 'x
  | All

record ('r, 'x) rule =
  matcher :: "('r, 'x) matcher"
  target :: str
  no_resolve :: bool

text \<open>A condition on the address: undecided while there is no address and one can be looked up.\<close>

definition on_ip :: "(ip_addr \<Rightarrow> bool) \<Rightarrow> ip_addr option \<Rightarrow> bool \<Rightarrow> bool option" where
  "on_ip P ip can_resolve =
     (case ip of Some ip \<Rightarrow> Some (P ip) | None \<Rightarrow> if can_resolve then None else Some False)"

text \<open>The loop over the operands of a conjunction (\<open>is_and\<close>) or disjunction.\<close>

fun logic_loop :: "bool \<Rightarrow> bool \<Rightarrow> bool option list \<Rightarrow> bool option" where
  "logic_loop is_and unknown [] = (if unknown then None else Some is_and)"
| "logic_loop is_and unknown (r # rs) =
     (case r of
        Some v \<Rightarrow> if v \<noteq> is_and then Some v else logic_loop is_and unknown rs
      | None \<Rightarrow> logic_loop is_and True rs)"

fun evaluate :: "('r, 'x) crates \<Rightarrow> ('r, 'x) matcher \<Rightarrow> str \<Rightarrow> ip_addr option \<Rightarrow> u16 \<Rightarrow> str \<Rightarrow> bool \<Rightarrow> bool option" where
  "evaluate X (Domain d) host ip port network can_resolve = Some (host = d)"
| "evaluate X (Suffix d) host ip port network can_resolve =
     Some (host = d \<or> (case strip_suffix d host of None \<Rightarrow> False | Some p \<Rightarrow> suffix ''.'' p))"
| "evaluate X (Keyword k) host ip port network can_resolve = Some (sublist k host)"
| "evaluate X (Regex r) host ip port network can_resolve = Some (is_match X r host)"
| "evaluate X (Domains s) host ip port network can_resolve = Some (domain_set_matches X s host)"
| "evaluate X (Net n) host ip port network can_resolve = on_ip (net_contains n) ip can_resolve"
| "evaluate X (Nets n) host ip port network can_resolve = on_ip (ip_set_matches n) ip can_resolve"
| "evaluate X (ExternalIp n) host ip port network can_resolve = on_ip (external_matches X n) ip can_resolve"
| "evaluate X (Port p) host ip port network can_resolve = Some (p = port)"
| "evaluate X (Ports r) host ip port network can_resolve = Some (list_ex (\<lambda>(a, b). a \<le> port \<and> port \<le> b) r)"
| "evaluate X (Network n) host ip port network can_resolve = Some (n = network)"
| "evaluate X All host ip port network can_resolve = Some True"
| "evaluate X (Not m) host ip port network can_resolve =
     map_option HOL.Not (evaluate X m host ip port network can_resolve)"
| "evaluate X (NoResolve m) host ip port network can_resolve = evaluate X m host ip port network False"
| "evaluate X (And nodes) host ip port network can_resolve =
     logic_loop True False (map (\<lambda>m. evaluate X m host ip port network can_resolve) nodes)"
| "evaluate X (Or nodes) host ip port network can_resolve =
     logic_loop False False (map (\<lambda>m. evaluate X m host ip port network can_resolve) nodes)"
| "evaluate X (GeoIp _) host ip port network can_resolve = Some False"
| "evaluate X (GeoSite _) host ip port network can_resolve = Some False"
| "evaluate X (RuleSet _) host ip port network can_resolve = Some False"

definition rule_matches :: "('r, 'x) crates \<Rightarrow> ('r, 'x) rule \<Rightarrow> str \<Rightarrow> ip_addr option \<Rightarrow> u16 \<Rightarrow> str \<Rightarrow> bool" where
  "rule_matches X r host ip port network \<longleftrightarrow>
     evaluate X (matcher r) (to_ascii_lowercase (trim_end_matches (CHR ''.'') host)) ip port network False = Some True"

text \<open>\<^verbatim>\<open>bind\<close> replaces the references to geographic data and rule sets; \<^verbatim>\<open>references\<close> lists them.\<close>

fun bind_matcher :: "(('r, 'x) matcher \<Rightarrow> ('r, 'x) matcher result) \<Rightarrow> ('r, 'x) matcher \<Rightarrow> ('r, 'x) matcher result" where
  "bind_matcher resolve (GeoIp v) = resolve (GeoIp v)"
| "bind_matcher resolve (GeoSite v) = resolve (GeoSite v)"
| "bind_matcher resolve (RuleSet v) = resolve (RuleSet v)"
| "bind_matcher resolve (And v) = and_then (map_result (bind_matcher resolve) v) (\<lambda>v. Inr (And v))"
| "bind_matcher resolve (Or v) = and_then (map_result (bind_matcher resolve) v) (\<lambda>v. Inr (Or v))"
| "bind_matcher resolve (Not v) = and_then (bind_matcher resolve v) (\<lambda>v. Inr (Not v))"
| "bind_matcher resolve (NoResolve v) = and_then (bind_matcher resolve v) (\<lambda>v. Inr (NoResolve v))"
| "bind_matcher resolve m = Inr m"

fun references :: "('r, 'x) matcher \<Rightarrow> (str \<times> str) list" where
  "references (GeoIp v) = [(''geoip'', v)]"
| "references (GeoSite v) = [(''geosite'', v)]"
| "references (RuleSet v) = [(''rule-set'', v)]"
| "references (And v) = concat (map references v)"
| "references (Or v) = concat (map references v)"
| "references (Not v) = references v"
| "references (NoResolve v) = references v"
| "references _ = []"

section \<open>Parsing\<close>

text \<open>The loop of \<^verbatim>\<open>fields\<close>: the nesting depth, the current field and the fields before it.\<close>

fun fields_loop :: "nat \<Rightarrow> str \<Rightarrow> str list \<Rightarrow> str \<Rightarrow> str list result" where
  "fields_loop depth cur out [] =
     and_then (ensure (depth = 0) ''unbalanced rule'') (\<lambda>_. Inr (out @ [trim cur]))"
| "fields_loop depth cur out (c # raw) =
     (if c = CHR ''('' then
        and_then (ensure (depth + 1 \<le> 32) ''rule nesting limit'')
          (\<lambda>_. fields_loop (depth + 1) (cur @ [c]) out raw)
      else if c = CHR '')'' then
        and_then (ensure (depth > 0) ''unbalanced rule'')
          (\<lambda>_. fields_loop (depth - 1) (cur @ [c]) out raw)
      else if c = CHR '','' \<and> depth = 0 then fields_loop depth [] (out @ [trim cur]) raw
      else fields_loop depth (cur @ [c]) out raw)"

definition fields :: "str \<Rightarrow> str list result" where
  "fields raw = and_then (ensure (length raw \<le> 65536) ''rule too long'') (\<lambda>_. fields_loop 0 [] [] raw)"

definition unwrap :: "str \<Rightarrow> str result" where
  "unwrap raw =
     ok_or ''logical rule requires parentheses''
       (Option.bind (strip_prefix ''('' raw) (strip_suffix '')''))"

datatype port_range = Number u16 | Range str

definition parse_port :: "str \<Rightarrow> u16 result" where
  "parse_port s = and_then (parse_unsigned u16_max s) (\<lambda>n. Inr (word_of_nat n))"

definition bounds :: "port_range \<Rightarrow> (u16 \<times> u16) result" where
  "bounds r =
     and_then
       (case r of
          Number n \<Rightarrow> Inr (n, n)
        | Range s \<Rightarrow>
            (case split_once (CHR ''-'') s of
               Some (a, b) \<Rightarrow> and_then (parse_port a) (\<lambda>a. and_then (parse_port b) (\<lambda>b. Inr (a, b)))
             | None \<Rightarrow> and_then (parse_port s) (\<lambda>n. Inr (n, n))))
       (\<lambda>(a, b). and_then (ensure (a > 0 \<and> a \<le> b) ''invalid port range'') (\<lambda>_. Inr (a, b)))"

definition contains :: "port_range \<Rightarrow> u16 \<Rightarrow> bool" where
  "contains r n = (case bounds r of Inl _ \<Rightarrow> False | Inr (a, b) \<Rightarrow> a \<le> n \<and> n \<le> b)"

text \<open>The conditions with one value; \<open>raw\<close> is the value as written, \<open>value\<close> its lower-case form.\<close>

definition parse_leaf :: "('r, 'x) crates \<Rightarrow> str \<Rightarrow> str \<Rightarrow> str \<Rightarrow> ('r, 'x) matcher result" where
  "parse_leaf X kind raw val =
     (if kind = ''DOMAIN'' then Inr (Domain (trim_end_matches (CHR ''.'') val))
      else if kind = ''DOMAIN-SUFFIX'' then Inr (Suffix (trim_matches (CHR ''.'') val))
      else if kind = ''DOMAIN-KEYWORD'' then Inr (Keyword val)
      else if kind = ''DOMAIN-REGEX'' then and_then (compile_regex X raw) (\<lambda>r. Inr (Regex r))
      else if kind = ''IP-CIDR'' \<or> kind = ''IP-CIDR6'' then
        and_then (parse_net X val) (\<lambda>n.
          and_then (ensure ((case n of Net4 _ _ \<Rightarrow> True | Net6 _ _ \<Rightarrow> False) = (kind = ''IP-CIDR''))
              ''rule IP family mismatch'')
            (\<lambda>_. Inr (Net n)))
      else if kind = ''GEOIP'' then Inr (GeoIp val)
      else if kind = ''GEOSITE'' then Inr (GeoSite val)
      else if kind = ''RULE-SET'' then Inr (RuleSet raw)
      else if kind = ''DST-PORT'' then
        and_then (map_result (\<lambda>part. bounds (Range part)) (split_on (CHR ''/'') val)) (\<lambda>ports. Inr (Ports ports))
      else if kind = ''NETWORK'' then
        and_then (ensure (val = ''tcp'' \<or> val = ''udp'') ''invalid network'') (\<lambda>_. Inr (Network val))
      else Inl ''unsupported rule type {kind}'')"

definition logical_kinds :: "str list" where
  "logical_kinds = [''AND'', ''OR'', ''NOT'']"

text \<open>The operands of a logical rule, written as one parenthesised list or as several fields.\<close>

definition logical_parts :: "str list \<Rightarrow> str list result" where
  "logical_parts f =
     (if length f = 2 then
        and_then (unwrap (f ! 1)) (\<lambda>u. if prefix ''('' u then fields u else Inr (tl f))
      else Inr (tl f))"

function parse_depth :: "('r, 'x) crates \<Rightarrow> str \<Rightarrow> nat \<Rightarrow> ('r, 'x) matcher result" where
  "parse_depth X raw depth =
     (if \<not> depth < 32 then Inl ''rule nesting limit''
      else
        and_then (fields raw) (\<lambda>f.
          let nr = (f \<noteq> [] \<and> last f = ''no-resolve''); f = (if nr then butlast f else f)
          in and_then (ensure (length f \<ge> 2) ''invalid condition fields'') (\<lambda>_.
             let kind = f ! 0
             in and_then (ensure (kind \<in> set logical_kinds \<or> length f = 2) ''invalid condition fields'') (\<lambda>_.
             let val = to_ascii_lowercase (f ! 1)
             in and_then (ensure (val \<noteq> []) ''empty rule value'') (\<lambda>_.
             and_then
               (if kind \<in> set logical_kinds then
                  and_then (logical_parts f) (\<lambda>parts.
                  and_then (ensure (parts \<noteq> []) ''empty logical rule'') (\<lambda>_.
                  and_then (map_result (\<lambda>p. and_then (unwrap p) (\<lambda>u. parse_depth X u (depth + 1))) parts) (\<lambda>nodes.
                    if kind = ''AND'' then Inr (And nodes)
                    else if kind = ''OR'' then Inr (Or nodes)
                    else and_then (ensure (length nodes = 1) ''NOT requires one condition'')
                           (\<lambda>_. Inr (Not (nodes ! 0))))))
                else parse_leaf X kind (f ! 1) val)
               (\<lambda>m. Inr (if nr then NoResolve m else m)))))))"
  by pat_completeness auto
termination
  by (relation "measure (\<lambda>(X, raw, depth). 32 - depth)") auto

declare parse_depth.simps [simp del]

definition parse_condition :: "('r, 'x) crates \<Rightarrow> str \<Rightarrow> ('r, 'x) matcher result" where
  "parse_condition X raw = parse_depth X raw 0"

definition rule_parse :: "('r, 'x) crates \<Rightarrow> str \<Rightarrow> ('r, 'x) rule result" where
  "rule_parse X raw =
     and_then (fields raw) (\<lambda>f.
     and_then (ensure (length f \<ge> 2) ''rule needs type and target'') (\<lambda>_.
     let nr = (last f = ''no-resolve''); f = (if nr then butlast f else f)
     in and_then (ensure (length f \<ge> 2) ''missing rule target'') (\<lambda>_.
        let tgt = last f; f = butlast f
        in and_then (ensure (tgt \<noteq> []) ''empty rule target'') (\<lambda>_.
           and_then
             (if f ! 0 = ''MATCH'' then
                and_then (ensure (length f = 1) ''MATCH takes one target'') (\<lambda>_. Inr All)
              else parse_condition X (join '','' f))
             (\<lambda>m. Inr \<lparr>matcher = m, target = tgt, no_resolve = nr\<rparr>)))))"

text \<open>\<^verbatim>\<open>str::replace\<close> for a non-empty pattern.\<close>

function replace_str :: "str \<Rightarrow> str \<Rightarrow> str \<Rightarrow> str" where
  "replace_str pat new s =
     (if pat = [] \<or> s = [] then s
      else if prefix pat s then new @ replace_str pat new (drop (length pat) s)
      else hd s # replace_str pat new (tl s))"
  by pat_completeness auto
termination
  by (relation "measure (\<lambda>(pat, new, s). length s)") auto

declare replace_str.simps [simp del]

definition domain_pattern :: "('r, 'x) crates \<Rightarrow> str \<Rightarrow> ('r, 'x) matcher result" where
  "domain_pattern X pattern =
     (let p = to_ascii_lowercase (trim pattern)
      in and_then (ensure (p \<noteq> []) ''empty domain pattern'') (\<lambda>_.
         (case strip_prefix ''+.'' p of
            Some s \<Rightarrow> Inr (Suffix s)
          | None \<Rightarrow>
         (case strip_prefix ''.'' p of
            Some s \<Rightarrow> Inr (Suffix s)
          | None \<Rightarrow>
            if \<not> (CHR ''*'' \<in> set p) then Inr (Domain p)
            else
              and_then (regex_new X (''^'' @ replace_str [CHR 0x5C, CHR ''*''] ''[^.]*'' (regex_escape X p) @ ''$''))
                (\<lambda>r. Inr (Regex r))))))"


section \<open>Domain sets\<close>

lemma suffix_dot_split:
  assumes "CHR ''.'' \<notin> set a"
  shows "suffix (CHR ''.'' # s) (a @ CHR ''.'' # rest) \<longleftrightarrow> s = rest \<or> suffix (CHR ''.'' # s) rest"
  using assms by (auto simp: suffix_def append_eq_append_conv2 append_eq_Cons_conv Cons_eq_append_conv)

lemma suffix_loop_iff:
  "suffix_loop S label \<longleftrightarrow> (\<exists>s \<in> S. label = s \<or> suffix (CHR ''.'' # s) label)"
proof (induction S label rule: suffix_loop.induct)
  case (1 S label)
  show ?case
  proof (cases "label \<in> S")
    case True
    then show ?thesis by (subst suffix_loop.simps) auto
  next
    case F: False
    show ?thesis
    proof (cases "split_once (CHR ''.'') label")
      case None
      then have "CHR ''.'' \<notin> set label" by (simp add: split_once_None)
      then have "\<not> suffix (CHR ''.'' # s) label" for s by (auto simp: suffix_def)
      then show ?thesis using F None by (subst suffix_loop.simps) auto
    next
      case (Some x)
      obtain a rest where x: "x = (a, rest)" by (cases x)
      then have l: "label = a @ CHR ''.'' # rest" "CHR ''.'' \<notin> set a"
        using Some by (auto simp: split_once_Some)
      have "suffix_loop S label \<longleftrightarrow> suffix_loop S rest"
        using F Some x by (subst suffix_loop.simps) simp
      also have "\<dots> \<longleftrightarrow> (\<exists>s \<in> S. rest = s \<or> suffix (CHR ''.'' # s) rest)"
        using F Some x by (intro 1) auto
      also have "\<dots> \<longleftrightarrow> (\<exists>s \<in> S. label = s \<or> suffix (CHR ''.'' # s) label)"
        using F unfolding l(1) suffix_dot_split [OF l(2)] by auto
      finally show ?thesis .
    qed
  qed
qed

lemma evaluate_Suffix:
  "evaluate X (Suffix d) host ip port network cr = Some (host = d \<or> suffix (CHR ''.'' # d) host)"
proof -
  have "(case strip_suffix d host of None \<Rightarrow> False | Some p \<Rightarrow> suffix ''.'' p) \<longleftrightarrow> suffix (CHR ''.'' # d) host"
    by (auto simp: strip_suffix_def suffix_def split: option.splits)
  then show ?thesis by simp
qed

section \<open>Sets of networks\<close>

definition covers :: "(u128 \<times> u128) list \<Rightarrow> u128 \<Rightarrow> bool" where
  "covers rs n \<longleftrightarrow> (\<exists>(a, b) \<in> set rs. a \<le> n \<and> n \<le> b)"

definition separated :: "(u128 \<times> u128) list \<Rightarrow> bool" where
  "separated rs \<longleftrightarrow> sorted_wrt (\<lambda>x y. snd x < fst y) rs \<and> (\<forall>(a, b) \<in> set rs. a \<le> b)"

lemma covers_simps [simp]:
  "covers [] n = False" "covers ((a, b) # rs) n = (a \<le> n \<and> n \<le> b \<or> covers rs n)"
  "covers (xs @ ys) n = (covers xs n \<or> covers ys n)" "covers (rev xs) n = covers xs n"
  by (auto simp: covers_def)

lemma unat_succ: "(d :: u128) \<noteq> - 1 \<Longrightarrow> unat (d + 1) = unat d + 1"
proof -
  assume "d \<noteq> - 1"
  then have "1 + d \<noteq> 0" by (metis add_eq_0_iff add.commute)
  from unatSuc [OF this] show ?thesis by (simp add: add.commute)
qed

lemma succ_le: "a \<le> saturating_succ d \<longleftrightarrow> unat a \<le> unat d + 1"
proof (cases "d = - 1")
  case True
  then have "unat d = 2 ^ 128 - 1" by (simp add: unsigned_minus_1_eq_mask mask_eq_exp_minus_1)
  moreover have "unat a < 2 ^ 128" using unsigned_less [of a, where ?'a = nat] by simp
  ultimately show ?thesis using True by (simp add: saturating_succ_def)
qed (simp add: saturating_succ_def word_le_nat_alt unat_succ)

text \<open>Merging keeps the covered addresses and leaves disjoint ranges in increasing order.\<close>

lemma merge_loop_covers:
  assumes "\<forall>(a, b) \<in> set ranges. a \<le> b" and "\<forall>(a, b) \<in> set merged. a \<le> b"
    and "sorted (map fst ranges)" and "merged \<noteq> [] \<longrightarrow> (\<forall>r \<in> set ranges. fst (hd merged) \<le> fst r)"
  shows "covers (merge_loop merged ranges) n \<longleftrightarrow> covers merged n \<or> covers ranges n"
  using assms
proof (induction merged ranges rule: merge_loop.induct)
  case (2 a b ranges)
  then show ?case by (auto simp: case_prod_beta)
next
  case (3 c d merged a b ranges)
  show ?case
  proof (cases "a \<le> saturating_succ d")
    case True
    have "covers (merge_loop ((c, max d b) # merged) ranges) n \<longleftrightarrow> covers ((c, max d b) # merged) n \<or> covers ranges n"
      using 3 True by (intro 3(1)) (auto simp: max_def)
    moreover have "c \<le> n \<and> n \<le> max d b \<longleftrightarrow> (c \<le> n \<and> n \<le> d) \<or> (a \<le> n \<and> n \<le> b)"
    proof -
      have "c \<le> a" "a \<le> b" "c \<le> d" "unat a \<le> unat d + 1" using 3 True by (auto simp: succ_le)
      then show ?thesis by (auto simp: max_def word_le_nat_alt)
    qed
    ultimately show ?thesis using True by auto
  next
    case False
    then show ?thesis using 3 by auto
  qed
qed auto

lemma merge_loop_separated:
  assumes "\<forall>(a, b) \<in> set ranges. a \<le> b" and "sorted (map fst ranges)"
    and "separated (rev merged)" and "merged \<noteq> [] \<longrightarrow> (\<forall>r \<in> set ranges. fst (hd merged) \<le> fst r)"
  shows "separated (merge_loop merged ranges)"
  using assms
proof (induction merged ranges rule: merge_loop.induct)
  case (2 a b ranges)
  then show ?case by (auto simp: separated_def)
next
  case (3 c d merged a b ranges)
  show ?case
  proof (cases "a \<le> saturating_succ d")
    case True
    have "separated (rev ((c, max d b) # merged))"
      using 3 by (auto simp: separated_def sorted_wrt_append max_def)
    then have "separated (merge_loop ((c, max d b) # merged) ranges)"
      using 3 True by (intro 3(1)) auto
    then show ?thesis using True by simp
  next
    case False
    then have "d < a" unfolding succ_le by (simp add: word_less_nat_alt)
    then have "separated (rev ((a, b) # (c, d) # merged))"
      using 3(5) 3(3) by (fastforce simp: separated_def sorted_wrt_append)
    then have "separated (merge_loop ((a, b) # (c, d) # merged) ranges)"
      using 3 False by (intro 3(2)) auto
    then show ?thesis using False by simp
  qed
qed simp

lemma ranges_match_iff:
  assumes "separated rs"
  shows "ranges_match rs n \<longleftrightarrow> covers rs n"
proof -
  define i where "i = length (takeWhile (\<lambda>r. fst r \<le> n) rs)"
  have le: "i \<le> length rs" by (simp add: i_def length_takeWhile_le)
  have below: "fst (rs ! k) \<le> n" if "k < i" for k
    using that nth_mem [of k "takeWhile (\<lambda>r. fst r \<le> n) rs"] takeWhile_nth [of k "\<lambda>r. fst r \<le> n" rs]
    by (auto simp: i_def dest: set_takeWhileD)
  have sep: "snd (rs ! j) < fst (rs ! k)" if "j < k" "k < length rs" for j k
    using assms that by (auto simp: separated_def sorted_wrt_iff_nth_less)
  have "covers rs n \<longleftrightarrow> (\<exists>j < length rs. fst (rs ! j) \<le> n \<and> n \<le> snd (rs ! j))"
    unfolding covers_def case_prod_beta by (metis in_set_conv_nth)
  also have "\<dots> \<longleftrightarrow> i > 0 \<and> n \<le> snd (rs ! (i - 1))"
  proof
    assume "\<exists>j < length rs. fst (rs ! j) \<le> n \<and> n \<le> snd (rs ! j)"
    then obtain j where j: "j < length rs" "fst (rs ! j) \<le> n" "n \<le> snd (rs ! j)" by blast
    have "j < i"
    proof (rule ccontr)
      assume "\<not> j < i"
      then have "i < length rs" "i \<le> j" using j(1) by simp_all
      then have "\<not> fst (rs ! i) \<le> n" using nth_length_takeWhile [of "\<lambda>r. fst r \<le> n" rs] by (simp add: i_def)
      moreover have "fst (rs ! i) \<le> fst (rs ! j)"
      proof (cases "i = j")
        case False
        then have "snd (rs ! i) < fst (rs ! j)" using sep \<open>i \<le> j\<close> j(1) by simp
        moreover have "fst (rs ! i) \<le> snd (rs ! i)"
          using assms nth_mem [OF \<open>i < length rs\<close>] by (force simp: separated_def)
        ultimately show ?thesis by simp
      qed simp
      ultimately show False using j(2) by simp
    qed
    moreover have "j = i - 1"
    proof (rule ccontr)
      assume "j \<noteq> i - 1"
      with \<open>j < i\<close> have "snd (rs ! j) < fst (rs ! (i - 1))" using le by (intro sep) auto
      moreover have "fst (rs ! (i - 1)) \<le> n" using \<open>j < i\<close> by (intro below) simp
      ultimately show False using j(3) by simp
    qed
    ultimately show "i > 0 \<and> n \<le> snd (rs ! (i - 1))" using j(3) by auto
  next
    assume "i > 0 \<and> n \<le> snd (rs ! (i - 1))"
    then show "\<exists>j < length rs. fst (rs ! j) \<le> n \<and> n \<le> snd (rs ! j)"
      using le below [of "i - 1"] by (intro exI [of _ "i - 1"]) auto
  qed
  finally show ?thesis by (simp add: ranges_match_def Let_def i_def)
qed

lemma merge_ranges_match:
  assumes "\<forall>(a, b) \<in> set rs. a \<le> b"
  shows "ranges_match (merge_ranges rs) n \<longleftrightarrow> covers rs n"
proof -
  have s: "sorted (map fst (sort rs))"
  proof -
    have "sorted (sort rs)" by simp
    then show ?thesis
      unfolding sorted_map by (rule sorted_wrt_mono_rel [rotated]) (auto simp: less_eq_prod_def)
  qed
  have v: "\<forall>(a, b) \<in> set (sort rs). a \<le> b" using assms by simp
  have "separated (merge_ranges rs)"
    unfolding merge_ranges_def by (rule merge_loop_separated [OF v s]) (simp_all add: separated_def)
  moreover have "covers (merge_ranges rs) n \<longleftrightarrow> covers rs n"
    unfolding merge_ranges_def by (subst merge_loop_covers [OF v _ s]) (auto simp: covers_def)
  ultimately show ?thesis by (simp add: ranges_match_iff)
qed

lemma ip_set_correct:
  assumes "\<forall>n \<in> set nets. net_ok n"
  shows "ip_set_matches (ip_set_new nets invert) ip \<longleftrightarrow> (\<exists>n \<in> set nets. net_contains n ip) \<noteq> invert"
proof -
  have ucast: "(ucast (x :: u32) :: u128) \<le> ucast y \<longleftrightarrow> x \<le> y" for x y
    by (simp add: word_le_nat_alt unat_ucast_up)
  have ok4: "\<forall>(a, b) \<in> set (List.map_filter net4_range nets). a \<le> b"
    using assms by (fastforce simp: map_filter_def ucast split: if_splits elim!: net4_range.elims)
  have ok6: "\<forall>(a, b) \<in> set (List.map_filter net6_range nets). a \<le> b"
    using assms by (fastforce simp: map_filter_def split: if_splits elim!: net6_range.elims)
  show ?thesis
  proof (cases ip)
    case (V4 x)
    have "covers (List.map_filter net4_range nets) (ucast x) \<longleftrightarrow> (\<exists>n \<in> set nets. net_contains n ip)"
      unfolding covers_def V4 by (induction nets) (auto simp: map_filter_simps ucast split: option.splits elim!: net4_range.elims net_contains.elims)
    then show ?thesis
      by (simp add: ip_set_matches_def ip_set_new_def V4 merge_ranges_match [OF ok4])
  next
    case (V6 x)
    have "covers (List.map_filter net6_range nets) x \<longleftrightarrow> (\<exists>n \<in> set nets. net_contains n ip)"
      unfolding covers_def V6 by (induction nets) (auto simp: map_filter_simps split: option.splits elim!: net6_range.elims net_contains.elims)
    then show ?thesis
      by (simp add: ip_set_matches_def ip_set_new_def V6 merge_ranges_match [OF ok6])
  qed
qed


section \<open>Three-valued evaluation\<close>

lemma logic_loop_eq:
  "logic_loop is_and unknown rs =
     (if Some (\<not> is_and) \<in> set rs then Some (\<not> is_and)
      else if unknown \<or> None \<in> set rs then None else Some is_and)"
  by (induction rs arbitrary: unknown) (auto split: option.splits)

text \<open>A definite value stays under more knowledge about the address.\<close>

lemma logic_loop_mono:
  assumes "list_all2 (\<lambda>r s. r \<noteq> None \<longrightarrow> s = r) rs ss" and "logic_loop is_and False rs = Some v"
  shows "logic_loop is_and False ss = Some v"
proof -
  have nth: "length rs = length ss" "\<And>i. i < length rs \<Longrightarrow> rs ! i \<noteq> None \<Longrightarrow> ss ! i = rs ! i"
    using assms(1) by (auto simp: list_all2_conv_all_nth)
  have keep: "Some x \<in> set ss" if x: "Some x \<in> set rs" for x
  proof -
    obtain i where "i < length rs" "rs ! i = Some x" using x in_set_conv_nth [of "Some x" rs] by blast
    then have "ss ! i = Some x" "i < length ss" using nth by auto
    then show ?thesis by (metis nth_mem)
  qed
  show ?thesis
  proof (cases "Some (\<not> is_and) \<in> set rs")
    case True
    then show ?thesis using assms(2) keep by (simp add: logic_loop_eq)
  next
    case False
    then have "None \<notin> set rs" "v = is_and" using assms(2) by (auto simp: logic_loop_eq split: if_splits)
    then have "rs ! i \<noteq> None" if "i < length rs" for i using that nth_mem by metis
    then have "rs = ss" using nth by (intro nth_equalityI) auto
    then show ?thesis using assms(2) by simp
  qed
qed

lemma evaluate_definite:
  "evaluate X m host ip port network False \<noteq> None" "evaluate X m host (Some a) port network cr \<noteq> None"
proof -
  have "(cr = False \<or> ip \<noteq> None) \<longrightarrow> evaluate X m host ip port network cr \<noteq> None" for ip cr
  proof (induction X m host ip port network cr rule: evaluate.induct)
    case (15 X nodes host ip port network cr)
    then have "cr = False \<or> ip \<noteq> None \<Longrightarrow> None \<notin> set (map (\<lambda>m. evaluate X m host ip port network cr) nodes)"
      by fastforce
    then show ?case by (auto simp: logic_loop_eq simp del: set_map)
  next
    case (16 X nodes host ip port network cr)
    then have "cr = False \<or> ip \<noteq> None \<Longrightarrow> None \<notin> set (map (\<lambda>m. evaluate X m host ip port network cr) nodes)"
      by fastforce
    then show ?case by (auto simp: logic_loop_eq simp del: set_map)
  qed (auto simp: on_ip_def split: option.splits if_splits)
  then show "evaluate X m host ip port network False \<noteq> None" "evaluate X m host (Some a) port network cr \<noteq> None"
    by blast+
qed

fun resolving :: "('r, 'x) matcher \<Rightarrow> bool" where
  "resolving (NoResolve m) = False"
| "resolving (Not m) = resolving m"
| "resolving (And ms) = list_all resolving ms"
| "resolving (Or ms) = list_all resolving ms"
| "resolving m = True"

lemma evaluate_lazy:
  assumes "resolving m" and "evaluate X m host None port network True = Some v"
  shows "evaluate X m host ip port network False = Some v"
  using assms
proof (induction m arbitrary: v rule: resolving.induct)
  case (3 ms)
  have "list_all2 (\<lambda>r s. r \<noteq> None \<longrightarrow> s = r)
      (map (\<lambda>m. evaluate X m host None port network True) ms) (map (\<lambda>m. evaluate X m host ip port network False) ms)"
    using 3 by (auto simp: list_all2_conv_all_nth list_all_iff)
  then show ?case using 3(3) logic_loop_mono by simp
next
  case (4 ms)
  have "list_all2 (\<lambda>r s. r \<noteq> None \<longrightarrow> s = r)
      (map (\<lambda>m. evaluate X m host None port network True) ms) (map (\<lambda>m. evaluate X m host ip port network False) ms)"
    using 4 by (auto simp: list_all2_conv_all_nth list_all_iff)
  then show ?case using 4(3) logic_loop_mono by simp
qed (auto simp: on_ip_def split: option.splits)

text \<open>With an address known, asking for a lookup makes no difference.\<close>

lemma evaluate_known: "evaluate X m host (Some a) port network cr = evaluate X m host (Some a) port network False"
proof -
  have "ip \<noteq> None \<longrightarrow> evaluate X m host ip port network cr = evaluate X m host ip port network False" for ip
  proof (induction X m host ip port network cr rule: evaluate.induct)
    case (15 X nodes host ip port network cr)
    then show ?case by (auto cong: map_cong)
  next
    case (16 X nodes host ip port network cr)
    then show ?case by (auto cong: map_cong)
  qed (auto simp: on_ip_def split: option.splits)
  then show ?thesis by blast
qed

lemma bind_matcher_closed:
  assumes "\<And>r m. resolve r = Inr m \<Longrightarrow> references m = []" and "bind_matcher resolve m = Inr m'"
  shows "references m' = []"
  using assms
proof (induction resolve m arbitrary: m' rule: bind_matcher.induct)
  case (4 resolve v)
  then show ?case by (fastforce simp: and_then_Inr dest: map_result_set(2))
next
  case (5 resolve v)
  then show ?case by (fastforce simp: and_then_Inr dest: map_result_set(2))
qed (auto simp: and_then_Inr)


section \<open>Splitting rules into fields\<close>

text \<open>The depth after a piece without a comma at the top level, if the piece is accepted.\<close>

fun scan :: "nat \<Rightarrow> str \<Rightarrow> nat option" where
  "scan d [] = Some d"
| "scan d (c # s) =
     (if c = CHR ''('' then if d + 1 \<le> 32 then scan (d + 1) s else None
      else if c = CHR '')'' then if d > 0 then scan (d - 1) s else None
      else if c = CHR '','' \<and> d = 0 then None
      else scan d s)"

definition field_ok :: "str \<Rightarrow> bool" where
  "field_ok s \<longleftrightarrow> scan 0 s = Some 0 \<and> trimmed s"

lemma scan_append: "scan d (s @ t) = Option.bind (scan d s) (\<lambda>d'. scan d' t)"
  by (induction d s rule: scan.induct) auto

lemma fields_loop_scan:
  "scan d p = Some d' \<Longrightarrow> fields_loop d cur out (p @ s) = fields_loop d' (cur @ p) out s"
  by (induction d p arbitrary: cur rule: scan.induct) (auto split: if_splits)

lemma white_space_plain: "w \<in> set white_space \<Longrightarrow> scan d w = Some d"
  by (auto simp: white_space_def)

lemma scan_trim_start: "scan d (trim_start s) = scan d s"
proof (induction s rule: trim_start.induct)
  case (1 s)
  show ?case
  proof (cases "find (\<lambda>w. prefix w s) white_space")
    case None
    then show ?thesis by (subst trim_start.simps) simp
  next
    case (Some w)
    then have w: "w \<in> set white_space" "prefix w s" by (auto simp: find_Some_iff)
    then obtain t where t: "s = w @ t" by (auto simp: prefix_def)
    have "trim_start s = trim_start (drop (length w) s)" using Some by (subst trim_start.simps) simp
    then show ?thesis using 1 [OF Some] t white_space_plain [OF w(1)] by (simp add: scan_append)
  qed
qed

lemma scan_trim_end: "scan d (trim_end s) = scan d s"
proof (induction s rule: trim_end.induct)
  case (1 s)
  show ?case
  proof (cases "find (\<lambda>w. suffix w s) white_space")
    case None
    then show ?thesis by (subst trim_end.simps) simp
  next
    case (Some w)
    then have w: "w \<in> set white_space" "suffix w s" by (auto simp: find_Some_iff)
    then obtain t where t: "s = t @ w" by (auto simp: suffix_def)
    have "trim_end s = trim_end (take (length s - length w) s)" using Some by (subst trim_end.simps) simp
    then show ?thesis using 1 [OF Some] t white_space_plain [OF w(1)] by (simp add: scan_append split: Option.bind_splits)
  qed
qed

lemma field_ok_trim: "scan 0 s = Some 0 \<Longrightarrow> field_ok (trim s)"
  by (simp add: field_ok_def trimmed_trim) (simp add: trim_def scan_trim_start scan_trim_end)

lemma fields_loop_ok:
  assumes "fields_loop d cur out raw = Inr fs" and "scan 0 cur = Some d"
  shows "\<exists>gs. fs = out @ gs \<and> gs \<noteq> [] \<and> (\<forall>g \<in> set gs. field_ok g) \<and> length (join '','' gs) \<le> length cur + length raw"
  using assms
proof (induction d cur out raw arbitrary: fs rule: fields_loop.induct)
  case (1 d cur out)
  then have "d = 0" "fs = out @ [trim cur]" by (auto simp: and_then_Inr)
  then show ?case using 1 trim_length [of cur] field_ok_trim by auto
next
  case (2 d cur out c raw)
  show ?case
  proof (cases "c = CHR '','' \<and> d = 0")
    case True
    then have "fields_loop d [] (out @ [trim cur]) raw = Inr fs" using 2 by simp
    from 2(3) [OF _ _ True this] True obtain gs where
      gs: "fs = (out @ [trim cur]) @ gs" "gs \<noteq> []" "\<forall>g \<in> set gs. field_ok g" "length (join '','' gs) \<le> length raw"
      by auto
    then show ?thesis
      using 2(6) True field_ok_trim [of cur] trim_length [of cur]
      by (intro exI [of _ "trim cur # gs"]) (auto simp: join_Cons)
  next
    case False
    have *: "\<exists>gs. fs = out @ gs \<and> gs \<noteq> [] \<and> (\<forall>g \<in> set gs. field_ok g) \<and> length (join '','' gs) \<le> length (cur @ [c]) + length raw"
      using 2 False by (auto simp: and_then_Inr scan_append split: if_splits)
    then show ?thesis by simp
  qed
qed

lemma fields_loop_join:
  "gs \<noteq> [] \<Longrightarrow> \<forall>g \<in> set gs. field_ok g \<Longrightarrow> fields_loop 0 [] out (join '','' gs) = Inr (out @ gs)"
proof (induction "'','' :: str" gs arbitrary: out rule: join.induct)
  case (2 s)
  then have "scan 0 s = Some 0" "trim s = s" by (simp_all add: field_ok_def trim_trimmed)
  then show ?case using fields_loop_scan [of 0 s 0 "[]" out "[]"] by simp
next
  case (3 s t ss)
  then have "scan 0 s = Some 0" "trim s = s" by (simp_all add: field_ok_def trim_trimmed)
  then show ?case using fields_loop_scan [of 0 s 0 "[]" out "'','' @ join '','' (t # ss)"] 3 by simp
qed simp

lemma join_take_length: "length (join sep (take k gs)) \<le> length (join sep gs)"
proof (induction gs arbitrary: k)
  case (Cons g gs)
  show ?case
  proof (cases k)
    case (Suc k')
    show ?thesis using Cons [of k'] by (cases "take k' gs = []"; cases "gs = []") (auto simp: Suc join_Cons)
  qed simp
qed simp

lemma fields_join_take:
  assumes "fields raw = Inr fs" and "0 < k"
  shows "fields (join '','' (take k fs)) = Inr (take k fs)"
proof -
  have "length raw \<le> 65536" "fields_loop 0 [] [] raw = Inr fs"
    using assms(1) by (auto simp: fields_def and_then_Inr)
  from fields_loop_ok [OF this(2)] this(1) have
    fs: "fs \<noteq> []" "\<forall>g \<in> set fs. field_ok g" "length (join '','' fs) \<le> 65536" by auto
  then have "fields_loop 0 [] [] (join '','' (take k fs)) = Inr ([] @ take k fs)"
    using assms(2) by (intro fields_loop_join) (auto dest: in_set_takeD)
  then show ?thesis
    using fs(3) join_take_length [of "'',''" k fs] by (simp add: fields_def)
qed



section \<open>What the parser returns\<close>

text \<open>The matchers a rule text can stand for, and how deep their logical operators are nested.\<close>

fun parsed_matcher :: "('r, 'x) matcher \<Rightarrow> bool" where
  "parsed_matcher (Domain d) \<longleftrightarrow> to_ascii_lowercase d = d"
| "parsed_matcher (Suffix d) \<longleftrightarrow> to_ascii_lowercase d = d"
| "parsed_matcher (Keyword d) \<longleftrightarrow> to_ascii_lowercase d = d"
| "parsed_matcher (GeoIp d) \<longleftrightarrow> to_ascii_lowercase d = d"
| "parsed_matcher (GeoSite d) \<longleftrightarrow> to_ascii_lowercase d = d"
| "parsed_matcher (Ports rs) \<longleftrightarrow> rs \<noteq> [] \<and> (\<forall>(a, b) \<in> set rs. 0 < a \<and> a \<le> b)"
| "parsed_matcher (Network n) \<longleftrightarrow> n = ''tcp'' \<or> n = ''udp''"
| "parsed_matcher (And ms) \<longleftrightarrow> ms \<noteq> [] \<and> (\<forall>m \<in> set ms. parsed_matcher m)"
| "parsed_matcher (Or ms) \<longleftrightarrow> ms \<noteq> [] \<and> (\<forall>m \<in> set ms. parsed_matcher m)"
| "parsed_matcher (Not m) \<longleftrightarrow> parsed_matcher m"
| "parsed_matcher (NoResolve m) \<longleftrightarrow> parsed_matcher m"
| "parsed_matcher (Regex r) \<longleftrightarrow> True"
| "parsed_matcher (Net n) \<longleftrightarrow> True"
| "parsed_matcher (RuleSet s) \<longleftrightarrow> True"
| "parsed_matcher (Port p) \<longleftrightarrow> False"
| "parsed_matcher (Domains d) \<longleftrightarrow> False"
| "parsed_matcher (Nets d) \<longleftrightarrow> False"
| "parsed_matcher (ExternalIp d) \<longleftrightarrow> False"
| "parsed_matcher All \<longleftrightarrow> False"

fun nesting :: "nat \<Rightarrow> ('r, 'x) matcher \<Rightarrow> bool" where
  "nesting n (And ms) \<longleftrightarrow> n > 0 \<and> (\<forall>m \<in> set ms. nesting (n - 1) m)"
| "nesting n (Or ms) \<longleftrightarrow> n > 0 \<and> (\<forall>m \<in> set ms. nesting (n - 1) m)"
| "nesting n (Not m) \<longleftrightarrow> n > 0 \<and> nesting (n - 1) m"
| "nesting n (NoResolve m) \<longleftrightarrow> nesting n m"
| "nesting n m \<longleftrightarrow> True"

lemma lowercase_iff: "to_ascii_lowercase s = s \<longleftrightarrow> (\<forall>c \<in> set s. ascii_lower c = c)"
  by (auto simp: to_ascii_lowercase_def map_idI intro: map_idI) (metis map_eq_conv map_ident)

lemma lowercase_sub: "set s \<subseteq> set t \<Longrightarrow> to_ascii_lowercase t = t \<Longrightarrow> to_ascii_lowercase s = s"
  by (auto simp: lowercase_iff)

lemma set_trim_matches: "set (trim_end_matches c s) \<subseteq> set s" "set (trim_matches c s) \<subseteq> set s"
  by (auto simp: trim_end_matches_def trim_matches_def dest!: set_dropWhileD)

lemma bounds_ok: "bounds r = Inr (a, b) \<Longrightarrow> 0 < a \<and> a \<le> b"
  by (auto simp: bounds_def and_then_Inr)

lemma parse_leaf_parsed:
  assumes "parse_leaf X kind raw (to_ascii_lowercase raw) = Inr m"
  shows "parsed_matcher m \<and> nesting n m"
proof -
  have low: "to_ascii_lowercase (trim_end_matches (CHR ''.'') (to_ascii_lowercase raw)) = trim_end_matches (CHR ''.'') (to_ascii_lowercase raw)"
    "to_ascii_lowercase (trim_matches (CHR ''.'') (to_ascii_lowercase raw)) = trim_matches (CHR ''.'') (to_ascii_lowercase raw)"
    by (rule lowercase_sub [OF set_trim_matches(1)], simp) (rule lowercase_sub [OF set_trim_matches(2)], simp)
  have ports: "ports \<noteq> [] \<and> (\<forall>(a, b) \<in> set ports. 0 < a \<and> a \<le> b)"
    if "map_result (\<lambda>part. bounds (Range part)) (split_on c s) = Inr ports" for ports c s
  proof -
    have "length ports = length (split_on c s)" using that by (simp add: map_result_Inr)
    then show ?thesis using map_result_set(2) [OF that] bounds_ok by fastforce
  qed
  have split: "(if c then t else e) = Inr m \<Longrightarrow> (t = Inr m \<Longrightarrow> P) \<Longrightarrow> (e = Inr m \<Longrightarrow> P) \<Longrightarrow> P"
    for c t e P by (cases c) simp_all
  show ?thesis
    using assms unfolding parse_leaf_def
    by (elim split) (auto simp: and_then_Inr low dest!: ports)
qed

lemma parse_depth_parsed:
  "parse_depth X raw depth = Inr m \<Longrightarrow> parsed_matcher m \<and> nesting (31 - depth) m"
proof (induction "32 - depth" arbitrary: raw depth m rule: less_induct)
  case less
  have d: "depth < 32" using less.prems by (subst (asm) parse_depth.simps) (auto split: if_splits)
  have nodes: "(\<forall>m \<in> set nodes. parsed_matcher m \<and> nesting (31 - (depth + 1)) m) \<and> length nodes = length parts \<and> (parts \<noteq> [] \<longrightarrow> depth < 31)"
    if n: "map_result (\<lambda>p. and_then (unwrap p) (\<lambda>u. parse_depth X u (depth + 1))) parts = Inr nodes" for parts nodes
  proof -
    have "\<forall>m \<in> set nodes. \<exists>u. parse_depth X u (depth + 1) = Inr m"
      using map_result_set(2) [OF n] by (auto simp: and_then_Inr)
    moreover have l: "length nodes = length parts" using n by (simp add: map_result_Inr)
    moreover have "depth < 31" if p: "parts \<noteq> []"
    proof -
      have "nodes ! 0 \<in> set nodes" using p l by simp
      then obtain u where "parse_depth X u (depth + 1) = Inr (nodes ! 0)" using calculation by blast
      then show ?thesis by (subst (asm) parse_depth.simps) (auto split: if_splits)
    qed
    ultimately show ?thesis using less.hyps [of "depth + 1"] d by fastforce
  qed
  obtain f m' where m': "m = m' \<or> m = NoResolve m'"
      and alt: "parse_leaf X (f ! 0) (f ! 1) (to_ascii_lowercase (f ! 1)) = Inr m' \<or>
        (\<exists>parts nodes. parts \<noteq> [] \<and>
           map_result (\<lambda>p. and_then (unwrap p) (\<lambda>u. parse_depth X u (depth + 1))) parts = Inr nodes \<and>
           (m' = And nodes \<or> m' = Or nodes \<or> length nodes = 1 \<and> m' = Not (nodes ! 0)))"
    using less.prems by (subst (asm) parse_depth.simps) (auto simp: and_then_Inr Let_def split: if_splits)
  from alt have "parsed_matcher m' \<and> nesting (31 - depth) m'"
  proof (elim disjE exE conjE)
    assume "parse_leaf X (f ! 0) (f ! 1) (to_ascii_lowercase (f ! 1)) = Inr m'"
    then show ?thesis by (rule parse_leaf_parsed)
  qed (use nodes in \<open>fastforce\<close>)+
  then show ?case using m' by auto
qed



section \<open>Properties\<close>

text \<open>Instances of the crates' functions at which the definitions below are evaluated.\<close>

definition no_crates :: "(unit, unit) crates" where
  "no_crates =
     \<lparr>compile_regex = \<lambda>_. Inl ''regex'', regex_new = \<lambda>_. Inl ''regex'', regex_escape = \<lambda>s. s,
      is_match = \<lambda>_ _. False, parse_net = \<lambda>_. Inl ''net'', external_matches = \<lambda>_ _. False\<rparr>"

text \<open>C7: A set of networks built by \<^verbatim>\<open>IpSet::new\<close> matches exactly the addresses that one of the networks
  contains, or exactly the others when it is inverted: sorting, merging and the binary search lose and
  add no address, up to the last address of the space where the successor saturates.\<close>

theorem ip_set_matches_nets:
  assumes "\<forall>n \<in> set nets. net_ok n"
  shows "ip_set_matches (ip_set_new nets invert) ip \<longleftrightarrow> (\<exists>n \<in> set nets. net_contains n ip) \<noteq> invert"
  using assms by (rule ip_set_correct)

theorem ip_set_matches_nets_witness:
  "ip_set_matches (ip_set_new [Net4 10 20, Net4 21 30, Net6 0 7] False) (V4 25)"
proof -
  have "\<forall>n \<in> set [Net4 10 20, Net4 21 30, Net6 0 7]. net_ok n" by simp
  from ip_set_matches_nets [OF this, of False "V4 25"] show ?thesis by simp
qed

text \<open>C29: A domain set matches a host exactly when the host is one of its names, is or ends, after a dot, in
  one of its suffixes, contains one of its keywords or matches one of its expressions: walking the
  host label by label finds every suffix and never matches inside a label.\<close>

theorem domain_set_matches_iff:
  "domain_set_matches X d host \<longleftrightarrow>
     host \<in> exact d \<or> (\<exists>s \<in> suffixes d. host = s \<or> suffix (CHR ''.'' # s) host)
     \<or> (\<exists>k \<in> set (keyword_list d). sublist k host) \<or> (\<exists>r \<in> set (regexes d). is_match X r host)"
  unfolding domain_set_matches_def suffix_loop_iff by (auto simp: list_ex_iff)

text \<open>Splitting a rule into its fields is stable: the first fields joined again, the text that
  \<^verbatim>\<open>Rule::parse\<close> gives to the condition parser, are split into the same fields, and no length or nesting
  limit is newly exceeded.\<close>

theorem fields_stable:
  assumes "fields raw = Inr fs" and "0 < k"
  shows "fields (join '','' (take k fs)) = Inr (take k fs)"
  using assms by (rule fields_join_take)

theorem fields_stable_witness:
  "fields (join '','' (take 2 [''AND'', ''((NETWORK, tcp),(DST-PORT,80))'', ''DIRECT''])) =
     Inr [''AND'', ''((NETWORK, tcp),(DST-PORT,80))'']"
proof -
  have "fields ''AND,((NETWORK, tcp),(DST-PORT,80)),DIRECT'' =
      Inr [''AND'', ''((NETWORK, tcp),(DST-PORT,80))'', ''DIRECT'']"
    by (simp add: fields_def trim_graphic graphic_def)
  from fields_stable [OF this, of 2] show ?thesis by simp
qed

text \<open>C28: What the condition parser returns is well formed: names are in lower case, port ranges are
  non-empty and exclude port 0, a network is tcp or udp, a logical operator has an operand, no internal
  set or catch-all appears, and logical operators are nested at most 31 deep.\<close>

theorem parse_condition_parsed:
  assumes "parse_condition X raw = Inr m"
  shows "parsed_matcher m \<and> nesting 31 m"
  using parse_depth_parsed [of X raw 0 m] assms by (simp add: parse_condition_def)

theorem parse_condition_parsed_witness:
  "parsed_matcher (And [Network ''tcp'', Ports [(80, 443)]] :: (unit, unit) matcher)"
proof -
  have f: "fields ''NETWORK,TCP'' = Inr [''NETWORK'', ''TCP'']" "fields ''DST-PORT,80-443'' = Inr [''DST-PORT'', ''80-443'']"
    "fields ''AND,((NETWORK,TCP),(DST-PORT,80-443))'' = Inr [''AND'', ''((NETWORK,TCP),(DST-PORT,80-443))'']"
    "fields ''(NETWORK,TCP),(DST-PORT,80-443)'' = Inr [''(NETWORK,TCP)'', ''(DST-PORT,80-443)'']"
    by (simp_all add: fields_def trim_graphic graphic_def)
  have low: "to_ascii_lowercase ''TCP'' = ''tcp''" "to_ascii_lowercase ''80-443'' = ''80-443''"
    "to_ascii_lowercase ''((NETWORK,TCP),(DST-PORT,80-443))'' = ''((network,tcp),(dst-port,80-443))''"
    by code_simp+
  have n: "parse_depth no_crates ''NETWORK,TCP'' 1 = Inr (Network ''tcp'')"
    by (subst parse_depth.simps) (simp add: f logical_kinds_def parse_leaf_def low)
  have p: "parse_depth no_crates ''DST-PORT,80-443'' 1 = Inr (Ports [(80, 443)])"
    by (subst parse_depth.simps)
      (simp add: f logical_kinds_def parse_leaf_def low bounds_def split_once_def
        parse_port_def parse_unsigned_def is_digit_def digits_value_def)
  have "parse_condition no_crates ''AND,((NETWORK,TCP),(DST-PORT,80-443))'' = Inr (And [Network ''tcp'', Ports [(80, 443)]])"
    unfolding parse_condition_def
    by (subst parse_depth.simps)
      (simp add: f n [simplified] p [simplified] logical_kinds_def logical_parts_def low unwrap_def
        strip_prefix_def strip_suffix_def suffix_def prefix_def)
  from parse_condition_parsed [OF this] show ?thesis by simp
qed

text \<open>Binding a rule to loaded data leaves no reference to geographic data or rule sets, provided
  the data that references resolve to has none: every condition of a bound rule is decided by its own
  contents.\<close>

theorem bind_matcher_no_references:
  assumes "\<And>r m. resolve r = Inr m \<Longrightarrow> references m = []" and "bind_matcher resolve m = Inr m'"
  shows "references m' = []"
  using assms by (rule bind_matcher_closed)

theorem bind_matcher_no_references_witness:
  "references (Not (NoResolve (Or []) :: (unit, unit) matcher)) = []"
proof -
  have "bind_matcher (\<lambda>_. Inr (Or [])) (Not (NoResolve (GeoIp ''cn''))) = Inr (Not (NoResolve (Or [])))" by simp
  from bind_matcher_no_references [OF _ this] show ?thesis by auto
qed


end
