(* ===== verification/Config.thy ===== *)
theory Config
  imports Rules Complex_Main
begin

text \<open>
  The configuration of \<^verbatim>\<open>crates/config\<close>: its types, the checks of \<^verbatim>\<open>Config::validate\<close> in the order in
  which the source makes them, the normalisation that \<^verbatim>\<open>Config::parse\<close> applies, and the rewriting of
  \<^verbatim>\<open>Config::retain_vless\<close>. What the YAML, base64, UUID and SHA-1 crates and the floating-point unit
  compute are the fields of the record \<open>libs\<close>.
\<close>

section \<open>Types\<close>

text \<open>\<^verbatim>\<open>Ipv4Net\<close> and \<^verbatim>\<open>Ipv6Net\<close> of the \<^verbatim>\<open>ipnet\<close> crate, by their network and broadcast addresses.\<close>

type_synonym ipv4_net = "u32 \<times> u32"
type_synonym ipv6_net = "u128 \<times> u128"

datatype mode = Rule | Global | Direct

datatype proxy_kind = Vless | Hysteria2 | Trojan

datatype group_kind = Select | UrlTest

datatype strings = One str | Many "str list"

datatype yaml_value = Yaml str

record log_options =
  log_log_level :: str
  log_path :: str
  max_size :: u64
  max_age :: u64
  max_backups :: u64
  compress :: bool

record reality =
  public_key :: str
  short_id :: str

record ws_options =
  ws_path :: str
  headers :: "(str \<times> str) list"
  max_early_data :: u64
  early_data_header_name :: str
  v2ray_http_upgrade :: bool
  v2ray_http_upgrade_fast_open :: bool

record grpc_options =
  grpc_service_name :: str
  grpc_user_agent :: str
  ping_interval :: u64
  max_connections :: u64
  min_streams :: u64
  max_streams :: u64

record proxy =
  p_name :: str
  p_kind :: proxy_kind
  server :: str
  p_port :: u16
  uuid :: "bytes option"
  password :: str
  tls :: bool
  udp :: bool
  servername :: "str option"
  sni :: "str option"
  skip_cert_verify :: bool
  alpn :: "str list"
  network :: str
  flow :: str
  client_fingerprint :: "str option"
  reality_opts :: "reality option"
  packet_encoding :: "str option"
  xudp :: bool
  obfs :: "str option"
  obfs_password :: str
  ports :: "str option"
  hop_interval :: str
  up :: "str option"
  down :: "str option"
  ip_version :: str
  tfo :: bool
  ws_opts :: ws_options
  grpc_opts :: grpc_options
  protocol :: str
  auth_str :: str
  recv_window_conn :: "yaml_value option"
  recv_window :: "yaml_value option"
  disable_mtu_discovery :: bool
  fast_open :: bool

record group =
  g_name :: str
  g_kind :: group_kind
  g_proxies :: "str list"
  g_url :: str
  g_interval :: u64
  tolerance :: u64

record rule_provider =
  rp_kind :: str
  behavior :: str
  rp_format :: str
  rp_path :: str
  rp_url :: str
  rp_interval :: u64
  payload :: "str list"

record geo_urls =
  geoip :: str
  geosite :: str
  mmdb :: str

record profile =
  store_selected :: bool
  store_fake_ip :: bool

record ntp =
  ntp_enable :: bool
  write_to_system :: bool
  ntp_server :: str
  ntp_port :: u16
  ntp_interval :: u64

record sniff_protocol =
  sniff_ports :: "port_range list"
  override_destination :: bool

record sniffer =
  sniffer_enable :: bool
  sniff :: "(str \<times> sniff_protocol) list"
  force_domain :: "str list"
  skip_domain :: "str list"

record dns =
  dns_enable :: bool
  listen_address :: str
  nameserver :: "str list"
  default_nameserver :: "str list"
  enhanced_mode :: str
  fake_ip_range :: ipv4_net
  fake_ip_range6 :: ipv6_net
  fake_ip_filter :: "str list"
  dns_ipv6 :: bool
  proxy_server_nameserver :: "str list"
  nameserver_policy :: "(str \<times> strings) list"

record tun =
  tun_enable :: bool
  stack :: str
  device :: str
  auto_route :: bool
  auto_detect_interface :: bool
  interface :: "str option"
  mtu :: u16
  route_exclude_address :: "ip_net list"
  dns_hijack :: "str list"

text \<open>The ordered maps of the source, \<^verbatim>\<open>BTreeMap\<close>, are lists of pairs in increasing order of the keys.\<close>

record config =
  port :: u16
  socks_port :: u16
  mixed_port :: u16
  allow_lan :: bool
  bind_address :: str
  authentication :: "str list"
  cfg_mode :: mode
  ipv6 :: bool
  log_level :: str
  log_opts :: log_options
  proxies :: "proxy list"
  proxy_groups :: "group list"
  rules :: "str list"
  dns_opts :: dns
  tun_opts :: tun
  external_controller :: "str option"
  secret :: str
  rule_providers :: "(str \<times> rule_provider) list"
  geodata_mode :: bool
  geox_url :: geo_urls
  geo_auto_update :: bool
  geo_update_interval :: u64
  unified_delay :: bool
  tcp_concurrent :: bool
  external_ui :: str
  find_process_mode :: str
  keep_alive_interval :: u64
  global_client_fingerprint :: str
  hosts :: "(str \<times> strings) list"
  profile_opts :: profile
  ntp_opts :: ntp
  sniffer_opts :: sniffer
  directory :: str
  internal_allow_native_profile :: bool


section \<open>Defaults\<close>

definition ws_options_default :: ws_options where
  "ws_options_default =
     \<lparr>ws_path = ''/'', headers = [], max_early_data = 0, early_data_header_name = [],
      v2ray_http_upgrade = False, v2ray_http_upgrade_fast_open = False\<rparr>"

definition grpc_options_default :: grpc_options where
  "grpc_options_default =
     \<lparr>grpc_service_name = ''GunService'', grpc_user_agent = ''grpc-go/1.36.0'', ping_interval = 0,
      max_connections = 0, min_streams = 0, max_streams = 0\<rparr>"

definition log_default :: log_options where
  "log_default =
     \<lparr>log_log_level = ''info'', log_path = [], max_size = 10, max_age = 3, max_backups = 0, compress = True\<rparr>"

definition geo_urls_default :: geo_urls where
  "geo_urls_default =
     \<lparr>geoip = ''https://github.com/MetaCubeX/meta-rules-dat/releases/download/latest/geoip.dat'',
      geosite = ''https://github.com/MetaCubeX/meta-rules-dat/releases/download/latest/geosite.dat'',
      mmdb = ''https://github.com/MetaCubeX/meta-rules-dat/releases/download/latest/country.mmdb''\<rparr>"

definition ntp_default :: ntp where
  "ntp_default =
     \<lparr>ntp_enable = False, write_to_system = False, ntp_server = ''time.apple.com'', ntp_port = 123,
      ntp_interval = 30\<rparr>"

definition dns_default :: dns where
  "dns_default =
     \<lparr>dns_enable = False, listen_address = ''127.0.0.1:1053'', nameserver = [''https://1.1.1.1/dns-query''],
      default_nameserver = [''1.1.1.1''], enhanced_mode = ''fake-ip'',
      fake_ip_range = (0xC6120000, 0xC612FFFF),
      fake_ip_range6 = (0xFDFEDCBA987600000000000000000000, 0xFDFEDCBA98760000FFFFFFFFFFFFFFFF),
      fake_ip_filter = [''localhost'', ''*.local''], dns_ipv6 = True, proxy_server_nameserver = [],
      nameserver_policy = []\<rparr>"

definition tun_default :: tun where
  "tun_default =
     \<lparr>tun_enable = False, stack = ''gvisor'', device = ''meta-rust'', auto_route = True,
      auto_detect_interface = True, interface = None, mtu = 1500, route_exclude_address = [],
      dns_hijack = [''any:53'']\<rparr>"

definition config_default :: config where
  "config_default =
     \<lparr>port = 0, socks_port = 0, mixed_port = 0, allow_lan = False, bind_address = ''*'',
      authentication = [], cfg_mode = Rule, ipv6 = True, log_level = ''info'', log_opts = log_default,
      proxies = [], proxy_groups = [], rules = [''MATCH,DIRECT''], dns_opts = dns_default,
      tun_opts = tun_default, external_controller = None, secret = [], rule_providers = [],
      geodata_mode = False, geox_url = geo_urls_default, geo_auto_update = False,
      geo_update_interval = 24, unified_delay = False, tcp_concurrent = False, external_ui = [],
      find_process_mode = ''strict'', keep_alive_interval = 30,
      global_client_fingerprint = ''chrome'', hosts = [],
      profile_opts = \<lparr>store_selected = False, store_fake_ip = False\<rparr>, ntp_opts = ntp_default,
      sniffer_opts = \<lparr>sniffer_enable = False, sniff = [], force_domain = [], skip_domain = []\<rparr>,
      directory = ''.'', internal_allow_native_profile = False\<rparr>"

section \<open>Small parsers\<close>

record libs =
  yaml_config :: "bytes \<Rightarrow> config result"
  base64_decode :: "str \<Rightarrow> bytes result"
  uuid_parse :: "str \<Rightarrow> bytes option"
  sha1 :: "bytes \<Rightarrow> bytes"
  f64_rate :: "str \<Rightarrow> nat \<Rightarrow> rat option result"

fun strings_values :: "strings \<Rightarrow> str list" where
  "strings_values (One v) = [v]"
| "strings_values (Many v) = v"

text \<open>A text that is not a UUID is the name of a version 5 UUID in the nil name space.\<close>

definition relaxed_uuid :: "libs \<Rightarrow> str option \<Rightarrow> bytes option result" where
  "relaxed_uuid L val =
     (case val of
        None \<Rightarrow> Inr None
      | Some v \<Rightarrow>
          if v = [] then Inl ''VLESS uuid must not be empty''
          else
            (case uuid_parse L v of
               Some i \<Rightarrow> Inr (Some i)
             | None \<Rightarrow>
                 let b = take 16 (sha1 L (replicate 16 0 @ str_bytes v));
                     b = b[6 := (b ! 6 AND 0x0F) OR 0x50];
                     b = b[8 := (b ! 8 AND 0x3F) OR 0x80]
                 in Inr (Some b)))"

definition dns_upstream :: "str \<Rightarrow> bool" where
  "dns_upstream v \<longleftrightarrow>
     v \<noteq> [] \<and> (\<not> sublist ''://'' v
       \<or> list_ex (\<lambda>p. prefix p v) [''udp://'', ''tcp://'', ''tls://'', ''https://''])"

definition duration_seconds :: "str \<Rightarrow> nat result" where
  "duration_seconds v =
     (let (digits, mul) =
        (case strip_suffix ''s'' v of
           Some s \<Rightarrow> (s, 1)
         | None \<Rightarrow> (case strip_suffix ''m'' v of Some s \<Rightarrow> (s, 60) | None \<Rightarrow> (v, 1)))
      in and_then (parse_unsigned u64_max digits) (\<lambda>n.
         and_then (ensure (n * mul \<le> u64_max) ''duration overflow'') (\<lambda>_.
         and_then (ensure (n * mul \<ge> 5) ''hop interval must be at least 5s'') (\<lambda>_. Inr (n * mul)))))"

text \<open>\<^verbatim>\<open>f64_rate\<close> is the product of the parsed number and the scale divided by 8, if it is finite.\<close>

definition bandwidth :: "libs \<Rightarrow> str \<Rightarrow> nat result" where
  "bandwidth L val =
     (let v = to_ascii_lowercase (trim val);
          (number, scale) =
            (case strip_suffix ''gbps'' v of Some n \<Rightarrow> (n, 1000000000) | None \<Rightarrow>
            (case strip_suffix ''mbps'' v of Some n \<Rightarrow> (n, 1000000) | None \<Rightarrow>
            (case strip_suffix ''kbps'' v of Some n \<Rightarrow> (n, 1000) | None \<Rightarrow> (v, 1000000))))
      in and_then (f64_rate L (trim number) scale) (\<lambda>rate.
         (case rate of
            Some r \<Rightarrow> if 1 \<le> r \<and> r \<le> 10 ^ 12 then Inr (nat \<lfloor>r\<rfloor>) else Inl ''invalid bandwidth''
          | None \<Rightarrow> Inl ''invalid bandwidth'')))"

definition port_bounds :: "str \<Rightarrow> (u16 \<times> u16) result" where
  "port_bounds part =
     (case split_once (CHR ''-'') (trim part) of
        Some (a, b) \<Rightarrow> and_then (parse_port a) (\<lambda>a. and_then (parse_port b) (\<lambda>b. Inr (a, b)))
      | None \<Rightarrow> and_then (parse_port (trim part)) (\<lambda>n. Inr (n, n)))"

definition port_span :: "u16 \<Rightarrow> u16 \<Rightarrow> u16 list" where
  "port_span lo hi = map word_of_nat [unat lo..<Suc (unat hi)]"

fun port_list_loop :: "u16 list \<Rightarrow> str list \<Rightarrow> u16 list result" where
  "port_list_loop out [] = Inr out"
| "port_list_loop out (part # parts) =
     and_then (port_bounds part) (\<lambda>(lo, hi).
     and_then (ensure (lo > 0 \<and> lo \<le> hi) ''invalid port range'') (\<lambda>_.
     let out = out @ port_span lo hi
     in and_then (ensure (length out \<le> 65535) ''too many hopping ports'') (\<lambda>_. port_list_loop out parts)))"

definition port_list :: "proxy \<Rightarrow> u16 list result" where
  "port_list p =
     (case ports p of
        None \<Rightarrow> Inr [p_port p]
      | Some s \<Rightarrow>
          and_then (port_list_loop [] (split_on (CHR '','') s)) (\<lambda>out.
            if out = [] then Inl ''empty port list'' else Inr out))"

end
