(* ===== verification/Validate.thy ===== *)
theory Validate
  imports Config
begin

text \<open>
  \<^verbatim>\<open>Config::validate\<close> and the operations that end in it. The checks stand in the order of the source,
  so that a configuration with several faults is refused with the message the program prints.
\<close>

section \<open>Proxies\<close>

definition fingerprints :: "str list" where
  "fingerprints =
     [''chrome'', ''firefox'', ''safari'', ''ios'', ''android'', ''edge'', ''360'', ''qq'', ''random'', ''randomized'']"

definition reality_checks :: "libs \<Rightarrow> reality \<Rightarrow> unit result" where
  "reality_checks L r =
     and_then (base64_decode L (public_key r)) (\<lambda>key.
       checks
        [(length key = 32, ''reality public-key must be 32 bytes''),
         (length (short_id r) \<le> 16 \<and> length (short_id r) mod 2 = 0
            \<and> list_all (\<lambda>c. to_digit 16 c \<noteq> None) (short_id r), ''invalid reality short-id'')])"

definition vless_checks :: "libs \<Rightarrow> config \<Rightarrow> proxy \<Rightarrow> unit result" where
  "vless_checks L cfg p =
     and_then
       (checks
         [(case client_fingerprint p of
             None \<Rightarrow> True
           | Some v \<Rightarrow> internal_allow_native_profile cfg \<and> v = ''native'' \<or> v \<in> set fingerprints,
           ''proxies[{index}].client-fingerprint: unknown TLS profile''),
          (list_all (\<lambda>v. v \<noteq> [] \<and> length v \<le> 255) (alpn p), ''proxies[{index}].alpn: entries must be 1..255 bytes''),
          (uuid p \<noteq> None, ''proxy {}: uuid required''),
          (flow p = [] \<or> flow p = ''xtls-rprx-vision'', ''unsupported flow for {}''),
          (flow p = [] \<or> network p = ''tcp'', ''Vision only supports network tcp''),
          (max_early_data (ws_opts p) \<le> 65535, ''proxies[{index}].ws-opts.max-early-data is too large''),
          (v2ray_http_upgrade_fast_open (ws_opts p) \<longrightarrow> v2ray_http_upgrade (ws_opts p),
           ''proxies[{index}].ws-opts fast-open requires v2ray-http-upgrade''),
          (network p = ''ws'' \<or> ws_opts p = ws_options_default, ''proxies[{index}].ws-opts requires network: ws''),
          (max_connections (grpc_opts p) \<le> 1024, ''proxies[{index}].grpc-opts.max-connections is too large''),
          (min_streams (grpc_opts p) \<le> 65535, ''proxies[{index}].grpc-opts.min-streams is too large''),
          (max_streams (grpc_opts p) \<le> 65535, ''proxies[{index}].grpc-opts.max-streams is too large''),
          (max_streams (grpc_opts p) = 0 \<or> max_connections (grpc_opts p) = 0 \<and> min_streams (grpc_opts p) = 0,
           ''proxies[{index}].grpc-opts.max-streams conflicts with max-connections/min-streams''),
          (min_streams (grpc_opts p) = 0 \<or> max_connections (grpc_opts p) > 0,
           ''proxies[{index}].grpc-opts.min-streams requires max-connections''),
          (network p = ''grpc'' \<or> grpc_opts p = grpc_options_default, ''proxies[{index}].grpc-opts requires network: grpc''),
          (flow p = [] \<or> tls p \<or> reality_opts p \<noteq> None, ''Vision requires TLS 1.3'')])
       (\<lambda>_. and_then (case reality_opts p of None \<Rightarrow> Inr () | Some r \<Rightarrow> reality_checks L r)
       (\<lambda>_. case packet_encoding p of
               None \<Rightarrow> Inr ()
             | Some enc \<Rightarrow> ensure (enc = ''xudp'' \<or> enc = []) ''unsupported packet-encoding''))"

definition hysteria2_checks :: "libs \<Rightarrow> proxy \<Rightarrow> unit result" where
  "hysteria2_checks L p =
     (if auth_str p \<noteq> [] \<and> password p = [] then Inr ()
      else
        and_then
          (checks
            [(password p \<noteq> [], ''proxy {}: password required''),
             (case obfs p of None \<Rightarrow> True | Some v \<Rightarrow> v = ''salamander'', ''only salamander obfs supported''),
             (obfs p = None \<or> obfs_password p \<noteq> [], ''obfs-password required'')])
          (\<lambda>_. and_then (port_list p)
          (\<lambda>_. and_then (duration_seconds (hop_interval p))
          (\<lambda>_. for_each (\<lambda>v. and_then (bandwidth L v) (\<lambda>_. Inr ()))
                 (List.map_filter id [up p, down p])))))"

text \<open>The loop over the proxies; it collects the names in use.\<close>

fun proxies_loop :: "libs \<Rightarrow> config \<Rightarrow> str set \<Rightarrow> proxy list \<Rightarrow> str set result" where
  "proxies_loop L cfg names [] = Inr names"
| "proxies_loop L cfg names (p # ps) =
     and_then
       (checks
         [(p_name p \<noteq> [] \<and> p_name p \<notin> names, ''duplicate/reserved proxy name: {}''),
          (server p \<noteq> [] \<and> p_port p \<noteq> 0, ''proxy {}: server/port required''),
          (p_kind p \<noteq> Vless \<or> network p \<in> set [''tcp'', ''ws'', ''grpc''],
           ''proxy {}: VLESS network must be tcp, ws, or grpc'')])
       (\<lambda>_. and_then
         (case p_kind p of
            Vless \<Rightarrow> vless_checks L cfg p
          | Hysteria2 \<Rightarrow> hysteria2_checks L p
          | Trojan \<Rightarrow> Inr ())
       (\<lambda>_. proxies_loop L cfg (insert (p_name p) names) ps))"

section \<open>Groups\<close>

fun groups_loop :: "str set \<Rightarrow> group list \<Rightarrow> str set result" where
  "groups_loop names [] = Inr names"
| "groups_loop names (g # gs) =
     and_then
       (checks
         [(g_name g \<noteq> [] \<and> g_name g \<notin> names, ''duplicate/reserved group name: {}''),
          (g_proxies g \<noteq> [], ''empty group {}''),
          (g_interval g > 0, ''group interval must be positive'')])
       (\<lambda>_. groups_loop (insert (g_name g) names) gs)"

text \<open>The hash map from names to groups; a later group replaces an earlier one of the same name.\<close>

definition group_named :: "group list \<Rightarrow> str \<Rightarrow> group option" where
  "group_named gs n = find (\<lambda>g. g_name g = n) (rev gs)"

lemma group_named_Some: "group_named gs n = Some g \<Longrightarrow> g \<in> set gs \<and> g_name g = n"
  by (auto simp: group_named_def find_Some_iff) (metis nth_mem set_rev length_rev)

text \<open>
  \<^verbatim>\<open>visit\<close> walks the members of a group depth first. The set of the groups on the path to it is
  extended for the members and is again what it was when the walk returns, so it is passed down.
\<close>

function visit :: "group list \<Rightarrow> str set \<Rightarrow> str set \<Rightarrow> str \<Rightarrow> unit result" where
  "visit gs names path n =
     and_then (ensure (n \<in> names \<and> n \<noteq> ''GLOBAL'') ''unknown or invalid group target: {name}'') (\<lambda>_.
       case group_named gs n of
         None \<Rightarrow> Inr ()
       | Some g \<Rightarrow>
           if n \<in> path then Inl ''cyclic group: {name}''
           else for_each (visit gs names (insert n path)) (g_proxies g))"
  by pat_completeness auto
termination
proof (relation "measure (\<lambda>(gs, names, path, n). card (g_name ` set gs - path))")
  fix gs names path n g child
  assume "group_named gs n = Some g" and "n \<notin> path"
  then have "n \<in> g_name ` set gs - path" using group_named_Some by blast
  then have "card (g_name ` set gs - insert n path) < card (g_name ` set gs - path)"
    by (intro psubset_card_mono) auto
  then show "((gs, names, insert n path, child), (gs, names, path, n)) \<in> measure (\<lambda>(gs, names, path, n). card (g_name ` set gs - path))"
    by simp
qed simp

declare visit.simps [simp del]

section \<open>Rules and the rest\<close>

definition rule_checks :: "('r, 'x) crates \<Rightarrow> config \<Rightarrow> str set \<Rightarrow> str \<Rightarrow> unit result" where
  "rule_checks X cfg names raw =
     and_then (rule_parse X raw) (\<lambda>r.
     and_then (ensure (target r \<in> names) ''rules[{i}]: unknown target {}'') (\<lambda>_.
       for_each (\<lambda>(k, n). if k = ''rule-set'' then
           ensure (n \<in> fst ` set (rule_providers cfg)) ''rules[{i}]: unknown rule provider'' else Inr ())
         (references (matcher r))))"

definition provider_checks :: "rule_provider \<Rightarrow> unit result" where
  "provider_checks p =
     checks
      [(rp_kind p \<in> set [''http'', ''file'', ''inline''], ''invalid rule provider type''),
       (behavior p \<in> set [''domain'', ''ipcidr'', ''classical''], ''invalid rule provider behavior''),
       (rp_format p \<in> set [''yaml'', ''text''], ''invalid rule provider format''),
       (rp_kind p = ''inline'' \<or> rp_path p \<noteq> [], ''rule provider path is required''),
       (rp_kind p \<noteq> ''http'' \<or> prefix ''https://'' (rp_url p) \<or> prefix ''http://'' (rp_url p),
        ''HTTP rule provider URL is required'')]"

text \<open>A control character is one of U+0000 to U+001F and U+007F to U+009F.\<close>

definition has_control :: "str \<Rightarrow> bool" where
  "has_control s \<longleftrightarrow>
     list_ex (\<lambda>c. (of_char c :: nat) < 0x20 \<or> (of_char c :: nat) = 0x7F) s
     \<or> list_ex (\<lambda>(c, d). c = CHR 0xC2 \<and> (0x80 :: nat) \<le> of_char d \<and> of_char d \<le> (0x9F :: nat)) (zip s (tl s))"

definition dns_hijack_valid :: "str \<Rightarrow> bool" where
  "dns_hijack_valid v0 =
     (let v = (case strip_prefix ''tcp://'' v0 of
                 Some v \<Rightarrow> v
               | None \<Rightarrow> (case strip_prefix ''udp://'' v0 of Some v \<Rightarrow> v | None \<Rightarrow> v0))
      in case strip_prefix ''any:'' v of
           Some prt \<Rightarrow> (case parse_port prt of Inr n \<Rightarrow> n \<noteq> 0 | Inl _ \<Rightarrow> False)
         | None \<Rightarrow> (case parse_socket_addr v of Some (_, n) \<Rightarrow> n \<noteq> 0 | None \<Rightarrow> False))"

definition sniffer_checks :: "str \<times> sniff_protocol \<Rightarrow> unit result" where
  "sniffer_checks = (\<lambda>(name, s).
     and_then (ensure (name \<in> set [''HTTP'', ''TLS'']) ''only HTTP/TLS sniffing is supported'')
       (\<lambda>_. for_each (\<lambda>p. and_then (bounds p) (\<lambda>_. Inr ())) (sniff_ports s)))"

definition dns_policy_checks :: "str \<times> strings \<Rightarrow> unit result" where
  "dns_policy_checks = (\<lambda>(_, v).
     checks
      [(strings_values v \<noteq> [], ''empty DNS policy upstreams''),
       (list_all dns_upstream (strings_values v), ''unsupported DNS policy upstream'')])"

definition controller_checks :: "config \<Rightarrow> unit result" where
  "controller_checks cfg =
     (case external_controller cfg of
        None \<Rightarrow> Inr ()
      | Some a \<Rightarrow>
          and_then (ok_or ''external-controller must be IP:port'' (parse_socket_addr a)) (\<lambda>(ip, _).
            ensure (is_loopback ip \<or> secret cfg \<noteq> []) ''non-loopback controller requires secret''))"

definition head_checks :: "config \<Rightarrow> unit result" where
  "head_checks cfg =
     checks
      [(internal_allow_native_profile cfg \<and> global_client_fingerprint cfg = ''native''
          \<or> global_client_fingerprint cfg \<in> set fingerprints,
        if global_client_fingerprint cfg = ''rustls''
        then ''global-client-fingerprint 'rustls' is unavailable; use a BoringSSL browser profile''
        else ''unknown global-client-fingerprint''),
       (log_level cfg \<in> set [''debug'', ''info'', ''warning'', ''error'', ''silent''], ''invalid log-level''),
       (max_size (log_opts cfg) > 0, ''log.max-size must be positive'')]"

definition option_checks :: "config \<Rightarrow> unit result" where
  "option_checks cfg =
     (let d = dns_opts cfg; t = tun_opts cfg
      in and_then
           (checks
             [(geo_update_interval cfg > 0 \<and> geo_update_interval cfg \<le> 8760, ''invalid geo-update-interval''),
              (find_process_mode cfg \<in> set [''strict'', ''always'', ''off''], ''invalid find-process-mode''),
              (stack t \<in> set [''gvisor'', ''system'', ''mixed''], ''invalid tun.stack''),
              (ntp_interval (ntp_opts cfg) > 0 \<and> ntp_port (ntp_opts cfg) > 0, ''invalid NTP interval/port'')])
         (\<lambda>_. and_then (for_each sniffer_checks (sniff (sniffer_opts cfg)))
         (\<lambda>_. and_then (for_each dns_policy_checks (nameserver_policy d))
         (\<lambda>_. checks
           [(enhanced_mode d \<in> set [''fake-ip'', ''redir-host''], ''unsupported dns.enhanced-mode''),
            (nameserver d \<noteq> [], ''dns.nameserver cannot be empty''),
            (list_all dns_upstream (nameserver d @ default_nameserver d @ proxy_server_nameserver d),
             ''unsupported DNS upstream scheme''),
            (1280 \<le> mtu t \<and> mtu t \<le> 9000, ''tun.mtu must be 1280..9000''),
            (tun_enable t \<longrightarrow> auto_detect_interface t \<or> interface t \<noteq> None,
             ''tun.interface is required when auto-detect-interface is disabled''),
            (device t \<noteq> [] \<and> length (device t) \<le> 128 \<and> \<not> has_control (device t), ''invalid tun.device''),
            (length (route_exclude_address t) \<le> 1024, ''tun.route-exclude-address limit is 1024''),
            (list_all dns_hijack_valid (dns_hijack t), ''tun.dns-hijack[{index}] must be any:port or IP:port''),
            (list_all (\<lambda>a. case split_once (CHR '':'') a of Some (u, p) \<Rightarrow> u \<noteq> [] \<and> p \<noteq> [] | None \<Rightarrow> False)
               (authentication cfg), ''authentication must be user:password'')]))))"

definition reserved :: "str set" where
  "reserved = {''DIRECT'', ''REJECT'', ''GLOBAL''}"

definition validate :: "('r, 'x) crates \<Rightarrow> libs \<Rightarrow> config \<Rightarrow> unit result" where
  "validate X L cfg =
     and_then (head_checks cfg) (\<lambda>_.
     and_then (proxies_loop L cfg reserved (proxies cfg)) (\<lambda>names.
     and_then (groups_loop names (proxy_groups cfg)) (\<lambda>names.
     and_then (for_each (\<lambda>g. visit (proxy_groups cfg) names {} (g_name g)) (proxy_groups cfg)) (\<lambda>_.
     and_then (for_each (rule_checks X cfg names) (rules cfg)) (\<lambda>_.
     and_then (for_each (\<lambda>(_, p). provider_checks p) (rule_providers cfg)) (\<lambda>_.
     and_then (option_checks cfg) (\<lambda>_.
     and_then (controller_checks cfg) (\<lambda>_.
       ensure (bind_address cfg = ''*'' \<or> parse_ip_addr (bind_address cfg) \<noteq> None)
         ''bind-address must be an IP address or *''))))))))"

section \<open>Parsing and rewriting\<close>

definition listen :: "str \<Rightarrow> str" where
  "listen v =
     (if prefix '':'' v then ''0.0.0.0'' @ v
      else
        (case strip_prefix ''localhost:'' v of
           Some p \<Rightarrow> ''127.0.0.1:'' @ p
         | None \<Rightarrow> (case strip_prefix ''*:'' v of Some p \<Rightarrow> ''0.0.0.0:'' @ p | None \<Rightarrow> v)))"

definition normalise :: "config \<Rightarrow> config" where
  "normalise cfg =
     (let cfg = cfg\<lparr>external_controller := map_option listen (external_controller cfg),
                    dns_opts := (dns_opts cfg)\<lparr>listen_address := listen (listen_address (dns_opts cfg))\<rparr>\<rparr>
      in if log_level cfg \<noteq> ''info''
         then cfg\<lparr>log_opts := (log_opts cfg)\<lparr>log_log_level := log_level cfg\<rparr>\<rparr>
         else cfg\<lparr>log_level := log_log_level (log_opts cfg)\<rparr>)"

definition config_parse :: "('r, 'x) crates \<Rightarrow> libs \<Rightarrow> bytes \<Rightarrow> config result" where
  "config_parse X L bytes =
     and_then (ensure (length bytes \<le> 16 * 1024 * 1024) ''configuration exceeds 16 MiB'') (\<lambda>_.
     and_then (yaml_config L bytes) (\<lambda>cfg.
     let cfg = normalise cfg
     in and_then (validate X L cfg) (\<lambda>_. Inr cfg)))"

text \<open>The bytes \<^verbatim>\<open>&s[..end]\<close>; it panics where \<open>end\<close> is inside a character.\<close>

definition slice_to :: "str \<Rightarrow> nat \<Rightarrow> str result" where
  "slice_to s e =
     (if e \<le> length s \<and> (e = length s \<or> \<not> ((0x80 :: nat) \<le> of_char (s ! e) \<and> of_char (s ! e) \<le> (0xBF :: nat)))
      then Inr (take e s) else Inl ''panic: byte index is not a char boundary'')"

definition retain_rule :: "('r, 'x) crates \<Rightarrow> str set \<Rightarrow> str \<Rightarrow> str result" where
  "retain_rule X removed raw =
     and_then (rule_parse X raw) (\<lambda>r.
       if target r \<in> removed then
         let sfx = (if no_resolve r then '',no-resolve'' else [])
         in if length raw < length sfx + length (target r) then Inl ''panic: attempt to subtract with overflow''
            else and_then (slice_to raw (length raw - length sfx - length (target r)))
                   (\<lambda>s. Inr (s @ ''REJECT'' @ sfx))
       else Inr raw)"

definition retain_group :: "str set \<Rightarrow> group \<Rightarrow> group" where
  "retain_group removed g =
     (let ps = filter (\<lambda>p. p \<notin> removed) (g_proxies g)
      in g\<lparr>g_proxies := if ps = [] then [''REJECT''] else ps\<rparr>)"

definition retain_vless :: "('r, 'x) crates \<Rightarrow> libs \<Rightarrow> config \<Rightarrow> config result" where
  "retain_vless X L cfg =
     (let removed = set (map p_name (filter (\<lambda>p. p_kind p \<noteq> Vless) (proxies cfg)));
          cfg = cfg\<lparr>proxies := filter (\<lambda>p. p_kind p = Vless) (proxies cfg),
                    proxy_groups := map (retain_group removed) (proxy_groups cfg)\<rparr>
      in and_then (map_result (retain_rule X removed) (rules cfg)) (\<lambda>rs.
         let cfg = cfg\<lparr>rules := rs\<rparr>
         in and_then (validate X L cfg) (\<lambda>_. Inr cfg)))"

end
