(* ===== verification/Resolver.thy ===== *)
theory Resolver
  imports Validate
begin

text \<open>
  The state of the DNS resolver (\<^verbatim>\<open>core/src/dns.rs\<close>) as far as the core changes it: the policy that is compiled
  from the configuration and the routing data (\<^verbatim>\<open>core/src/resources.rs\<close>), the cache of answers and the pool
  of fake addresses. Messages are kept as their encoding, and instants are natural numbers. The parser of domain
  names belongs to another crate and is an argument.
\<close>

section \<open>Targets and hosts\<close>

record targ =
  host :: str
  t_port :: u16

definition targ_ip :: "targ \<Rightarrow> ip_addr option" where
  "targ_ip t = parse_ip_addr (host t)"

definition normal_host :: "str \<Rightarrow> str" where
  "normal_host h = to_ascii_lowercase (trim_end_matches (CHR ''.'') h)"

lemma ascii_lower_dot: "ascii_lower c = CHR ''.'' \<longleftrightarrow> c = CHR ''.''"
proof
  assume l: "ascii_lower c = CHR ''.''"
  show "c = CHR ''.''"
  proof (cases "65 \<le> (of_char c :: nat) \<and> of_char c \<le> (90 :: nat)")
    case True
    then have "(of_char (ascii_lower c) :: nat) = of_char c + 32" by (simp add: ascii_lower_def)
    then show ?thesis using True l by simp
  next
    case False
    then show ?thesis using l by (simp only: ascii_lower_def if_False)
  qed
next
  assume "c = CHR ''.''"
  then show "ascii_lower c = CHR ''.''" by (simp add: ascii_lower_def)
qed

lemma normal_host_idem [simp]: "normal_host (normal_host h) = normal_host h"
proof -
  define t where "t = dropWhile (\<lambda>x. x = CHR ''.'') (rev h)"
  have hd: "t = [] \<or> hd t \<noteq> CHR ''.''" using hd_dropWhile [of "\<lambda>x. x = CHR ''.''" "rev h"] by (auto simp: t_def)
  have nh: "normal_host h = map ascii_lower (rev t)"
    by (simp add: normal_host_def trim_end_matches_def to_ascii_lowercase_def t_def)
  have "dropWhile (\<lambda>x. x = CHR ''.'') (map ascii_lower t) = map ascii_lower t"
    using hd by (cases t) (simp_all add: ascii_lower_dot)
  then show ?thesis
    unfolding nh by (simp add: normal_host_def trim_end_matches_def to_ascii_lowercase_def rev_map comp_def)
qed

section \<open>Routing data\<close>

type_synonym ('r, 'x) resources = "str \<times> str \<rightharpoonup> ('r, 'x) matcher"

definition resources_bind :: "('r, 'x) resources \<Rightarrow> ('r, 'x) matcher \<Rightarrow> ('r, 'x) matcher result" where
  "resources_bind R =
     bind_matcher (\<lambda>m.
       let key = (case m of
           GeoIp v \<Rightarrow> Some (''geoip'', v)
         | GeoSite v \<Rightarrow> Some (''geosite'', v)
         | RuleSet v \<Rightarrow> Some (''rule-set'', v)
         | _ \<Rightarrow> None)
       in case key of
            None \<Rightarrow> Inl ''panic: internal error: entered unreachable code''
          | Some k \<Rightarrow> ok_or ''referenced routing data is not loaded'' (R k))"

definition resources_rules :: "('r, 'x) crates \<Rightarrow> ('r, 'x) resources \<Rightarrow> str list \<Rightarrow> ('r, 'x) rule list result" where
  "resources_rules X R raw =
     map_result (\<lambda>s.
       and_then (rule_parse X s) (\<lambda>r.
       and_then (resources_bind R (matcher r)) (\<lambda>m. Inr (r\<lparr>matcher := m\<rparr>)))) raw"

section \<open>Cache\<close>

record cache_entry =
  ce_response :: bytes
  ce_inserted :: nat
  ce_expires :: nat
  ce_size :: nat

text \<open>The entries stand in the order of their insertion; the order of the hash map would decide between entries of one instant only.\<close>

record dns_cache =
  cache_entries :: "(bytes \<times> cache_entry) list"
  cache_size :: nat

definition cache_new :: dns_cache where
  "cache_new = \<lparr>cache_entries = [], cache_size = 0\<rparr>"

fun oldest :: "(bytes \<times> cache_entry) list \<Rightarrow> (bytes \<times> cache_entry) option" where
  "oldest [] = None"
| "oldest (x # xs) = Some (foldl (\<lambda>m y. if ce_inserted (snd y) < ce_inserted (snd m) then y else m) x xs)"

lemma oldest_mem: "oldest xs = Some x \<Longrightarrow> x \<in> set xs"
proof (induction xs rule: oldest.induct)
  case (2 x xs)
  have "foldl (\<lambda>m y. if ce_inserted (snd y) < ce_inserted (snd m) then y else m) x xs \<in> set (x # xs)"
    by (induction xs arbitrary: x) (auto split: if_splits)
  then show ?case using 2 by auto
qed simp

text \<open>Old entries leave until there is room for one of the given size.\<close>

function evict_loop :: "nat \<Rightarrow> dns_cache \<Rightarrow> dns_cache" where
  "evict_loop n c =
     (if 4096 \<le> length (cache_entries c) \<or> 8 * 1024 * 1024 < cache_size c + n then
        (case oldest (cache_entries c) of
           None \<Rightarrow> c
         | Some (k, e) \<Rightarrow>
             evict_loop n \<lparr>cache_entries = filter (\<lambda>(k', _). k' \<noteq> k) (cache_entries c), cache_size = cache_size c - ce_size e\<rparr>)
      else c)"
  by pat_completeness auto
termination
  by (relation "measure (\<lambda>(n, c). length (cache_entries c))")
    (auto dest!: oldest_mem intro: length_filter_less)

declare evict_loop.simps [simp del]

text \<open>A response and the seconds it may be kept enter the cache.\<close>

definition cache_store :: "nat \<Rightarrow> bytes \<Rightarrow> bytes \<Rightarrow> nat \<Rightarrow> dns_cache \<Rightarrow> dns_cache" where
  "cache_store now key response ttl c =
     (let n = length key + length response;
          es = filter (\<lambda>(k, e). now < ce_expires e \<and> k \<noteq> key) (cache_entries c);
          c = evict_loop n \<lparr>cache_entries = es, cache_size = sum_list (map (\<lambda>x. ce_size (snd x)) es)\<rparr>
      in if n \<le> 8 * 1024 * 1024 then
           c\<lparr>cache_entries := cache_entries c @ [(key, \<lparr>ce_response = response, ce_inserted = now, ce_expires = now + ttl, ce_size = n\<rparr>)],
             cache_size := cache_size c + n\<rparr>
         else c)"

type_synonym cache_write = "nat \<times> bytes \<times> bytes \<times> nat"

definition cache_stores :: "cache_write list \<Rightarrow> dns_cache \<Rightarrow> dns_cache" where
  "cache_stores ws c = foldl (\<lambda>c (now, key, response, ttl). cache_store now key response ttl c) c ws"

section \<open>Fake addresses\<close>

record fake_map =
  by_name :: "str \<times> bool \<rightharpoonup> ip_addr"
  by_ip :: "ip_addr \<rightharpoonup> str"
  next4 :: u64
  next6 :: u128

definition fake_map_new :: fake_map where
  "fake_map_new = \<lparr>by_name = Map.empty, by_ip = Map.empty, next4 = 2, next6 = 2\<rparr>"

fun is_ipv6 :: "ip_addr \<Rightarrow> bool" where
  "is_ipv6 (V4 _) = False"
| "is_ipv6 (V6 _) = True"

definition original :: "fake_map \<Rightarrow> ip_addr \<Rightarrow> str option" where
  "original m ip = by_ip m ip"

text \<open>\<open>order\<close> is the order in which the hash map lists its keys.\<close>

definition export_fake :: "ip_addr list \<Rightarrow> fake_map \<Rightarrow> (str \<times> ip_addr) list" where
  "export_fake order m = map (\<lambda>ip. (the (by_ip m ip), ip)) order"

definition saved_v4 :: "ipv4_net \<Rightarrow> u32 \<Rightarrow> fake_map \<Rightarrow> fake_map result" where
  "saved_v4 net ip m =
     and_then (ensure (fst net \<le> ip \<and> ip \<le> snd net \<and> ip \<noteq> snd net) ''saved fake-IP outside pool'') (\<lambda>_.
       let n = ucast ip - ucast (fst net)
       in and_then (ensure (2 \<le> n) ''reserved fake-IP'') (\<lambda>_. Inr (m\<lparr>next4 := max (next4 m) (n + 1)\<rparr>)))"

definition saved_v6 :: "ipv6_net \<Rightarrow> u128 \<Rightarrow> fake_map \<Rightarrow> fake_map result" where
  "saved_v6 net ip m =
     and_then (ensure (fst net \<le> ip \<and> ip \<le> snd net) ''saved fake-IP outside pool'') (\<lambda>_.
       let n = ip - fst net
       in and_then (ensure (2 \<le> n) ''reserved fake-IP'') (\<lambda>_.
          and_then (ensure (n \<noteq> - 1) ''saved pool overflow'') (\<lambda>_. Inr (m\<lparr>next6 := max (next6 m) (n + 1)\<rparr>))))"

definition import_entry :: "(str \<Rightarrow> unit result) \<Rightarrow> dns \<Rightarrow> str \<times> ip_addr \<Rightarrow> fake_map \<Rightarrow> fake_map result" where
  "import_entry absolute_name d e m =
     and_then (absolute_name (fst e)) (\<lambda>_.
     and_then (case snd e of V4 ip \<Rightarrow> saved_v4 (fake_ip_range d) ip m | V6 ip \<Rightarrow> saved_v6 (fake_ip_range6 d) ip m) (\<lambda>m.
       let name = normal_host (fst e)
       in and_then (ensure (by_ip m (snd e) = None \<and> by_name m (name, is_ipv6 (snd e)) = None) ''duplicate saved fake-IP'') (\<lambda>_.
            Inr (m\<lparr>by_ip := (by_ip m)(snd e \<mapsto> name), by_name := (by_name m)((name, is_ipv6 (snd e)) \<mapsto> snd e)\<rparr>))))"

fun import_loop :: "(str \<Rightarrow> unit result) \<Rightarrow> dns \<Rightarrow> (str \<times> ip_addr) list \<Rightarrow> fake_map \<Rightarrow> fake_map result" where
  "import_loop absolute_name d [] m = Inr m"
| "import_loop absolute_name d (e # es) m =
     and_then (import_entry absolute_name d e m) (import_loop absolute_name d es)"

definition resolver_import_fake :: "(str \<Rightarrow> unit result) \<Rightarrow> dns \<Rightarrow> (str \<times> ip_addr) list \<Rightarrow> fake_map \<Rightarrow> fake_map \<times> unit result" where
  "resolver_import_fake absolute_name d entries m =
     (case and_then (ensure (length entries \<le> 32768) ''saved fake-IP capacity exceeded'')
             (\<lambda>_. import_loop absolute_name d entries fake_map_new) of
        Inl e \<Rightarrow> (m, Inl e)
      | Inr m' \<Rightarrow> (m', Inr ()))"

definition next_v4 :: "ipv4_net \<Rightarrow> fake_map \<Rightarrow> (fake_map \<times> ip_addr) result" where
  "next_v4 net m =
     (let address = ucast (fst net) + next4 m; ip = ucast address
      in and_then (ensure (unat address < 2 ^ 32) ''fake-IP v4 pool exhausted'') (\<lambda>_.
         and_then (ensure (fst net \<le> ip \<and> ip \<le> snd net \<and> ip \<noteq> snd net) ''fake-IP v4 pool exhausted'') (\<lambda>_.
           Inr (m\<lparr>next4 := next4 m + 1\<rparr>, V4 ip))))"

definition next_v6 :: "ipv6_net \<Rightarrow> fake_map \<Rightarrow> (fake_map \<times> ip_addr) result" where
  "next_v6 net m =
     and_then (ensure (unat (fst net) + unat (next6 m) < 2 ^ 128) ''fake-IP v6 pool exhausted'') (\<lambda>_.
       let ip = fst net + next6 m
       in and_then (ensure (fst net \<le> ip \<and> ip \<le> snd net) ''fake-IP v6 pool exhausted'') (\<lambda>_.
            Inr (m\<lparr>next6 := next6 m + 1\<rparr>, V6 ip)))"

definition fake_address :: "dns \<Rightarrow> str \<Rightarrow> bool \<Rightarrow> fake_map \<Rightarrow> fake_map \<times> ip_addr result" where
  "fake_address d name six m =
     (case by_name m (name, six) of
        Some ip \<Rightarrow> (m, Inr ip)
      | None \<Rightarrow>
          if \<not> card (dom (by_name m)) < 32768 then (m, Inl ''fake-IP capacity reached; refusing to reuse live mappings'')
          else
            (case (if six then next_v6 (fake_ip_range6 d) m else next_v4 (fake_ip_range d) m) of
               Inl e \<Rightarrow> (m, Inl e)
             | Inr (m', ip) \<Rightarrow>
                 (m'\<lparr>by_name := (by_name m')((name, six) \<mapsto> ip), by_ip := (by_ip m')(ip \<mapsto> name)\<rparr>, Inr ip)))"

section \<open>The resolver\<close>

record ('r, 'x) dns_policy =
  policy_hosts :: "(str \<times> strings) list"
  policy_nameservers :: "(('r, 'x) matcher \<times> str list) list"
  policy_filters :: "('r, 'x) matcher list"

record ('r, 'x) resolver =
  r_config :: dns
  r_cache :: dns_cache
  r_fake :: fake_map
  r_policy :: "('r, 'x) dns_policy"

definition resolver_new :: "dns \<Rightarrow> ('r, 'x) resolver" where
  "resolver_new d =
     \<lparr>r_config = d, r_cache = cache_new, r_fake = fake_map_new,
      r_policy = \<lparr>policy_hosts = [], policy_nameservers = [], policy_filters = []\<rparr>\<rparr>"

definition set_hosts :: "(str \<times> strings) list \<Rightarrow> ('r, 'x) resolver \<Rightarrow> ('r, 'x) resolver" where
  "set_hosts hs r = r\<lparr>r_policy := (r_policy r)\<lparr>policy_hosts := hs\<rparr>\<rparr>"

definition clear_cache :: "('r, 'x) resolver \<Rightarrow> ('r, 'x) resolver" where
  "clear_cache r = r\<lparr>r_cache := cache_new\<rparr>"

definition tag_matcher :: "('r, 'x) crates \<Rightarrow> ('r, 'x) resources \<Rightarrow> str \<Rightarrow> str \<Rightarrow> ('r, 'x) matcher result" where
  "tag_matcher X R kind tags =
     and_then (map_result (\<lambda>tag. and_then (parse_condition X (kind @ '','' @ tag)) (resources_bind R)) (split_on (CHR '','') tags))
       (\<lambda>nodes. Inr (Or nodes))"

definition policy_matcher :: "('r, 'x) crates \<Rightarrow> ('r, 'x) resources \<Rightarrow> str \<Rightarrow> ('r, 'x) matcher result" where
  "policy_matcher X R pattern =
     (case strip_prefix ''geosite:'' pattern of
        Some tags \<Rightarrow> tag_matcher X R ''GEOSITE'' tags
      | None \<Rightarrow>
          (case strip_prefix ''rule-set:'' pattern of
             Some tags \<Rightarrow> tag_matcher X R ''RULE-SET'' tags
           | None \<Rightarrow> domain_pattern X pattern))"

text \<open>The most specific patterns come first.\<close>

definition policy_weight :: "str \<Rightarrow> nat" where
  "policy_weight key =
     (if prefix ''geosite:'' key \<or> prefix ''rule-set:'' key then 0
      else length key + (if CHR ''*'' \<in> set key \<or> prefix ''+'' key \<or> prefix ''.'' key then 0 else 65536))"

definition resolver_configure ::
  "('r, 'x) crates \<Rightarrow> (str \<times> strings) list \<Rightarrow> ('r, 'x) resources \<Rightarrow> ('r, 'x) resolver \<Rightarrow> ('r, 'x) resolver \<times> unit result" where
  "resolver_configure X hs R r =
     (case map_result (\<lambda>(key, v). and_then (policy_matcher X R key) (\<lambda>m. Inr (m, strings_values v)))
             (sort_key (\<lambda>(key, _). - int (policy_weight key)) (nameserver_policy (r_config r))) of
        Inl e \<Rightarrow> (r, Inl e)
      | Inr ns \<Rightarrow>
          (case map_result (policy_matcher X R) (fake_ip_filter (r_config r)) of
             Inl e \<Rightarrow> (r, Inl e)
           | Inr fs \<Rightarrow>
               (clear_cache (r\<lparr>r_policy := \<lparr>policy_hosts = hs, policy_nameservers = ns, policy_filters = fs\<rparr>\<rparr>), Inr ())))"

definition import_fake :: "(str \<Rightarrow> unit result) \<Rightarrow> (str \<times> ip_addr) list \<Rightarrow> ('r, 'x) resolver \<Rightarrow> ('r, 'x) resolver \<times> unit result" where
  "import_fake absolute_name entries r =
     (let (m, x) = resolver_import_fake absolute_name (r_config r) entries (r_fake r) in (r\<lparr>r_fake := m\<rparr>, x))"

text \<open>The name of a query is brought into normal form before an address is made up for it.\<close>

definition answer_fake :: "str \<Rightarrow> bool \<Rightarrow> ('r, 'x) resolver \<Rightarrow> ('r, 'x) resolver \<times> ip_addr result" where
  "answer_fake name six r =
     (let (m, x) = fake_address (r_config r) (normal_host name) six (r_fake r) in (r\<lparr>r_fake := m\<rparr>, x))"

definition cache_answers :: "cache_write list \<Rightarrow> ('r, 'x) resolver \<Rightarrow> ('r, 'x) resolver" where
  "cache_answers ws r = r\<lparr>r_cache := cache_stores ws (r_cache r)\<rparr>"


section \<open>The bounds of the cache\<close>

definition cache_ok :: "dns_cache \<Rightarrow> bool" where
  "cache_ok c \<longleftrightarrow> distinct (map fst (cache_entries c)) \<and> cache_size c = sum_list (map (\<lambda>x. ce_size (snd x)) (cache_entries c))
     \<and> length (cache_entries c) \<le> 4096 \<and> cache_size c \<le> 8 * 1024 * 1024"

lemma remove_entry_size:
  assumes "distinct (map fst es)" and "(k, e) \<in> set es"
  shows "sum_list (map (\<lambda>x. ce_size (snd x)) (filter (\<lambda>(k', _). k' \<noteq> k) es)) = sum_list (map (\<lambda>x. ce_size (snd x)) es) - ce_size e"
  using assms
proof (induction es)
  case (Cons x es)
  obtain k1 e1 where x: "x = (k1, e1)" by fastforce
  show ?case
  proof (cases "k1 = k")
    case True
    then have "e1 = e" using Cons.prems x by (force simp: image_iff)
    moreover have "filter (\<lambda>(k', _). k' \<noteq> k) es = es" using Cons.prems(1) x True by (force simp: filter_id_conv)
    ultimately show ?thesis using x True by simp
  next
    case False
    then have m: "(k, e) \<in> set es" using Cons.prems(2) x by auto
    then have "ce_size e \<le> sum_list (map (\<lambda>x. ce_size (snd x)) es)" using member_le_sum_list [of "ce_size e" "map (\<lambda>x. ce_size (snd x)) es"] by force
    then show ?thesis using Cons.IH [OF _ m] Cons.prems(1) x False by (simp add: comp_def)
  qed
qed simp

definition cache_consistent :: "dns_cache \<Rightarrow> bool" where
  "cache_consistent c \<longleftrightarrow> distinct (map fst (cache_entries c)) \<and> cache_size c = sum_list (map (\<lambda>x. ce_size (snd x)) (cache_entries c))"

lemma evict_loop_ok:
  assumes "cache_consistent c"
  shows "set (cache_entries (evict_loop n c)) \<subseteq> set (cache_entries c) \<and> cache_consistent (evict_loop n c)
    \<and> (cache_entries (evict_loop n c) = [] \<or> length (cache_entries (evict_loop n c)) < 4096 \<and> cache_size (evict_loop n c) + n \<le> 8 * 1024 * 1024)"
  using assms
proof (induction n c rule: evict_loop.induct)
  case (1 n c)
  show ?case
  proof (cases "4096 \<le> length (cache_entries c) \<or> 8 * 1024 * 1024 < cache_size c + n")
    case False
    then have "evict_loop n c = c" by (subst evict_loop.simps) simp
    then show ?thesis using 1(2) False by simp
  next
    case True
    show ?thesis
    proof (cases "oldest (cache_entries c)")
      case None
      then have "evict_loop n c = c" by (subst evict_loop.simps) simp
      moreover have "cache_entries c = []" using None by (cases "cache_entries c") auto
      ultimately show ?thesis using 1(2) by simp
    next
      case (Some x)
      obtain k e where o: "oldest (cache_entries c) = Some (k, e)" using Some by (cases x) simp
      let ?c = "\<lparr>cache_entries = filter (\<lambda>(k', _). k' \<noteq> k) (cache_entries c), cache_size = cache_size c - ce_size e\<rparr>"
      have e: "evict_loop n c = evict_loop n ?c" using True o by (subst evict_loop.simps) simp
      have "cache_consistent ?c"
        using 1(2) remove_entry_size [OF _ oldest_mem [OF o]] by (simp add: cache_consistent_def distinct_map_filter)
      from 1(1) [OF True o refl this] show ?thesis unfolding e by auto
    qed
  qed
qed

lemma cache_store_ok:
  assumes "cache_ok c"
  shows "cache_ok (cache_store now key response ttl c)"
proof -
  let ?n = "length key + length response" and ?es = "filter (\<lambda>(k, e). now < ce_expires e \<and> k \<noteq> key) (cache_entries c)"
  let ?c = "\<lparr>cache_entries = ?es, cache_size = sum_list (map (\<lambda>x. ce_size (snd x)) ?es)\<rparr>"
  define d where "d = evict_loop ?n ?c"
  have "cache_consistent ?c" using assms by (simp add: cache_ok_def cache_consistent_def distinct_map_filter)
  from evict_loop_ok [OF this, of ?n] have d: "set (cache_entries d) \<subseteq> set ?es" "cache_consistent d"
      "cache_entries d = [] \<or> length (cache_entries d) < 4096 \<and> cache_size d + ?n \<le> 8 * 1024 * 1024"
    by (simp_all add: d_def)
  have "key \<notin> fst ` set (cache_entries d)" using d(1) by auto
  moreover have "cache_store now key response ttl c =
      (if ?n \<le> 8 * 1024 * 1024 then
         d\<lparr>cache_entries := cache_entries d @ [(key, \<lparr>ce_response = response, ce_inserted = now, ce_expires = now + ttl, ce_size = ?n\<rparr>)],
           cache_size := cache_size d + ?n\<rparr>
       else d)"
    by (simp add: cache_store_def d_def Let_def)
  ultimately show ?thesis using d(2,3) by (auto simp: cache_ok_def cache_consistent_def)
qed

lemma cache_stores_ok: "cache_ok c \<Longrightarrow> cache_ok (cache_stores ws c)"
  unfolding cache_stores_def by (induction ws arbitrary: c) (auto simp: cache_store_ok)

lemma cache_new_ok [simp]: "cache_ok cache_new"
  by (simp add: cache_ok_def cache_new_def)

end
