(* ===== verification/FakeIp.thy ===== *)
theory FakeIp
  imports Resolver
begin

text \<open>
  What the pool of fake addresses of the DNS resolver promises (\<^verbatim>\<open>core/src/dns.rs\<close>): names are answered with
  addresses of a reserved range, and a connection to such an address is traced back to its name. The operations
  on the pool are defined with the resolver; here are the states they reach, and their properties.
\<close>

section \<open>Definitions\<close>

text \<open>A target that is a fake address stands for the name behind it.\<close>

definition restore_target :: "fake_map \<Rightarrow> targ \<Rightarrow> targ" where
  "restore_target m t =
     (case Option.bind (targ_ip t) (original m) of
        Some name \<Rightarrow> \<lparr>host = name, t_port = t_port t\<rparr>
      | None \<Rightarrow> t)"

text \<open>
  The states of the pool: it starts empty, is replaced by an import, and grows by the names that are
  asked for, which the resolver has brought into normal form.
\<close>

inductive fake_reachable :: "(str \<Rightarrow> unit result) \<Rightarrow> dns \<Rightarrow> fake_map \<Rightarrow> bool"
  for absolute_name :: "str \<Rightarrow> unit result" and d :: dns where
  New: "fake_reachable absolute_name d fake_map_new"
| Import: "fake_reachable absolute_name d m \<Longrightarrow> fake_reachable absolute_name d (fst (resolver_import_fake absolute_name d entries m))"
| Answer: "fake_reachable absolute_name d m \<Longrightarrow> fake_reachable absolute_name d (fst (fake_address d (normal_host name) six m))"

section \<open>The invariant of the pool\<close>

text \<open>
  The two maps are inverse to each other, and every address lies in its pool below the next one to be
  handed out.
\<close>

fun pool_offset :: "dns \<Rightarrow> ip_addr \<Rightarrow> nat" where
  "pool_offset d (V4 ip) = unat ip - unat (fst (fake_ip_range d))"
| "pool_offset d (V6 ip) = unat ip - unat (fst (fake_ip_range6 d))"

fun in_pool :: "dns \<Rightarrow> ip_addr \<Rightarrow> bool" where
  "in_pool d (V4 ip) \<longleftrightarrow> fst (fake_ip_range d) \<le> ip \<and> ip < snd (fake_ip_range d) \<and> 2 \<le> pool_offset d (V4 ip)"
| "in_pool d (V6 ip) \<longleftrightarrow> fst (fake_ip_range6 d) \<le> ip \<and> ip \<le> snd (fake_ip_range6 d) \<and> 2 \<le> pool_offset d (V6 ip)"

definition next_offset :: "fake_map \<Rightarrow> bool \<Rightarrow> nat" where
  "next_offset m six = (if six then unat (next6 m) else unat (next4 m))"

definition fake_ok :: "dns \<Rightarrow> fake_map \<Rightarrow> bool" where
  "fake_ok d m \<longleftrightarrow>
     finite (dom (by_name m)) \<and> card (dom (by_name m)) \<le> 32768
     \<and> (\<forall>name six ip. by_name m (name, six) = Some ip \<longleftrightarrow> by_ip m ip = Some name \<and> is_ipv6 ip = six)
     \<and> (\<forall>ip \<in> dom (by_ip m). in_pool d ip \<and> pool_offset d ip < next_offset m (is_ipv6 ip))
     \<and> 2 \<le> next_offset m False \<and> 2 \<le> next_offset m True \<and> next_offset m False \<le> 2 ^ 32"

text \<open>The pool of version 6 addresses is not the whole address space, whose last address has no successor.\<close>

definition proper_pool :: "dns \<Rightarrow> bool" where
  "proper_pool d \<longleftrightarrow> fst (fake_ip_range6 d) \<noteq> 0 \<or> snd (fake_ip_range6 d) \<noteq> - 1"

lemma sub_offset4:
  assumes "lo \<le> (ip :: u32)"
  shows "unat (ucast ip - ucast lo :: u64) = unat ip - unat lo"
proof -
  have u: "unat (ucast x :: u64) = unat x" for x :: u32 by (rule unat_ucast_up) simp
  then have "(ucast lo :: u64) \<le> ucast ip" using assms by (simp add: word_le_nat_alt)
  then show ?thesis by (simp add: unat_sub u)
qed

lemma unat_minus1: "unat (- 1 :: 'l::len word) = 2 ^ LENGTH('l) - 1"
  by (simp add: unsigned_minus_1_eq_mask mask_eq_exp_minus_1)

lemma fake_map_eqI:
  fixes m m' :: fake_map
  assumes "by_name m = by_name m'" "by_ip m = by_ip m'" "next_offset m False = next_offset m' False" "next_offset m True = next_offset m' True"
  shows "m = m'"
  using assms by (simp add: next_offset_def word_eq_unat)

text \<open>A saved entry: accepted exactly when it lies in its pool, and then no later address repeats it.\<close>

lemma saved_v4_iff:
  "saved_v4 (fake_ip_range d) ip m = Inr m' \<longleftrightarrow>
     in_pool d (V4 ip) \<and> m' = m\<lparr>next4 := max (next4 m) (ucast ip - ucast (fst (fake_ip_range d)) + 1)\<rparr>"
  by (auto simp: saved_v4_def and_then_Inr Let_def word_le_nat_alt sub_offset4 order.strict_iff_order)

lemma saved_v6_iff:
  "saved_v6 (fake_ip_range6 d) ip m = Inr m' \<longleftrightarrow>
     in_pool d (V6 ip) \<and> ip - fst (fake_ip_range6 d) \<noteq> - 1 \<and> m' = m\<lparr>next6 := max (next6 m) (ip - fst (fake_ip_range6 d) + 1)\<rparr>"
  by (auto simp: saved_v6_def and_then_Inr Let_def word_le_nat_alt unat_sub)

lemma unat_plus_one: "n \<noteq> - 1 \<Longrightarrow> unat (n + 1 :: 'l::len word) = unat n + 1"
  by (metis Suc_eq_plus1 unatSuc add.commute add.right_inverse add_left_cancel)

lemma unat_max: "unat (max a b :: 'l::len word) = max (unat a) (unat b)"
  by (simp add: max_def word_le_nat_alt)

definition saved_slot :: "dns \<Rightarrow> ip_addr \<Rightarrow> fake_map \<Rightarrow> fake_map result" where
  "saved_slot d ip m = (case ip of V4 ip \<Rightarrow> saved_v4 (fake_ip_range d) ip m | V6 ip \<Rightarrow> saved_v6 (fake_ip_range6 d) ip m)"

lemma saved_slot_Inr:
  assumes "saved_slot d ip m = Inr m'"
  shows "in_pool d ip" "by_name m' = by_name m" "by_ip m' = by_ip m"
    "next_offset m' six = (if six = is_ipv6 ip then max (next_offset m six) (pool_offset d ip + 1) else next_offset m six)"
proof -
  have "in_pool d ip \<and> by_name m' = by_name m \<and> by_ip m' = by_ip m
    \<and> next_offset m' six = (if six = is_ipv6 ip then max (next_offset m six) (pool_offset d ip + 1) else next_offset m six)"
  proof (cases ip)
    case (V4 a)
    have "ucast a - ucast (fst (fake_ip_range d)) \<noteq> (- 1 :: u64)" if "fst (fake_ip_range d) \<le> a"
    proof -
      have "unat (ucast a - ucast (fst (fake_ip_range d)) :: u64) < 2 ^ 32" using sub_offset4 [OF that] unat_u32_less [of a] by linarith
      then show ?thesis using unat_minus1 [where 'l = 64] by auto
    qed
    then show ?thesis using assms V4 by (auto simp: saved_slot_def saved_v4_iff next_offset_def unat_max unat_plus_one sub_offset4)
  next
    case (V6 a)
    then show ?thesis using assms by (auto simp: saved_slot_def saved_v6_iff next_offset_def unat_max unat_plus_one unat_sub word_le_nat_alt)
  qed
  then show "in_pool d ip" "by_name m' = by_name m" "by_ip m' = by_ip m"
    "next_offset m' six = (if six = is_ipv6 ip then max (next_offset m six) (pool_offset d ip + 1) else next_offset m six)"
    by simp_all
qed

lemma full_range: "x - l = N - 1 \<Longrightarrow> x < N \<Longrightarrow> x \<le> h \<Longrightarrow> h < N \<Longrightarrow> 1 < N \<Longrightarrow> l = 0 \<and> h = N - 1" for x l h N :: nat
  by arith

lemma saved_slot_ok:
  assumes "in_pool d ip" and "proper_pool d"
  obtains m' where "saved_slot d ip m = Inr m'"
proof (cases ip)
  case (V4 a)
  then show thesis using assms(1) that by (simp add: saved_slot_def saved_v4_iff)
next
  case (V6 a)
  have "a - fst (fake_ip_range6 d) \<noteq> - 1"
  proof
    assume "a - fst (fake_ip_range6 d) = - 1"
    then have "unat a - unat (fst (fake_ip_range6 d)) = 2 ^ 128 - 1"
      using assms(1) V6 unat_sub [of "fst (fake_ip_range6 d)" a] unat_minus1 [where 'l = 128] by simp
    moreover have "unat a < 2 ^ 128" "unat a \<le> unat (snd (fake_ip_range6 d))" "unat (snd (fake_ip_range6 d)) < 2 ^ 128"
      using assms(1) V6 unsigned_less [of a] unsigned_less [of "snd (fake_ip_range6 d)"] by (auto simp: word_le_nat_alt)
    ultimately have "unat (fst (fake_ip_range6 d)) = 0 \<and> unat (snd (fake_ip_range6 d)) = 2 ^ 128 - 1"
      by (intro full_range [of "unat a" _ "2 ^ 128"]) simp_all
    then show False using assms(2) using unat_minus1 [where 'l = 128] by (auto simp: proper_pool_def word_eq_unat)
  qed
  then show thesis using V6 assms(1) that by (simp add: saved_slot_def saved_v6_iff)
qed

definition next_slot :: "dns \<Rightarrow> bool \<Rightarrow> fake_map \<Rightarrow> (fake_map \<times> ip_addr) result" where
  "next_slot d six m = (if six then next_v6 (fake_ip_range6 d) m else next_v4 (fake_ip_range d) m)"

lemma next_v4_Inr:
  assumes "next_v4 (fake_ip_range d) m = Inr (m', ip)" and "2 \<le> unat (next4 m)" and "unat (next4 m) \<le> 2 ^ 32"
  shows "\<exists>a. ip = V4 a \<and> in_pool d ip \<and> pool_offset d ip = unat (next4 m) \<and> m' = m\<lparr>next4 := next4 m + 1\<rparr>
    \<and> unat (next4 m + 1) = unat (next4 m) + 1 \<and> unat (next4 m + 1) \<le> 2 ^ 32"
proof -
  let ?lo = "fst (fake_ip_range d)" let ?hi = "snd (fake_ip_range d)"
  let ?addr = "ucast ?lo + next4 m :: u64"
  obtain a where a: "a = (ucast ?addr :: u32)" "ip = V4 a" "?lo \<le> a" "a \<le> ?hi" "a \<noteq> ?hi" "unat ?addr < 2 ^ 32" "m' = m\<lparr>next4 := next4 m + 1\<rparr>"
    using assms(1) by (auto simp: next_v4_def Let_def and_then_Inr)
  have lo: "unat (ucast ?lo :: u64) = unat ?lo" by (rule unat_ucast_up) simp
  have "unat ?lo + unat (next4 m) < 2 ^ 32 + 2 ^ 32" using assms(3) unat_u32_less [of ?lo] by linarith
  then have "unat ?lo + unat (next4 m) < 2 ^ 64" by simp
  then have addr: "unat ?addr = unat ?lo + unat (next4 m)" by (simp add: unat_word_ariths lo)
  have ua: "unat a = unat ?addr" using a(1,6) by (simp add: unat_ucast)
  have off: "pool_offset d (V4 a) = unat (next4 m)" using ua addr by simp
  have "unat a < unat ?hi" using a(4,5) by (simp add: word_le_nat_alt word_eq_unat)
  then have "unat (next4 m) + 1 < 2 ^ 32" using ua addr unat_u32_less [of ?hi] by linarith
  moreover from this have "unat (next4 m + 1) = unat (next4 m) + 1" using unat_minus1 [where 'l = 64] by (intro unat_plus_one) auto
  moreover have "a < ?hi" using a(4,5) by simp
  ultimately show ?thesis using a off assms(2) by simp
qed

lemma next_v6_Inr:
  assumes "next_v6 (fake_ip_range6 d) m = Inr (m', ip)" and "2 \<le> unat (next6 m)" and "proper_pool d"
  shows "\<exists>a. ip = V6 a \<and> in_pool d ip \<and> pool_offset d ip = unat (next6 m) \<and> m' = m\<lparr>next6 := next6 m + 1\<rparr>
    \<and> unat (next6 m + 1) = unat (next6 m) + 1"
proof -
  let ?lo = "fst (fake_ip_range6 d)" let ?hi = "snd (fake_ip_range6 d)" let ?a = "?lo + next6 m"
  have a: "ip = V6 ?a" "?lo \<le> ?a" "?a \<le> ?hi" "unat ?lo + unat (next6 m) < 2 ^ 128" "m' = m\<lparr>next6 := next6 m + 1\<rparr>"
    using assms(1) by (auto simp: next_v6_def Let_def and_then_Inr)
  have ua: "unat ?a = unat ?lo + unat (next6 m)" using a(4) by (simp add: unat_word_ariths)
  have "next6 m \<noteq> - 1"
  proof
    assume "next6 m = - 1"
    then have "unat (next6 m) = 2 ^ 128 - 1" using unat_minus1 [where 'l = 128] by simp
    then have "unat ?lo = 0" "unat ?a = 2 ^ 128 - 1" using a(4) ua by simp_all
    moreover have "unat ?a \<le> unat ?hi" "unat ?hi < 2 ^ 128" using a(3) unsigned_less [of ?hi] by (simp_all add: word_le_nat_alt)
    ultimately have "unat ?lo = 0" "unat ?hi = 2 ^ 128 - 1" by simp_all
    then show False using assms(3) unat_minus1 [where 'l = 128] by (simp add: proper_pool_def word_eq_unat)
  qed
  then show ?thesis using a ua assms(2) unat_plus_one [of "next6 m"] by simp
qed

lemma next_slot_Inr:
  assumes "next_slot d six m = Inr (m', ip)" and "fake_ok d m" and "proper_pool d"
  shows "is_ipv6 ip = six" "in_pool d ip" "pool_offset d ip = next_offset m six" "by_name m' = by_name m" "by_ip m' = by_ip m"
    "next_offset m' x = (if x = six then next_offset m six + 1 else next_offset m x)" "next_offset m' False \<le> 2 ^ 32"
proof -
  have b: "2 \<le> unat (next4 m)" "2 \<le> unat (next6 m)" "unat (next4 m) \<le> 2 ^ 32" using assms(2) by (simp_all add: fake_ok_def next_offset_def)
  have "is_ipv6 ip = six \<and> in_pool d ip \<and> pool_offset d ip = next_offset m six \<and> by_name m' = by_name m \<and> by_ip m' = by_ip m
    \<and> next_offset m' x = (if x = six then next_offset m six + 1 else next_offset m x) \<and> next_offset m' False \<le> 2 ^ 32"
  proof (cases six)
    case True
    then have "next_v6 (fake_ip_range6 d) m = Inr (m', ip)" using assms(1) by (simp add: next_slot_def)
    from next_v6_Inr [OF this b(2) assms(3)] show ?thesis using b True by (auto simp: next_offset_def)
  next
    case False
    then have "next_v4 (fake_ip_range d) m = Inr (m', ip)" using assms(1) by (simp add: next_slot_def)
    from next_v4_Inr [OF this b(1,3)] show ?thesis using b False by (auto simp: next_offset_def)
  qed
  then show "is_ipv6 ip = six" "in_pool d ip" "pool_offset d ip = next_offset m six" "by_name m' = by_name m" "by_ip m' = by_ip m"
    "next_offset m' x = (if x = six then next_offset m six + 1 else next_offset m x)" "next_offset m' False \<le> 2 ^ 32"
    by simp_all
qed

text \<open>
  What every pool keeps besides: the next address of a family is the successor of the highest one in
  use, and names are in normal form.
\<close>

definition fake_tight :: "dns \<Rightarrow> fake_map \<Rightarrow> bool" where
  "fake_tight d m \<longleftrightarrow>
     (\<forall>six. next_offset m six = 2 \<or> (\<exists>ip \<in> dom (by_ip m). is_ipv6 ip = six \<and> next_offset m six = pool_offset d ip + 1))
     \<and> (\<forall>name \<in> ran (by_ip m). normal_host name = name)"

definition fake_insert :: "str \<Rightarrow> ip_addr \<Rightarrow> fake_map \<Rightarrow> fake_map" where
  "fake_insert name ip m = m\<lparr>by_name := (by_name m)((name, is_ipv6 ip) \<mapsto> ip), by_ip := (by_ip m)(ip \<mapsto> name)\<rparr>"

lemma fake_insert_simps [simp]:
  "by_name (fake_insert name ip m) = (by_name m)((name, is_ipv6 ip) \<mapsto> ip)" "by_ip (fake_insert name ip m) = (by_ip m)(ip \<mapsto> name)"
  "next_offset (fake_insert name ip m) six = next_offset m six"
  by (simp_all add: fake_insert_def next_offset_def)

lemma fake_ok_bij: "fake_ok d m \<Longrightarrow> by_name m (name, six) = Some ip \<longleftrightarrow> by_ip m ip = Some name \<and> is_ipv6 ip = six"
  by (simp add: fake_ok_def)

lemma fake_ok_below: "fake_ok d m \<Longrightarrow> by_ip m ip = Some name \<Longrightarrow> in_pool d ip \<and> pool_offset d ip < next_offset m (is_ipv6 ip)"
  unfolding fake_ok_def by blast

text \<open>Entering a name under an address of the pool that is not in use.\<close>

lemma fake_ok_insert:
  assumes ok: "fake_ok d m" and maps: "by_name m' = by_name m" "by_ip m' = by_ip m"
    and grow: "\<And>six. next_offset m six \<le> next_offset m' six" "next_offset m' False \<le> 2 ^ 32"
    and free: "by_ip m ip = None" "by_name m (name, is_ipv6 ip) = None"
    and pool: "in_pool d ip" "pool_offset d ip < next_offset m' (is_ipv6 ip)"
    and cap: "card (dom (by_name m)) < 32768"
  shows "fake_ok d (fake_insert name ip m')"
proof -
  have fin: "finite (dom (by_name m))" and n: "2 \<le> next_offset m False" "2 \<le> next_offset m True" using ok by (simp_all add: fake_ok_def)
  have bij: "((by_name m)((name, is_ipv6 ip) \<mapsto> ip)) (x, six) = Some y \<longleftrightarrow> ((by_ip m)(ip \<mapsto> name)) y = Some x \<and> is_ipv6 y = six" for x six y
    using fake_ok_bij [OF ok, of x six y] fake_ok_bij [OF ok, of name "is_ipv6 ip" y] free by auto
  have below: "in_pool d y \<and> pool_offset d y < next_offset m' (is_ipv6 y)" if y: "y \<in> dom ((by_ip m)(ip \<mapsto> name))" for y
  proof (cases "y = ip")
    case False
    then obtain x where "by_ip m y = Some x" using y by auto
    then show ?thesis using fake_ok_below [OF ok] grow(1) by (meson less_le_trans)
  qed (use pool in simp)
  have "card (dom ((by_name m)((name, is_ipv6 ip) \<mapsto> ip))) \<le> 32768" using fin cap by (simp add: card_insert_if)
  then show ?thesis
    unfolding fake_ok_def fake_insert_simps maps using fin bij below grow n by (simp add: order.trans [OF _ grow(1)])
qed

lemma import_entry_ok:
  assumes "import_entry absolute_name d e m = Inr m'" and "fake_ok d m" and "fake_tight d m" and "card (dom (by_name m)) < 32768"
  shows "fake_ok d m' \<and> fake_tight d m' \<and> card (dom (by_name m')) = Suc (card (dom (by_name m)))"
proof -
  obtain m1 where s: "saved_slot d (snd e) m = Inr m1" and free: "by_ip m1 (snd e) = None" "by_name m1 (normal_host (fst e), is_ipv6 (snd e)) = None"
    and m': "m' = fake_insert (normal_host (fst e)) (snd e) m1"
    using assms(1) by (auto simp: import_entry_def and_then_Inr saved_slot_def [symmetric] Let_def fake_insert_def)
  note slot = saved_slot_Inr [OF s]
  have lim: "pool_offset d ip < 2 ^ 32" if "\<not> is_ipv6 ip" for ip
    using that unat_u32_less by (cases ip) (auto intro: le_less_trans [OF diff_le_self])
  have ok: "fake_ok d m'"
    unfolding m' by (rule fake_ok_insert [OF assms(2) slot(2,3)])
      (use slot free assms(2,4) lim [of "snd e"] in \<open>auto simp: fake_ok_def\<close>)
  have "next_offset m' six = 2 \<or> (\<exists>ip \<in> dom (by_ip m'). is_ipv6 ip = six \<and> next_offset m' six = pool_offset d ip + 1)" for six
    using assms(3) slot(3,4) unfolding m' fake_tight_def fake_insert_simps by (auto simp: max_def)
  moreover have "\<forall>name \<in> ran (by_ip m'). normal_host name = name"
    using assms(3) slot(3) unfolding m' fake_tight_def fake_insert_simps by (auto simp: ran_def)
  moreover have "card (dom (by_name m')) = Suc (card (dom (by_name m)))"
    using slot(2) free assms(2) unfolding m' fake_insert_simps by (simp add: fake_ok_def domIff)
  ultimately show ?thesis using ok by (simp add: fake_tight_def)
qed


lemma import_loop_ok:
  assumes "import_loop absolute_name d es m = Inr m'" and "fake_ok d m" and "fake_tight d m" and "card (dom (by_name m)) + length es \<le> 32768"
  shows "fake_ok d m' \<and> fake_tight d m'"
  using assms
proof (induction es arbitrary: m)
  case (Cons e es)
  obtain m1 where e: "import_entry absolute_name d e m = Inr m1" and l: "import_loop absolute_name d es m1 = Inr m'"
    using Cons.prems(1) by (auto simp: and_then_Inr)
  have "card (dom (by_name m)) < 32768" using Cons.prems(4) by simp
  from import_entry_ok [OF e Cons.prems(2,3) this] show ?case using Cons.IH [OF l] Cons.prems(4) by simp
qed simp

lemma fake_new_ok: "fake_ok d fake_map_new" "fake_tight d fake_map_new"
  by (simp_all add: fake_ok_def fake_tight_def fake_map_new_def next_offset_def)

lemma import_ok:
  assumes "fake_ok d m" and "fake_tight d m"
  shows "fake_ok d (fst (resolver_import_fake absolute_name d es m)) \<and> fake_tight d (fst (resolver_import_fake absolute_name d es m))"
proof (cases "and_then (ensure (length es \<le> 32768) ''saved fake-IP capacity exceeded'') (\<lambda>_. import_loop absolute_name d es fake_map_new)")
  case (Inl e)
  then show ?thesis using assms by (simp add: resolver_import_fake_def)
next
  case (Inr m')
  then have l: "import_loop absolute_name d es fake_map_new = Inr m'" and len: "length es \<le> 32768" by (auto simp: and_then_Inr)
  have "card (dom (by_name fake_map_new)) = 0" by (simp add: fake_map_new_def)
  then have "fake_ok d m' \<and> fake_tight d m'" using import_loop_ok [OF l fake_new_ok] len by linarith
  then show ?thesis using Inr by (simp add: resolver_import_fake_def)
qed

text \<open>Asking for an address: it is known, or the next one of the pool is entered, or nothing changes.\<close>

lemma fake_address_cases:
  assumes "fake_address d name six m = (m', r)" and "fake_ok d m" and "proper_pool d"
  obtains (Known) ip where "by_name m (name, six) = Some ip" "m' = m" "r = Inr ip"
  | (Refused) e where "m' = m" "r = Inl e" "by_name m (name, six) = None"
  | (Fresh) ip m1 where "by_name m (name, six) = None" "r = Inr ip" "m' = fake_insert name ip m1" "next_slot d six m = Inr (m1, ip)"
      "by_ip m ip = None" "is_ipv6 ip = six" "fake_ok d m'"
proof (cases "by_name m (name, six)")
  case (Some ip)
  then have "m' = m" "r = Inr ip" using assms(1) by (simp_all add: fake_address_def)
  then show thesis using Known Some by blast
next
  case None
  show thesis
  proof (cases "card (dom (by_name m)) < 32768")
    case cap: True
    show thesis
    proof (cases "next_slot d six m")
      case (Inl e)
      then have "m' = m" "r = Inl e" using assms(1) None cap by (auto simp: fake_address_def next_slot_def)
      then show thesis using Refused None by blast
    next
      case (Inr x)
      obtain m1 ip where x: "x = (m1, ip)" by (cases x)
      note slot = next_slot_Inr [OF Inr [unfolded x] assms(2,3)]
      have eq: "r = Inr ip" "m' = fake_insert name ip m1"
        using assms(1) None cap Inr x slot(1) by (auto simp: fake_address_def next_slot_def fake_insert_def)
      have free: "by_ip m ip = None" using fake_ok_below [OF assms(2), of ip] slot(1,3) by (cases "by_ip m ip") auto
      have "fake_ok d m'"
        unfolding eq by (rule fake_ok_insert [OF assms(2) slot(4,5) _ slot(7) free _ slot(2) _ cap]) (use slot None in auto)
      then show thesis using Fresh None eq Inr x free slot(1) by blast
    qed
  next
    case False
    then have "m' = m" "\<exists>e. r = Inl e" using assms(1) None by (auto simp: fake_address_def)
    then show thesis using Refused None by blast
  qed
qed

lemma fake_address_ok:
  assumes "fake_ok d m" and "fake_tight d m" and "proper_pool d" and "normal_host name = name"
  shows "fake_ok d (fst (fake_address d name six m)) \<and> fake_tight d (fst (fake_address d name six m))"
proof -
  obtain m' r where e: "fake_address d name six m = (m', r)" by fastforce
  from e assms(1,3) have "fake_ok d m' \<and> fake_tight d m'"
  proof (cases rule: fake_address_cases)
    case (Fresh ip m1)
    note slot = next_slot_Inr [OF Fresh(4) assms(1,3)]
    have "next_offset m' x = 2 \<or> (\<exists>y \<in> dom (by_ip m'). is_ipv6 y = x \<and> next_offset m' x = pool_offset d y + 1)" for x
      using assms(2) slot unfolding Fresh(3) fake_tight_def fake_insert_simps by (cases "x = six") auto
    moreover have "\<forall>n \<in> ran (by_ip m'). normal_host n = n"
      using assms(2,4) slot(5) unfolding Fresh(3) fake_tight_def fake_insert_simps by (auto simp: ran_def)
    ultimately show ?thesis using Fresh(7) by (simp add: fake_tight_def)
  qed (use assms in simp_all)
  then show ?thesis by (simp add: e)
qed

lemma fake_reachable_ok: "fake_reachable absolute_name d m \<Longrightarrow> proper_pool d \<Longrightarrow> fake_ok d m \<and> fake_tight d m"
  by (induction rule: fake_reachable.induct) (simp_all add: fake_new_ok import_ok fake_address_ok)

section \<open>Saving and restoring\<close>

text \<open>The maps by name and the next addresses follow from the map by address.\<close>

lemma fake_next_determined:
  assumes "fake_ok d m" "fake_tight d m" "fake_ok d m'" "fake_tight d m'" and same: "by_ip m = by_ip m'"
  shows "next_offset m six \<le> next_offset m' six"
proof -
  have "2 \<le> next_offset m' six" using assms(3) by (cases six) (simp_all add: fake_ok_def)
  moreover have "next_offset m six \<le> next_offset m' six"
    if "ip \<in> dom (by_ip m')" "is_ipv6 ip = six" "next_offset m six = pool_offset d ip + 1" for ip
    using that fake_ok_below [OF assms(3), of ip] by auto
  moreover have "next_offset m six = 2 \<or> (\<exists>ip \<in> dom (by_ip m'). is_ipv6 ip = six \<and> next_offset m six = pool_offset d ip + 1)"
    using assms(2) same by (simp add: fake_tight_def)
  ultimately show ?thesis by metis
qed

lemma fake_determined:
  assumes "fake_ok d m" "fake_tight d m" "fake_ok d m'" "fake_tight d m'" and same: "by_ip m = by_ip m'"
  shows "m = m'"
proof (rule fake_map_eqI)
  show "by_name m = by_name m'"
  proof
    fix k show "by_name m k = by_name m' k"
      using fake_ok_bij [OF assms(1), of "fst k" "snd k"] fake_ok_bij [OF assms(3), of "fst k" "snd k"] same by (metis not_Some_eq prod.collapse)
  qed
qed (use same fake_next_determined [OF assms(1-4)] fake_next_determined [OF assms(3,4,1,2)] in \<open>auto intro: antisym\<close>)

lemma fake_card: "fake_ok d m \<Longrightarrow> card (dom (by_ip m)) = card (dom (by_name m))"
proof -
  assume ok: "fake_ok d m"
  have "bij_betw (\<lambda>ip. (the (by_ip m ip), is_ipv6 ip)) (dom (by_ip m)) (dom (by_name m))"
  proof (rule bij_betw_byWitness [where f' = "\<lambda>k. the (by_name m k)"])
    have ip: "by_name m (the (by_ip m ip), is_ipv6 ip) = Some ip" if "ip \<in> dom (by_ip m)" for ip
      using that fake_ok_bij [OF ok, of "the (by_ip m ip)" "is_ipv6 ip" ip] by auto
    have nm: "by_ip m (the (by_name m k)) = Some (fst k) \<and> is_ipv6 (the (by_name m k)) = snd k" if "k \<in> dom (by_name m)" for k
      using that fake_ok_bij [OF ok, of "fst k" "snd k" "the (by_name m k)"] by auto
    show "\<forall>ip \<in> dom (by_ip m). the (by_name m (the (by_ip m ip), is_ipv6 ip)) = ip" using ip by simp
    show "\<forall>k \<in> dom (by_name m). (the (by_ip m (the (by_name m k))), is_ipv6 (the (by_name m k))) = k" using nm by simp
    show "(\<lambda>ip. (the (by_ip m ip), is_ipv6 ip)) ` dom (by_ip m) \<subseteq> dom (by_name m)" using ip by blast
    show "(\<lambda>k. the (by_name m k)) ` dom (by_name m) \<subseteq> dom (by_ip m)" using nm by blast
  qed
  then show ?thesis by (rule bij_betw_same_card)
qed

lemma import_export_loop:
  assumes ok: "fake_ok d m" and names: "\<forall>name \<in> ran (by_ip m). normal_host name = name \<and> absolute_name name = Inr ()" and proper: "proper_pool d"
    and "fake_ok d s" "fake_tight d s" "by_ip s = by_ip m |` D" "distinct order" "set order \<inter> D = {}" "set order \<subseteq> dom (by_ip m)"
    and "card (dom (by_name s)) + length order \<le> 32768"
  shows "\<exists>s'. import_loop absolute_name d (export_fake order m) s = Inr s' \<and> by_ip s' = by_ip m |` (D \<union> set order)"
  using assms(4-)
proof (induction order arbitrary: s D)
  case (Cons ip order)
  obtain name where n: "by_ip m ip = Some name" using Cons.prems(6) by auto
  have nm: "normal_host name = name" "absolute_name name = Inr ()" using names n by (auto simp: ran_def)
  obtain s1 where s1: "saved_slot d ip s = Inr s1" using saved_slot_ok proper fake_ok_below [OF ok n] by blast
  note slot = saved_slot_Inr [OF s1]
  have free: "by_ip s1 ip = None" using Cons.prems(3,5) slot(3) by simp
  have "by_name s (name, is_ipv6 ip) = None"
  proof (rule ccontr)
    assume "by_name s (name, is_ipv6 ip) \<noteq> None"
    then obtain ip' where "by_ip s ip' = Some name" "is_ipv6 ip' = is_ipv6 ip" using fake_ok_bij [OF Cons.prems(1)] by blast
    then have "by_ip m ip' = Some name" "ip' \<in> D" using Cons.prems(3) by (auto simp: restrict_map_def split: if_splits)
    then have "ip' = ip" using fake_ok_bij [OF ok] n \<open>is_ipv6 ip' = is_ipv6 ip\<close> by (metis option.inject)
    then show False using \<open>ip' \<in> D\<close> Cons.prems(5) by simp
  qed
  then have e: "import_entry absolute_name d (name, ip) s = Inr (fake_insert name ip s1)"
    using s1 free slot(2) nm by (simp add: import_entry_def saved_slot_def [symmetric] fake_insert_def)
  have cap: "card (dom (by_name s)) < 32768" using Cons.prems(7) by simp
  note ok1 = import_entry_ok [OF e Cons.prems(1,2) cap]
  have "by_ip (fake_insert name ip s1) = by_ip m |` (insert ip D)"
    using slot(3) Cons.prems(3) n by (auto simp: restrict_map_def)
  moreover have "card (dom (by_name (fake_insert name ip s1))) + length order \<le> 32768"
    using ok1 Cons.prems(7) by (simp del: fake_insert_simps)
  ultimately have "\<exists>s'. import_loop absolute_name d (export_fake order m) (fake_insert name ip s1) = Inr s' \<and> by_ip s' = by_ip m |` (insert ip D \<union> set order)"
    using Cons.prems(4-6) ok1 by (intro Cons.IH) (simp_all del: fake_insert_simps)
  moreover have "import_loop absolute_name d (export_fake (ip # order) m) s = import_loop absolute_name d (export_fake order m) (fake_insert name ip s1)"
    using e n by (simp add: export_fake_def)
  moreover have "insert ip D \<union> set order = D \<union> set (ip # order)" by auto
  ultimately show ?case by metis
qed (simp add: export_fake_def)

lemma import_export:
  assumes ok: "fake_ok d m" "fake_tight d m" and names: "\<forall>name \<in> ran (by_ip m). absolute_name name = Inr ()" and proper: "proper_pool d"
    and order: "distinct order" "set order = dom (by_ip m)"
  shows "resolver_import_fake absolute_name d (export_fake order m) m0 = (m, Inr ())"
proof -
  have len: "length order \<le> 32768" using fake_card [OF ok(1)] ok(1) order distinct_card by (metis fake_ok_def)
  have "\<forall>name \<in> ran (by_ip m). normal_host name = name \<and> absolute_name name = Inr ()" using names ok(2) by (simp add: fake_tight_def)
  from import_export_loop [OF ok(1) this proper fake_new_ok, of "{}" order]
  obtain s where s: "import_loop absolute_name d (export_fake order m) fake_map_new = Inr s" "by_ip s = by_ip m |` set order"
    using order len by (auto simp: fake_map_new_def)
  have "length (export_fake order m) \<le> 32768" using len by (simp add: export_fake_def)
  moreover have "card (dom (by_name fake_map_new)) = 0" by (simp add: fake_map_new_def)
  ultimately have "fake_ok d s \<and> fake_tight d s" using import_loop_ok [OF s(1) fake_new_ok] by linarith
  moreover have "by_ip s = by_ip m" using s(2) order(2) by (auto simp: restrict_map_def fun_eq_iff)
  ultimately have "s = m" using fake_determined ok by blast
  then show ?thesis using s(1) \<open>length (export_fake order m) \<le> 32768\<close> by (simp add: resolver_import_fake_def)
qed

section \<open>Properties\<close>

text \<open>C15: A fake address belongs to one name. Whatever was imported and asked for before, an answered
  address lies in the pool of its family, was free or already stood for this name, every earlier
  mapping stays in force, asking again gives the same address, and a connection to the address is
  traced back to the name.\<close>

theorem fake_address_sound:
  assumes "fake_reachable absolute_name d m" and "proper_pool d" and "fake_address d name six m = (m', Inr ip)"
  shows "is_ipv6 ip = six \<and> in_pool d ip \<and> by_ip m ip \<in> {None, Some name} \<and> by_ip m \<subseteq>\<^sub>m by_ip m'
    \<and> fake_address d name six m' = (m', Inr ip)
    \<and> (\<forall>t. targ_ip t = Some ip \<longrightarrow> restore_target m' t = \<lparr>host = name, t_port = t_port t\<rparr>)"
proof -
  have ok: "fake_ok d m" using fake_reachable_ok [OF assms(1,2)] by simp
  have *: "is_ipv6 ip = six \<and> in_pool d ip \<and> by_ip m ip \<in> {None, Some name} \<and> by_ip m \<subseteq>\<^sub>m by_ip m'
    \<and> by_name m' (name, six) = Some ip \<and> by_ip m' ip = Some name"
    using assms(3) ok assms(2)
  proof (cases rule: fake_address_cases)
    case (Known ip')
    then show ?thesis using fake_ok_bij [OF ok, of name six ip] fake_ok_below [OF ok, of ip name] by simp
  next
    case (Fresh ip' m1)
    note slot = next_slot_Inr [OF Fresh(4) ok assms(2)]
    then show ?thesis using Fresh by (auto simp: map_le_def)
  qed simp
  then show ?thesis by (simp add: fake_address_def restore_target_def original_def)
qed

theorem fake_address_sound_witness:
  "is_ipv6 (V4 0xC6120002) = False \<and> in_pool dns_default (V4 0xC6120002)"
proof -
  have "fake_address dns_default ''test.org'' False fake_map_new =
      (fst (fake_address dns_default ''test.org'' False fake_map_new), Inr (V4 0xC6120002))"
    by (simp add: fake_address_def fake_map_new_def next_v4_def dns_default_def Let_def)
  from fake_address_sound [OF fake_reachable.New [of "\<lambda>_. Inr ()"] _ this] show ?thesis
    by (simp add: proper_pool_def dns_default_def)
qed

text \<open>C16: The saved fake addresses restore the pool. In whatever order a reachable pool is exported, importing
  the entries into any pool gives exactly the exported pool back, the next addresses to hand out
  included, if the names are still accepted.\<close>

theorem export_import_fake:
  assumes "fake_reachable absolute_name d m" and "proper_pool d"
    and "distinct order" and "set order = dom (by_ip m)" and "\<forall>name \<in> ran (by_ip m). absolute_name name = Inr ()"
  shows "resolver_import_fake absolute_name d (export_fake order m) m0 = (m, Inr ())"
  using import_export [OF _ _ assms(5,2,3,4)] fake_reachable_ok [OF assms(1,2)] by blast

theorem export_import_fake_witness:
  "resolver_import_fake (\<lambda>_. Inr ()) dns_default (export_fake [V4 0xC6120002] (fst (fake_address dns_default (normal_host ''a'') False fake_map_new))) fake_map_new
     = (fst (fake_address dns_default (normal_host ''a'') False fake_map_new), Inr ())"
proof (rule export_import_fake)
  show "fake_reachable (\<lambda>_. Inr ()) dns_default (fst (fake_address dns_default (normal_host ''a'') False fake_map_new))"
    by (rule fake_reachable.Answer [OF fake_reachable.New])
  show "set [V4 0xC6120002] = dom (by_ip (fst (fake_address dns_default (normal_host ''a'') False fake_map_new)))"
    by (simp add: fake_address_def fake_map_new_def next_v4_def dns_default_def Let_def)
qed (simp_all add: proper_pool_def dns_default_def)

end
