(* ===== verification/Policy.thy ===== *)
theory Policy
  imports Resolver
begin

text \<open>
  The routing policy of \<^verbatim>\<open>crates/core\<close>: the mutable part of a core, the selection of the groups, the
  choice of an outbound for a target (\<^verbatim>\<open>core/src/lib.rs\<close>), the saved profile
  (\<^verbatim>\<open>core/src/profile.rs\<close>) and the connection table (\<^verbatim>\<open>core/src/traffic.rs\<close>). The resolver is part of
  the state. What a DNS lookup, a file or a probe returns is an argument of the operation that asks for it.
\<close>

section \<open>State\<close>

record ('r, 'x) policy =
  mode :: mode
  rule_list :: "('r, 'x) rule list"
  raw_rules :: "str list"
  selection :: "str \<rightharpoonup> str"
  delay :: "str \<rightharpoonup> u64"

record connection =
  metadata :: targ
  c_network :: str
  chains :: "str list"
  c_upload :: u64
  c_download :: u64
  active :: u64
  cancel :: bool

record ('r, 'x) core =
  config :: config
  resolver :: "('r, 'x) resolver"
  policy :: "('r, 'x) policy"
  matchers :: "('r, 'x) resources"
  stop :: bool
  connections :: "str \<rightharpoonup> connection"
  upload :: u64
  download :: u64
  lifecycle :: bool

record route_decision =
  node :: str
  rd_group :: str
  rd_rule :: str

section \<open>Construction\<close>

definition first_selection :: "group list \<Rightarrow> str \<rightharpoonup> str" where
  "first_selection gs = foldl (\<lambda>m g. m(g_name g \<mapsto> g_proxies g ! 0)) Map.empty gs"

definition core_new :: "('r, 'x) crates \<Rightarrow> libs \<Rightarrow> config \<Rightarrow> ('r, 'x) core result" where
  "core_new X L cfg =
     and_then (validate X L cfg) (\<lambda>_.
     and_then (map_result (rule_parse X) (rules cfg)) (\<lambda>rs.
       Inr \<lparr>config = cfg,
            resolver = set_hosts (hosts cfg) (resolver_new ((dns_opts cfg)\<lparr>dns_ipv6 := dns_ipv6 (dns_opts cfg) \<and> ipv6 cfg\<rparr>)),
            policy = \<lparr>mode = cfg_mode cfg, rule_list = rs, raw_rules = rules cfg,
                      selection = first_selection (proxy_groups cfg), delay = Map.empty\<rparr>,
            matchers = Map.empty, stop = False, connections = Map.empty, upload = 0, download = 0,
            lifecycle = False\<rparr>))"

section \<open>Selection\<close>

fun leaf_loop :: "(str \<rightharpoonup> str) \<Rightarrow> nat \<Rightarrow> str \<Rightarrow> str result" where
  "leaf_loop sel 0 name = Inl ''group cycle''"
| "leaf_loop sel (Suc n) name =
     (case sel name of Some s \<Rightarrow> leaf_loop sel n s | None \<Rightarrow> Inr name)"

definition global_name :: "config \<Rightarrow> str" where
  "global_name cfg =
     (case proxy_groups cfg of
        g # _ \<Rightarrow> g_name g
      | [] \<Rightarrow> (case proxies cfg of p # _ \<Rightarrow> p_name p | [] \<Rightarrow> ''DIRECT''))"

definition leaf :: "('r, 'x) core \<Rightarrow> str \<Rightarrow> str result" where
  "leaf c name =
     leaf_loop (selection (policy c)) (length (proxy_groups (config c)) + 1)
       (if name = ''GLOBAL'' then global_name (config c) else name)"

record saved =
  saved_selection :: "(str \<times> str) list"
  saved_fake :: "(str \<times> ip_addr) list"

text \<open>The profile on disk: absent, unreadable, or of some length with the decoded contents.\<close>

datatype profile_file = Missing | Unreadable error | File nat "saved result"

definition store_profile :: "('r, 'x) core \<Rightarrow> bool" where
  "store_profile c \<longleftrightarrow> store_selected (profile_opts (config c)) \<or> store_fake_ip (profile_opts (config c))"

fun load_selection :: "group list \<Rightarrow> (str \<rightharpoonup> str) \<Rightarrow> (str \<times> str) list \<Rightarrow> (str \<rightharpoonup> str)" where
  "load_selection gs sel [] = sel"
| "load_selection gs sel ((g, n) # r) =
     load_selection gs
       (if list_ex (\<lambda>x. g_name x = g \<and> n \<in> set (g_proxies x)) gs then sel(g \<mapsto> n) else sel) r"

definition load_profile :: "profile_file \<Rightarrow> (str \<Rightarrow> unit result) \<Rightarrow> ('r, 'x) core \<Rightarrow> ('r, 'x) core \<times> unit result" where
  "load_profile file absolute_name c =
     (if \<not> store_profile c then (c, Inr ())
      else
        (case file of
           Missing \<Rightarrow> (c, Inr ())
         | Unreadable e \<Rightarrow> (c, Inl e)
         | File len contents \<Rightarrow>
             (case and_then (ensure (len \<le> 8 * 1024 * 1024) ''profile too large'') (\<lambda>_. contents) of
                Inl e \<Rightarrow> (c, Inl e)
              | Inr s \<Rightarrow>
                  (case (if store_fake_ip (profile_opts (config c)) then import_fake absolute_name (saved_fake s) (resolver c)
                         else (resolver c, Inr ())) of
                     (r, Inl e) \<Rightarrow> (c\<lparr>resolver := r\<rparr>, Inl e)
                   | (r, Inr _) \<Rightarrow>
                       (if store_selected (profile_opts (config c))
                        then c\<lparr>resolver := r, policy := (policy c)\<lparr>selection :=
                               load_selection (proxy_groups (config c)) (selection (policy c)) (saved_selection s)\<rparr>\<rparr>
                        else c\<lparr>resolver := r\<rparr>, Inr ())))))"

text \<open>
  \<^verbatim>\<open>save_profile\<close> writes the selection and the fake addresses; \<open>write\<close> is what the file system answers, \<open>order\<close> the
  order in which the hash map lists the addresses.
\<close>

definition save_profile :: "((str \<rightharpoonup> str) \<Rightarrow> (str \<times> ip_addr) list \<Rightarrow> unit result) \<Rightarrow> ip_addr list \<Rightarrow> ('r, 'x) core \<Rightarrow> unit result" where
  "save_profile write order c =
     (if \<not> store_profile c then Inr ()
      else write (if store_selected (profile_opts (config c)) then selection (policy c) else Map.empty)
             (if store_fake_ip (profile_opts (config c)) then export_fake order (r_fake (resolver c)) else []))"

definition select :: "('r, 'x) core \<Rightarrow> (('r, 'x) core \<Rightarrow> unit result) \<Rightarrow> str \<Rightarrow> str \<Rightarrow> ('r, 'x) core \<times> unit result" where
  "select c save g n =
     (case find (\<lambda>x. g_name x = g) (proxy_groups (config c)) of
        None \<Rightarrow> (c, Inl ''group not found'')
      | Some x \<Rightarrow>
          if n \<notin> set (g_proxies x) then (c, Inl ''node not in group'')
          else
            let c' = c\<lparr>policy := (policy c)\<lparr>selection := (selection (policy c))(g \<mapsto> n)\<rparr>\<rparr>
            in (c', save c'))"

section \<open>Policy updates\<close>

definition set_mode :: "mode \<Rightarrow> ('r, 'x) core \<Rightarrow> ('r, 'x) core" where
  "set_mode m c = c\<lparr>policy := (policy c)\<lparr>mode := m\<rparr>\<rparr>"

definition update_policy :: "('r, 'x) crates \<Rightarrow> libs \<Rightarrow> mode option \<Rightarrow> str list option \<Rightarrow> ('r, 'x) core \<Rightarrow> ('r, 'x) core \<times> unit result" where
  "update_policy X L m rs c =
     (let raw = (case rs of Some rs \<Rightarrow> rs | None \<Rightarrow> raw_rules (policy c));
          cfg = (config c)\<lparr>rules := raw\<rparr>;
          cfg = (case m of Some m \<Rightarrow> cfg\<lparr>cfg_mode := m\<rparr> | None \<Rightarrow> cfg)
      in case and_then (validate X L cfg) (\<lambda>_. resources_rules X (matchers c) (rules cfg)) of
           Inl e \<Rightarrow> (c, Inl e)
         | Inr bound \<Rightarrow>
             let p = policy c;
                 p = (if rs \<noteq> None then p\<lparr>rule_list := bound, raw_rules := rules cfg\<rparr> else p);
                 p = (case m of Some m \<Rightarrow> p\<lparr>mode := m\<rparr> | None \<Rightarrow> p)
             in (c\<lparr>policy := p\<rparr>, Inr ()))"

text \<open>
  \<open>loaded\<close> is what \<^verbatim>\<open>Resources::load\<close> returned; \<open>lookups\<close> are the answers the resolver has cached for its
  downloads meanwhile.
\<close>

definition prepare_resources ::
  "('r, 'x) crates \<Rightarrow> cache_write list \<Rightarrow> ('r, 'x) resources result \<Rightarrow> ('r, 'x) core \<Rightarrow> ('r, 'x) core \<times> unit result" where
  "prepare_resources X lookups loaded c =
     (let c = c\<lparr>resolver := cache_answers lookups (resolver c)\<rparr>
      in case and_then loaded (\<lambda>next. and_then (resources_rules X next (raw_rules (policy c))) (\<lambda>rs. Inr (next, rs))) of
           Inl e \<Rightarrow> (c, Inl e)
         | Inr (next, rs) \<Rightarrow>
             (case resolver_configure X (hosts (config c)) next (resolver c) of
                (r, Inl e) \<Rightarrow> (c\<lparr>resolver := r\<rparr>, Inl e)
              | (r, Inr _) \<Rightarrow>
                  (c\<lparr>resolver := r, policy := (policy c)\<lparr>rule_list := rs\<rparr>, matchers := next\<rparr>, Inr ())))"

section \<open>Health checks\<close>

text \<open>A successful probe records its delay; one round of \<^verbatim>\<open>url-test\<close> probes the members in order.\<close>

definition probe :: "str \<Rightarrow> u64 result \<Rightarrow> ('r, 'x) core \<Rightarrow> ('r, 'x) core" where
  "probe name elapsed c =
     (case elapsed of
        Inl _ \<Rightarrow> c
      | Inr d \<Rightarrow> c\<lparr>policy := (policy c)\<lparr>delay := (delay (policy c))(name \<mapsto> d)\<rparr>\<rparr>)"

fun probe_loop :: "(str \<Rightarrow> u64 result) \<Rightarrow> (str \<times> u64) option \<Rightarrow> str list \<Rightarrow> ('r, 'x) core \<Rightarrow> (str \<times> u64) option \<times> ('r, 'x) core" where
  "probe_loop elapsed best [] c = (best, c)"
| "probe_loop elapsed best (t # ts) c =
     probe_loop elapsed
       (case elapsed t of
          Inr d \<Rightarrow> (case best of None \<Rightarrow> Some (t, d) | Some (_, d') \<Rightarrow> if d < d' then Some (t, d) else best)
        | Inl _ \<Rightarrow> best)
       ts (probe t (elapsed t) c)"

definition saturating_add :: "u64 \<Rightarrow> u64 \<Rightarrow> u64" where
  "saturating_add a b = (if unat a + unat b < 2 ^ 64 then a + b else - 1)"

definition url_test :: "(str \<Rightarrow> u64 result) \<Rightarrow> group \<Rightarrow> ('r, 'x) core \<Rightarrow> ('r, 'x) core" where
  "url_test elapsed g c =
     (case probe_loop elapsed None (g_proxies g) c of
        (None, c) \<Rightarrow> c
      | (Some (t, d), c) \<Rightarrow>
          let p = policy c;
              old = (case Option.bind (selection p (g_name g)) (delay p) of Some d \<Rightarrow> d | None \<Rightarrow> - 1)
          in if saturating_add d (tolerance g) < old
             then c\<lparr>policy := p\<lparr>selection := (selection p)(g_name g \<mapsto> t)\<rparr>\<rparr> else c)"

section \<open>Route decisions\<close>

fun without_last_loop :: "str \<Rightarrow> str \<Rightarrow> nat \<Rightarrow> nat \<Rightarrow> str" where
  "without_last_loop raw expected depth 0 = raw"
| "without_last_loop raw expected depth (Suc i) =
     (if raw ! i = CHR '')'' then without_last_loop raw expected (depth + 1) i
      else if raw ! i = CHR ''('' then without_last_loop raw expected (depth - 1) i
      else if raw ! i = CHR '','' \<and> depth = 0 \<and> eq_ignore_ascii_case (trim (drop (i + 1) raw)) expected
      then trim_end (take i raw)
      else without_last_loop raw expected depth i)"

definition without_last_rule_field :: "str \<Rightarrow> str \<Rightarrow> str" where
  "without_last_rule_field raw expected = without_last_loop raw expected 0 (length raw)"

definition rule_names :: "(str \<times> str) list" where
  "rule_names =
     [(''DOMAIN'', ''Domain''), (''DOMAIN-SUFFIX'', ''DomainSuffix''), (''DOMAIN-KEYWORD'', ''DomainKeyword''),
      (''DOMAIN-REGEX'', ''DomainRegex''), (''IP-CIDR'', ''IPCIDR''), (''IP-CIDR6'', ''IPCIDR6''),
      (''GEOIP'', ''GeoIP''), (''GEOSITE'', ''GeoSite''), (''RULE-SET'', ''RuleSet''), (''DST-PORT'', ''DstPort''),
      (''NETWORK'', ''Network''), (''AND'', ''And''), (''OR'', ''Or''), (''NOT'', ''Not'')]"

definition describe_rule :: "str \<Rightarrow> str \<Rightarrow> str" where
  "describe_rule raw tgt =
     (let raw = without_last_rule_field (without_last_rule_field raw ''no-resolve'') tgt
      in case split_once (CHR '','') raw of
           None \<Rightarrow> if eq_ignore_ascii_case raw ''MATCH'' then ''Match'' else raw
         | Some (kind, val) \<Rightarrow>
             (case map_of rule_names (to_ascii_uppercase (trim kind)) of Some n \<Rightarrow> n | None \<Rightarrow> trim kind)
             @ ''('' @ trim val @ '')'')"

text \<open>The loop over the rules: the address known so far and whether a lookup was made.\<close>

fun route_loop :: "('r, 'x) crates \<Rightarrow> ip_addr option \<Rightarrow> str \<Rightarrow> u16 \<Rightarrow> str \<Rightarrow> nat \<Rightarrow> ip_addr option \<Rightarrow> bool \<Rightarrow> ('r, 'x) rule list \<Rightarrow> (nat \<times> ('r, 'x) rule) option" where
  "route_loop X answer h p nw index ip resolved [] = None"
| "route_loop X answer h p nw index ip resolved (r # rs) =
     (let matched = evaluate X (matcher r) h ip p nw (\<not> no_resolve r \<and> \<not> resolved);
          look = (matched = None \<and> \<not> no_resolve r \<and> \<not> resolved);
          ip = (if look then answer else ip);
          resolved = (resolved \<or> look)
      in if matched = Some True \<or> matched = None \<and> rule_matches X r h ip p nw then Some (index, r)
         else route_loop X answer h p nw (index + 1) ip resolved rs)"

text \<open>\<open>lookup\<close> is what the resolver returns for the host and port of the target.\<close>

definition route_decision :: "('r, 'x) crates \<Rightarrow> (str \<Rightarrow> u16 \<Rightarrow> socket_addr list result) \<Rightarrow> ('r, 'x) core \<Rightarrow> targ \<Rightarrow> str \<Rightarrow> route_decision result" where
  "route_decision X lookup c t nw =
     (case mode (policy c) of
        Direct \<Rightarrow> Inr \<lparr>node = ''DIRECT'', rd_group = ''DIRECT'', rd_rule = ''Mode(Direct)''\<rparr>
      | Global \<Rightarrow>
          and_then (leaf c ''GLOBAL'') (\<lambda>n. Inr \<lparr>node = n, rd_group = ''GLOBAL'', rd_rule = ''Mode(Global)''\<rparr>)
      | Rule \<Rightarrow>
          let answer = (case lookup (host t) (t_port t) of Inr ((ip, _) # _) \<Rightarrow> Some ip | _ \<Rightarrow> None)
          in case route_loop X answer (to_ascii_lowercase (trim_end_matches (CHR ''.'') (host t))) (t_port t) nw 0
                    (targ_ip t) (targ_ip t \<noteq> None) (rule_list (policy c)) of
               Some (i, r) \<Rightarrow>
                 and_then (leaf c (target r)) (\<lambda>n.
                   Inr \<lparr>node = n, rd_group = target r,
                        rd_rule = (if i < length (raw_rules (policy c))
                                   then describe_rule (raw_rules (policy c) ! i) (target r) else ''Match'')\<rparr>)
             | None \<Rightarrow> Inr \<lparr>node = ''DIRECT'', rd_group = ''DIRECT'', rd_rule = ''Fallback''\<rparr>)"

section \<open>What validation establishes\<close>

definition proxy_names :: "config \<Rightarrow> str set" where
  "proxy_names cfg = p_name ` set (proxies cfg)"

definition group_names :: "config \<Rightarrow> str set" where
  "group_names cfg = g_name ` set (proxy_groups cfg)"

definition all_names :: "config \<Rightarrow> str set" where
  "all_names cfg = reserved \<union> proxy_names cfg \<union> group_names cfg"

lemma proxies_loop_Inr:
  assumes "proxies_loop L cfg names ps = Inr names'"
  shows "names' = names \<union> p_name ` set ps \<and> distinct (map p_name ps) \<and> names \<inter> p_name ` set ps = {}"
  using assms by (induction ps arbitrary: names) (fastforce simp: and_then_Inr)+

lemma groups_loop_Inr:
  assumes "groups_loop names gs = Inr names'"
  shows "names' = names \<union> g_name ` set gs \<and> distinct (map g_name gs) \<and> names \<inter> g_name ` set gs = {}
    \<and> (\<forall>g \<in> set gs. g_proxies g \<noteq> [])"
  using assms by (induction gs arbitrary: names) (fastforce simp: and_then_Inr)+

lemma validate_facts:
  assumes "validate X L cfg = Inr ()"
  shows "distinct (map g_name (proxy_groups cfg))"
    and "(reserved \<union> proxy_names cfg) \<inter> group_names cfg = {}"
    and "\<forall>g \<in> set (proxy_groups cfg). g_proxies g \<noteq> [] \<and> visit (proxy_groups cfg) (all_names cfg) {} (g_name g) = Inr ()"
    and "\<forall>raw \<in> set (rules cfg). rule_checks X cfg (all_names cfg) raw = Inr ()"
proof -
  obtain n1 n2 where n: "proxies_loop L cfg reserved (proxies cfg) = Inr n1" "groups_loop n1 (proxy_groups cfg) = Inr n2"
    and v: "\<forall>g \<in> set (proxy_groups cfg). visit (proxy_groups cfg) n2 {} (g_name g) = Inr ()"
    and r: "\<forall>raw \<in> set (rules cfg). rule_checks X cfg n2 raw = Inr ()"
    using assms unfolding validate_def and_then_Inr for_each_Inr by blast
  have 1: "n1 = reserved \<union> proxy_names cfg" using proxies_loop_Inr [OF n(1)] by (simp add: proxy_names_def)
  note 2 = groups_loop_Inr [OF n(2), folded group_names_def]
  have 3: "n2 = all_names cfg" using 1 2 by (simp add: all_names_def)
  show "distinct (map g_name (proxy_groups cfg))" "(reserved \<union> proxy_names cfg) \<inter> group_names cfg = {}"
    "\<forall>g \<in> set (proxy_groups cfg). g_proxies g \<noteq> [] \<and> visit (proxy_groups cfg) (all_names cfg) {} (g_name g) = Inr ()"
    "\<forall>raw \<in> set (rules cfg). rule_checks X cfg (all_names cfg) raw = Inr ()"
    using 1 2 3 v r by auto
qed

lemma group_named_unique:
  assumes "distinct (map g_name gs)" and "g \<in> set gs"
  shows "group_named gs (g_name g) = Some g"
proof (cases "group_named gs (g_name g)")
  case None
  then show ?thesis using assms(2) by (auto simp: group_named_def find_None_iff)
next
  case (Some h)
  then have "h \<in> set gs" "g_name h = g_name g" using group_named_Some by blast+
  moreover have "inj_on g_name (set gs)" using assms(1) by (simp add: distinct_map)
  ultimately have "h = g" using assms(2) by (auto dest: inj_onD)
  then show ?thesis using Some by simp
qed

text \<open>A walk that follows one member per group, as the selection does, ends within the number of groups.\<close>

definition selects :: "group list \<Rightarrow> (str \<rightharpoonup> str) \<Rightarrow> bool" where
  "selects gs sel \<longleftrightarrow> dom sel = g_name ` set gs \<and> (\<forall>g \<in> set gs. the (sel (g_name g)) \<in> set (g_proxies g))"

lemma leaf_loop_visit:
  assumes "distinct (map g_name gs)" and "selects gs sel"
    and "visit gs names path n = Inr ()" and "card (g_name ` set gs - path) < fuel"
  shows "\<exists>m. leaf_loop sel fuel n = Inr m \<and> m \<in> names \<and> m \<noteq> ''GLOBAL'' \<and> m \<notin> g_name ` set gs"
  using assms(3,4)
proof (induction fuel arbitrary: n path)
  case (Suc fuel)
  have n: "n \<in> names" "n \<noteq> ''GLOBAL''"
    using Suc.prems(1) by (subst (asm) visit.simps, simp add: and_then_Inr)+
  show ?case
  proof (cases "sel n")
    case None
    then have "n \<notin> dom sel" by blast
    then show ?thesis using n assms(2) None by (simp add: selects_def)
  next
    case (Some s)
    then have "n \<in> g_name ` set gs" using assms(2) by (auto simp: selects_def)
    then obtain g where g: "g \<in> set gs" "g_name g = n" by blast
    then have gn: "group_named gs n = Some g" using group_named_unique assms(1) by blast
    have "n \<notin> path" and all: "\<forall>c \<in> set (g_proxies g). visit gs names (insert n path) c = Inr ()"
      using Suc.prems(1) gn by (subst (asm) visit.simps, simp add: and_then_Inr split: if_splits)+
    have "s \<in> set (g_proxies g)" using assms(2) g Some by (auto simp: selects_def)
    moreover have "card (g_name ` set gs - insert n path) < card (g_name ` set gs - path)"
      using \<open>n \<notin> path\<close> \<open>n \<in> g_name ` set gs\<close> by (intro psubset_card_mono) auto
    ultimately show ?thesis using Suc all Some by auto
  qed
qed simp

definition outbounds :: "config \<Rightarrow> str set" where
  "outbounds cfg = {''DIRECT'', ''REJECT''} \<union> proxy_names cfg"

lemma visit_leaf:
  assumes "visit gs names {} n = Inr ()" "distinct (map g_name gs)" "selects gs sel"
  shows "\<exists>m. leaf_loop sel (length gs + 1) n = Inr m \<and> m \<in> names \<and> m \<noteq> ''GLOBAL'' \<and> m \<notin> g_name ` set gs"
proof -
  have "card (g_name ` set gs - {}) < length gs + 1"
    using card_image_le [of "set gs" g_name] card_length [of gs] by simp
  then show ?thesis using leaf_loop_visit [OF assms(2,3,1)] by blast
qed

lemma leaf_outbound:
  assumes v: "validate X L (config c) = Inr ()" and s: "selects (proxy_groups (config c)) (selection (policy c))"
    and n: "n \<in> all_names (config c)"
  shows "\<exists>m. leaf c n = Inr m \<and> m \<in> outbounds (config c)"
proof -
  let ?gs = "proxy_groups (config c)"
  note f = validate_facts [OF v]
  have out: "m \<in> outbounds (config c)"
    if "m \<in> all_names (config c)" "m \<noteq> ''GLOBAL''" "m \<notin> g_name ` set ?gs" for m
    using that by (auto simp: all_names_def outbounds_def group_names_def reserved_def)
  have grp: "\<exists>m. leaf_loop (selection (policy c)) (length ?gs + 1) g = Inr m \<and> m \<in> outbounds (config c)"
    if "g \<in> g_name ` set ?gs" for g
  proof -
    have "visit ?gs (all_names (config c)) {} g = Inr ()" using that f(3) by blast
    from visit_leaf [OF this f(1) s] show ?thesis using out by blast
  qed
  have leafy: "\<exists>m. leaf_loop (selection (policy c)) (length ?gs + 1) k = Inr m \<and> m \<in> outbounds (config c)"
    if "k \<in> all_names (config c)" "k \<noteq> ''GLOBAL''" for k
  proof (cases "k \<in> g_name ` set ?gs")
    case False
    then have "k \<notin> dom (selection (policy c))" using s by (simp add: selects_def)
    then have "selection (policy c) k = None" by blast
    then show ?thesis using out [OF that False] by simp
  qed (rule grp)
  have glob: "global_name (config c) \<in> all_names (config c) \<and> global_name (config c) \<noteq> ''GLOBAL''"
  proof -
    have "global_name (config c) \<in> outbounds (config c) \<union> group_names (config c)"
      by (auto simp: global_name_def outbounds_def proxy_names_def group_names_def split: list.splits)
    moreover have "''GLOBAL'' \<notin> proxy_names (config c)"
    proof -
      obtain n1 where "proxies_loop L (config c) reserved (proxies (config c)) = Inr n1"
        using v unfolding validate_def and_then_Inr by blast
      from proxies_loop_Inr [OF this] show ?thesis by (auto simp: reserved_def proxy_names_def)
    qed
    moreover have "''GLOBAL'' \<notin> group_names (config c)" using f(2) by (auto simp: reserved_def)
    ultimately show ?thesis by (auto simp: outbounds_def all_names_def reserved_def)
  qed
  show ?thesis
    using leafy [of n] leafy [of "global_name (config c)"] glob n by (auto simp: leaf_def)
qed


end
