(* ===== verification/Core.thy ===== *)
theory Core
  imports FakeIp Policy
begin

text \<open>
  A core as its host sees it: the table of its connections (\<^verbatim>\<open>core/src/traffic.rs\<close>), starting and
  stopping it (\<^verbatim>\<open>core/src/lib.rs\<close>), and all its operations together as a step relation, with the
  invariant that every step keeps.
\<close>

section \<open>Connections\<close>

text \<open>\<open>conn_id\<close> is the fresh identifier of the connection, \<open>now\<close> the milliseconds since it was opened.\<close>

definition tracker_new :: "str \<Rightarrow> targ \<Rightarrow> str \<Rightarrow> str \<Rightarrow> ('r, 'x) core \<Rightarrow> ('r, 'x) core \<times> unit result" where
  "tracker_new conn_id t nd nw c =
     (if stop c then (c, Inl ''core stopped'')
      else if \<not> card (dom (connections c)) < 4096 then (c, Inl ''connection limit reached'')
      else (c\<lparr>connections := (connections c)(conn_id \<mapsto>
              \<lparr>metadata = t, c_network = nw, chains = [nd], c_upload = 0, c_download = 0, active = 0, cancel = False\<rparr>)\<rparr>,
            Inr ()))"

definition tracker_record :: "str \<Rightarrow> bool \<Rightarrow> nat \<Rightarrow> u64 \<Rightarrow> ('r, 'x) core \<Rightarrow> ('r, 'x) core" where
  "tracker_record conn_id up_dir n now c =
     (case connections c conn_id of
        None \<Rightarrow> c
      | Some s \<Rightarrow>
          if n = 0 then c
          else if up_dir then
            c\<lparr>connections := (connections c)(conn_id \<mapsto> s\<lparr>c_upload := c_upload s + word_of_nat n, active := now\<rparr>),
              upload := upload c + word_of_nat n\<rparr>
          else
            c\<lparr>connections := (connections c)(conn_id \<mapsto> s\<lparr>c_download := c_download s + word_of_nat n, active := now\<rparr>),
              download := download c + word_of_nat n\<rparr>)"

definition tracker_drop :: "str \<Rightarrow> ('r, 'x) core \<Rightarrow> ('r, 'x) core" where
  "tracker_drop conn_id c = c\<lparr>connections := (connections c)(conn_id := None)\<rparr>"

definition idle :: "u64 \<Rightarrow> connection \<Rightarrow> nat" where
  "idle elapsed s = unat elapsed - unat (active s)"

definition close_connection :: "str \<Rightarrow> ('r, 'x) core \<Rightarrow> ('r, 'x) core" where
  "close_connection conn_id c =
     (case connections c conn_id of
        None \<Rightarrow> c
      | Some s \<Rightarrow> c\<lparr>connections := (connections c)(conn_id \<mapsto> s\<lparr>cancel := True\<rparr>)\<rparr>)"

definition close_connections :: "('r, 'x) core \<Rightarrow> ('r, 'x) core" where
  "close_connections c = c\<lparr>connections := \<lambda>i. map_option (\<lambda>s. s\<lparr>cancel := True\<rparr>) (connections c i)\<rparr>"

definition network_changed :: "('r, 'x) core \<Rightarrow> ('r, 'x) core" where
  "network_changed c = (let c = close_connections c in c\<lparr>resolver := clear_cache (resolver c)\<rparr>)"

section \<open>The resolver at work\<close>

text \<open>A query is answered from the fake addresses, or the response to it enters the cache.\<close>

definition answer_query :: "str \<Rightarrow> bool \<Rightarrow> ('r, 'x) core \<Rightarrow> ('r, 'x) core \<times> ip_addr result" where
  "answer_query name six c = (let (r, x) = answer_fake name six (resolver c) in (c\<lparr>resolver := r\<rparr>, x))"

definition cache_responses :: "cache_write list \<Rightarrow> ('r, 'x) core \<Rightarrow> ('r, 'x) core" where
  "cache_responses ws c = c\<lparr>resolver := cache_answers ws (resolver c)\<rparr>"

section \<open>Starting and stopping\<close>

datatype in_kind = Http | Socks | Mixed

datatype listener =
    ProxyListener in_kind ip_addr u16
  | DnsUdp str
  | DnsTcp str
  | Controller str

definition listen_ip :: "config \<Rightarrow> ip_addr result" where
  "listen_ip cfg =
     (if allow_lan cfg then
        if bind_address cfg = ''*'' then Inr (V4 0)
        else ok_or ''invalid IP address syntax'' (parse_ip_addr (bind_address cfg))
      else Inr (V4 0x7F000001))"

definition listeners :: "config \<Rightarrow> listener list result" where
  "listeners cfg =
     and_then (listen_ip cfg) (\<lambda>ip.
       Inr (map (\<lambda>(p, k). ProxyListener k ip p)
              (filter (\<lambda>(p, k). p \<noteq> 0) [(port cfg, Http), (socks_port cfg, Socks), (mixed_port cfg, Mixed)])
            @ (if dns_enable (dns_opts cfg)
               then [DnsUdp (listen_address (dns_opts cfg)), DnsTcp (listen_address (dns_opts cfg))] else [])
            @ (case external_controller cfg of Some a \<Rightarrow> [Controller a] | None \<Rightarrow> [])))"

text \<open>What the environment answers while a core starts.\<close>

record ('r, 'x) start_env =
  lookups :: "cache_write list"
  loaded :: "('r, 'x) resources result"
  profile_contents :: profile_file
  parse_name :: "str \<Rightarrow> unit result"
  bind_listener :: "listener \<Rightarrow> unit result"

definition start_inner :: "('r, 'x) crates \<Rightarrow> ('r, 'x) start_env \<Rightarrow> ('r, 'x) core \<Rightarrow> ('r, 'x) core \<times> unit result" where
  "start_inner X E c =
     (case prepare_resources X (lookups E) (loaded E) c of
        (c, Inl e) \<Rightarrow> (c, Inl e)
      | (c, Inr _) \<Rightarrow>
          (case load_profile (profile_contents E) (parse_name E) c of
             (c, Inl e) \<Rightarrow> (c, Inl e)
           | (c, Inr _) \<Rightarrow> (c, and_then (listeners (config c)) (for_each (bind_listener E)))))"

definition start_with_packets :: "('r, 'x) crates \<Rightarrow> ('r, 'x) start_env \<Rightarrow> bool \<Rightarrow> ('r, 'x) core \<Rightarrow> ('r, 'x) core \<times> unit result" where
  "start_with_packets X E packets c =
     (if tun_enable (tun_opts (config c)) \<noteq> packets then
        (c, Inl ''tun.enable requires a host PacketIo; disable TUN for listener-only operation'')
      else if lifecycle c \<or> stop c then (c, Inl ''core cannot be started twice; create a new core'')
      else
        (case start_inner X E (c\<lparr>lifecycle := True\<rparr>) of
           (c, Inl e) \<Rightarrow> (c\<lparr>stop := True, lifecycle := False\<rparr>, Inl e)
         | (c, Inr _) \<Rightarrow> (c, Inr ())))"

definition running_shutdown :: "('r, 'x) core \<Rightarrow> ('r, 'x) core" where
  "running_shutdown c = c\<lparr>stop := True, lifecycle := False\<rparr>"

section \<open>All operations\<close>

inductive core_step :: "('r, 'x) crates \<Rightarrow> libs \<Rightarrow> ('r, 'x) core \<Rightarrow> ('r, 'x) core \<Rightarrow> bool"
  for X :: "('r, 'x) crates" and L :: libs where
  Select: "core_step X L c (fst (select c save g n))"
| SetMode: "core_step X L c (set_mode m c)"
| UpdatePolicy: "core_step X L c (fst (update_policy X L m rs c))"
| PrepareResources: "core_step X L c (fst (prepare_resources X ws ld c))"
| LoadProfile: "core_step X L c (fst (load_profile file absolute_name c))"
| AnswerQuery: "core_step X L c (fst (answer_query name six c))"
| CacheResponses: "core_step X L c (cache_responses ws c)"
| NetworkChanged: "core_step X L c (network_changed c)"
| Probe: "core_step X L c (probe name elapsed c)"
| UrlTest: "g \<in> set (proxy_groups (config c)) \<Longrightarrow> core_step X L c (url_test results g c)"
| TrackerNew: "core_step X L c (fst (tracker_new i t nd nw c))"
| TrackerRecord: "core_step X L c (tracker_record i up_dir n now c)"
| TrackerDrop: "core_step X L c (tracker_drop i c)"
| CloseConnection: "core_step X L c (close_connection i c)"
| CloseConnections: "core_step X L c (close_connections c)"
| Start: "core_step X L c (fst (start_with_packets X E packets c))"
| Stop: "core_step X L c (c\<lparr>stop := True\<rparr>)"
| Shutdown: "core_step X L c (running_shutdown c)"

inductive core_reachable :: "('r, 'x) crates \<Rightarrow> libs \<Rightarrow> ('r, 'x) core \<Rightarrow> bool"
  for X :: "('r, 'x) crates" and L :: libs where
  New: "core_new X L cfg = Inr c \<Longrightarrow> core_reachable X L c"
| Step: "core_reachable X L c \<Longrightarrow> core_step X L c c' \<Longrightarrow> core_reachable X L c'"

section \<open>The invariant\<close>

definition resolver_ok :: "config \<Rightarrow> ('r, 'x) resolver \<Rightarrow> bool" where
  "resolver_ok cfg r \<longleftrightarrow>
     r_config r = (dns_opts cfg)\<lparr>dns_ipv6 := dns_ipv6 (dns_opts cfg) \<and> ipv6 cfg\<rparr> \<and> policy_hosts (r_policy r) = hosts cfg
     \<and> cache_ok (r_cache r) \<and> (proper_pool (r_config r) \<longrightarrow> fake_ok (r_config r) (r_fake r) \<and> fake_tight (r_config r) (r_fake r))"

definition core_ok :: "('r, 'x) crates \<Rightarrow> libs \<Rightarrow> ('r, 'x) core \<Rightarrow> bool" where
  "core_ok X L c \<longleftrightarrow>
     validate X L (config c) = Inr ()
     \<and> selects (proxy_groups (config c)) (selection (policy c))
     \<and> (\<forall>raw \<in> set (raw_rules (policy c)). rule_checks X (config c) (all_names (config c)) raw = Inr ())
     \<and> list_all2 (\<lambda>raw r. \<exists>q. rule_parse X raw = Inr q \<and> target r = target q \<and> no_resolve r = no_resolve q)
         (raw_rules (policy c)) (rule_list (policy c))
     \<and> finite (dom (connections c)) \<and> card (dom (connections c)) \<le> 4096
     \<and> resolver_ok (config c) (resolver c)"

lemma resolver_cache_ok: "resolver_ok cfg r \<Longrightarrow> resolver_ok cfg (cache_answers ws r)" "resolver_ok cfg r \<Longrightarrow> resolver_ok cfg (clear_cache r)"
  by (auto simp: resolver_ok_def cache_answers_def clear_cache_def cache_stores_ok)

lemma resolver_configure_ok: "resolver_ok cfg r \<Longrightarrow> resolver_ok cfg (fst (resolver_configure X (hosts cfg) R r))"
  by (auto simp: resolver_configure_def resolver_ok_def clear_cache_def split: sum.splits)

lemma resolver_fake_ok:
  assumes "resolver_ok cfg r"
    and "fake_ok (r_config r) (r_fake r) \<Longrightarrow> fake_tight (r_config r) (r_fake r) \<Longrightarrow> proper_pool (r_config r) \<Longrightarrow>
      fake_ok (r_config r) m \<and> fake_tight (r_config r) m"
  shows "resolver_ok cfg (r\<lparr>r_fake := m\<rparr>)"
proof (cases "proper_pool (r_config r)")
  case True
  then have "fake_ok (r_config r) (r_fake r)" and "fake_tight (r_config r) (r_fake r)"
    using assms(1) by (auto simp: resolver_ok_def)
  then have "fake_ok (r_config r) m \<and> fake_tight (r_config r) m" using assms(2) True by blast
  then show ?thesis using assms(1) by (auto simp: resolver_ok_def)
next
  case False
  then show ?thesis using assms(1) by (auto simp: resolver_ok_def)
qed

lemma import_fake_ok: "resolver_ok cfg r \<Longrightarrow> resolver_ok cfg (fst (import_fake absolute_name es r))"
  unfolding import_fake_def by (simp add: split_beta Let_def resolver_fake_ok import_ok)

lemma answer_fake_ok: "resolver_ok cfg r \<Longrightarrow> resolver_ok cfg (fst (answer_fake name six r))"
  unfolding answer_fake_def by (simp add: split_beta Let_def resolver_fake_ok fake_address_ok normal_host_idem)

lemma resolver_new_ok: "resolver_ok cfg (set_hosts (hosts cfg) (resolver_new ((dns_opts cfg)\<lparr>dns_ipv6 := dns_ipv6 (dns_opts cfg) \<and> ipv6 cfg\<rparr>)))"
  by (simp add: resolver_ok_def set_hosts_def resolver_new_def fake_new_ok)

lemma core_okI [intro?]:
  assumes "core_ok X L c" and "config c' = config c"
    and "selects (proxy_groups (config c)) (selection (policy c'))"
    and "raw_rules (policy c') = raw_rules (policy c)" and "rule_list (policy c') = rule_list (policy c)"
    and "dom (connections c') = dom (connections c)" and "resolver c' = resolver c"
  shows "core_ok X L c'"
  using assms by (simp add: core_ok_def)

lemma selects_upd:
  assumes "selects gs sel" and "distinct (map g_name gs)" and "g \<in> set gs" and "n \<in> set (g_proxies g)"
  shows "selects gs (sel(g_name g \<mapsto> n))"
proof -
  have "inj_on g_name (set gs)" using assms(2) by (simp add: distinct_map)
  then have "h = g" if "h \<in> set gs" "g_name h = g_name g" for h using that assms(3) by (auto dest: inj_onD)
  then show ?thesis using assms(1,3,4) by (auto simp: selects_def)
qed

lemma core_ok_distinct: "core_ok X L c \<Longrightarrow> distinct (map g_name (proxy_groups (config c)))"
  using validate_facts(1) by (auto simp: core_ok_def)

lemma core_ok_selects: "core_ok X L c \<Longrightarrow> selects (proxy_groups (config c)) (selection (policy c))"
  by (simp add: core_ok_def)

lemma select_ok: "core_ok X L c \<Longrightarrow> core_ok X L (fst (select c save g n))"
proof -
  assume ok: "core_ok X L c"
  show ?thesis
  proof (cases "find (\<lambda>x. g_name x = g) (proxy_groups (config c))")
    case (Some x)
    then have x: "x \<in> set (proxy_groups (config c))" "g_name x = g"
      by (auto simp: find_Some_iff)
    show ?thesis
    proof (cases "n \<in> set (g_proxies x)")
      case True
      then have "selects (proxy_groups (config c)) ((selection (policy c))(g \<mapsto> n))"
        using selects_upd [OF core_ok_selects [OF ok] core_ok_distinct [OF ok] x(1)] x(2) by blast
      then show ?thesis using ok True Some by (simp add: select_def Let_def core_ok_def)
    qed (use ok Some in \<open>simp add: select_def\<close>)
  qed (use ok in \<open>simp add: select_def\<close>)
qed

lemma load_selection_selects:
  assumes "distinct (map g_name gs)" and "selects gs sel"
  shows "selects gs (load_selection gs sel xs)"
  using assms
proof (induction gs sel xs rule: load_selection.induct)
  case (2 gs sel g n r)
  have "selects gs (sel(g \<mapsto> n))" if "list_ex (\<lambda>x. g_name x = g \<and> n \<in> set (g_proxies x)) gs"
    using that selects_upd [OF 2(3,2)] by (auto simp: list_ex_iff)
  then show ?case using 2 by simp
qed simp

lemma core_ok_resolver:
  assumes "core_ok X L c" and "resolver_ok (config c) r"
  shows "core_ok X L (c\<lparr>resolver := r\<rparr>)"
    and "selects (proxy_groups (config c)) sel \<Longrightarrow> core_ok X L (c\<lparr>resolver := r, policy := (policy c)\<lparr>selection := sel\<rparr>\<rparr>)"
  using assms by (simp_all add: core_ok_def)

lemma load_profile_ok:
  assumes "core_ok X L c"
  shows "core_ok X L (fst (load_profile file absolute_name c))"
proof -
  have r: "resolver_ok (config c) (resolver c)" using assms by (simp add: core_ok_def)
  have imp: "resolver_ok (config c) q" if "import_fake absolute_name es (resolver c) = (q, x)" for es q x
    using import_fake_ok [OF r, of absolute_name es] that by simp
  note sel = load_selection_selects [OF core_ok_distinct [OF assms] core_ok_selects [OF assms]]
  note upd = core_ok_resolver(1) [OF assms] core_ok_resolver(2) [OF assms _ sel] core_ok_resolver(2) [OF assms r sel, simplified]
  show ?thesis
    unfolding load_profile_def by (auto split: profile_file.splits sum.splits prod.splits intro: assms upd r imp)
qed

lemma resources_rules_targets:
  assumes "resources_rules X R raw = Inr rs"
  shows "list_all2 (\<lambda>raw r. \<exists>q. rule_parse X raw = Inr q \<and> target r = target q \<and> no_resolve r = no_resolve q) raw rs"
  unfolding list_all2_conv_all_nth
proof (intro conjI allI impI)
  show len: "length raw = length rs" using assms by (simp add: resources_rules_def map_result_Inr)
  fix i assume "i < length raw"
  then have "and_then (rule_parse X (raw ! i)) (\<lambda>r.
      and_then (resources_bind R (matcher r)) (\<lambda>m. Inr (r\<lparr>matcher := m\<rparr>))) = Inr (rs ! i)"
    using assms by (simp add: resources_rules_def map_result_Inr)
  then show "\<exists>q. rule_parse X (raw ! i) = Inr q \<and> target (rs ! i) = target q \<and> no_resolve (rs ! i) = no_resolve q"
    unfolding and_then_Inr by (elim exE conjE) (metis rule.select_convs(2,3) rule.update_convs(1) rule.surjective sum.inject(2))
qed

lemma prepare_resources_ok:
  assumes "core_ok X L c"
  shows "core_ok X L (fst (prepare_resources X ws ld c))"
proof -
  let ?r = "cache_answers ws (resolver c)"
  have r: "resolver_ok (config c) ?r" using assms by (simp add: core_ok_def resolver_cache_ok)
  have rc: "resolver_ok (config c) q" if "resolver_configure X (hosts (config c)) R ?r = (q, x)" for R q x
    using resolver_configure_ok [OF r, of X R] that by simp
  show ?thesis
    using assms r resources_rules_targets [of X _ "raw_rules (policy c)"]
    by (auto simp: prepare_resources_def core_ok_def and_then_Inr Let_def dest!: rc split: sum.splits prod.splits)
qed

lemma all_names_simps [simp]:
  "all_names (cfg\<lparr>rules := rs\<rparr>) = all_names cfg" "all_names (cfg\<lparr>cfg_mode := m\<rparr>) = all_names cfg"
  by (simp_all add: all_names_def proxy_names_def group_names_def)

lemma rule_checks_simps [simp]:
  "rule_checks X (cfg\<lparr>rules := rs\<rparr>) names raw = rule_checks X cfg names raw"
  "rule_checks X (cfg\<lparr>cfg_mode := m\<rparr>) names raw = rule_checks X cfg names raw"
  unfolding rule_checks_def by (simp_all cong: if_cong)

lemma update_policy_ok:
  assumes "core_ok X L c"
  shows "core_ok X L (fst (update_policy X L m rs c))"
proof -
  define raw where "raw = (case rs of Some rs \<Rightarrow> rs | None \<Rightarrow> raw_rules (policy c))"
  define cfg where "cfg = (case m of Some m \<Rightarrow> (config c)\<lparr>rules := raw, cfg_mode := m\<rparr> | None \<Rightarrow> (config c)\<lparr>rules := raw\<rparr>)"
  show ?thesis
  proof (cases "and_then (validate X L cfg) (\<lambda>_. resources_rules X (matchers c) (rules cfg))")
    case (Inl e)
    then show ?thesis using assms
      by (simp add: update_policy_def raw_def [symmetric] cfg_def Let_def split: option.splits)
  next
    case (Inr bound)
    then have v: "validate X L cfg = Inr ()" and b: "resources_rules X (matchers c) (rules cfg) = Inr bound"
      by (auto simp: and_then_Inr)
    have cfg: "rules cfg = raw" "all_names cfg = all_names (config c)" "rule_checks X cfg n r = rule_checks X (config c) n r" for n r
      by (simp_all add: cfg_def split: option.splits)
    then have "\<forall>r \<in> set raw. rule_checks X (config c) (all_names (config c)) r = Inr ()"
      using validate_facts(4) [OF v] by simp
    moreover note resources_rules_targets [OF b]
    moreover have "fst (update_policy X L m rs c) =
        (let p = (if rs \<noteq> None then (policy c)\<lparr>rule_list := bound, raw_rules := raw\<rparr> else policy c)
         in c\<lparr>policy := case m of Some m \<Rightarrow> p\<lparr>mode := m\<rparr> | None \<Rightarrow> p\<rparr>)"
      using Inr cfg by (simp add: update_policy_def raw_def [symmetric] cfg_def Let_def split: option.splits)
    ultimately show ?thesis
      using assms cfg by (simp add: core_ok_def Let_def split: option.splits)
  qed
qed

lemma probe_simps [simp]:
  "config (probe n e c) = config c" "selection (policy (probe n e c)) = selection (policy c)"
  "raw_rules (policy (probe n e c)) = raw_rules (policy c)" "rule_list (policy (probe n e c)) = rule_list (policy c)"
  "connections (probe n e c) = connections c" "mode (policy (probe n e c)) = mode (policy c)" "resolver (probe n e c) = resolver c"
  by (auto simp: probe_def split: sum.splits)

lemma core_ok_probe [simp]: "core_ok X L (probe n e c) \<longleftrightarrow> core_ok X L c"
  by (simp add: core_ok_def)

lemma probe_loop_ok:
  "core_ok X L c \<Longrightarrow> probe_loop e best ts c = (b, c') \<Longrightarrow>
     core_ok X L c' \<and> config c' = config c \<and> (\<forall>t d. b = Some (t, d) \<longrightarrow> best = b \<or> t \<in> set ts)"
proof (induction e best ts c rule: probe_loop.induct)
  case (2 e best t ts c)
  then show ?case by (fastforce split: sum.splits option.splits if_splits)
qed simp

lemma url_test_ok:
  assumes "core_ok X L c" and "g \<in> set (proxy_groups (config c))"
  shows "core_ok X L (url_test e g c)"
proof -
  obtain b c' where b: "probe_loop e None (g_proxies g) c = (b, c')" by fastforce
  note ok = probe_loop_ok [OF assms(1) b]
  then have "selects (proxy_groups (config c')) ((selection (policy c'))(g_name g \<mapsto> t))" if "b = Some (t, d)" for t d
    using that assms(2) selects_upd [OF core_ok_selects core_ok_distinct] by force
  then show ?thesis using ok b by (auto simp: url_test_def core_ok_def Let_def split: option.splits)
qed

lemma start_inner_ok:
  assumes "core_ok X L c"
  shows "core_ok X L (fst (start_inner X E c))"
proof -
  obtain c1 r1 where 1: "prepare_resources X (lookups E) (loaded E) c = (c1, r1)" by fastforce
  then have ok1: "core_ok X L c1" using prepare_resources_ok [OF assms, of "lookups E" "loaded E"] by simp
  obtain c2 r2 where 2: "load_profile (profile_contents E) (parse_name E) c1 = (c2, r2)" by fastforce
  then have ok2: "core_ok X L c2" using load_profile_ok [OF ok1, of "profile_contents E" "parse_name E"] by simp
  show ?thesis using ok1 ok2 1 2 by (cases r1; cases r2) (simp_all add: start_inner_def)
qed

lemma core_ok_flags [simp]:
  "core_ok X L (c\<lparr>lifecycle := b\<rparr>) \<longleftrightarrow> core_ok X L c" "core_ok X L (c\<lparr>stop := b\<rparr>) \<longleftrightarrow> core_ok X L c"
  by (simp_all add: core_ok_def)

lemma start_ok:
  assumes "core_ok X L c"
  shows "core_ok X L (fst (start_with_packets X E packets c))"
proof -
  obtain c1 r1 where 1: "start_inner X E (c\<lparr>lifecycle := True\<rparr>) = (c1, r1)" by fastforce
  then have "core_ok X L c1" using start_inner_ok [of X L "c\<lparr>lifecycle := True\<rparr>" E] assms by simp
  moreover have "c1\<lparr>stop := True, lifecycle := False\<rparr> = (c1\<lparr>stop := True\<rparr>)\<lparr>lifecycle := False\<rparr>" by simp
  ultimately show ?thesis using assms 1 by (cases r1) (simp_all add: start_with_packets_def)
qed

lemma tracker_new_ok: "core_ok X L c \<Longrightarrow> core_ok X L (fst (tracker_new i t nd nw c))"
  by (auto simp: tracker_new_def core_ok_def card_insert_if)

lemma close_ok: "core_ok X L c \<Longrightarrow> core_ok X L (tracker_record i u n now c)"
  "core_ok X L c \<Longrightarrow> core_ok X L (close_connection i c)"
  "core_ok X L c \<Longrightarrow> core_ok X L (close_connections c)"
  "core_ok X L c \<Longrightarrow> core_ok X L (tracker_drop i c)"
proof -
  assume ok: "core_ok X L c"
  have "dom (connections (tracker_record i u n now c)) = dom (connections c)"
    "dom (connections (close_connection i c)) = dom (connections c)"
    "dom (connections (close_connections c)) = dom (connections c)"
    by (auto simp: tracker_record_def close_connection_def close_connections_def split: option.splits)
  then show "core_ok X L (tracker_record i u n now c)" "core_ok X L (close_connection i c)" "core_ok X L (close_connections c)"
    using ok by (auto simp: core_ok_def tracker_record_def close_connection_def close_connections_def split: option.splits)
  have "dom (connections (tracker_drop i c)) \<subseteq> dom (connections c)" by (auto simp: tracker_drop_def)
  then have "card (dom (connections (tracker_drop i c))) \<le> card (dom (connections c))"
    using ok by (intro card_mono) (simp_all add: core_ok_def)
  then show "core_ok X L (tracker_drop i c)" using ok by (simp add: core_ok_def tracker_drop_def)
qed

lemma resolver_steps_ok:
  assumes "core_ok X L c"
  shows "core_ok X L (network_changed c)" "core_ok X L (fst (answer_query name six c))" "core_ok X L (cache_responses ws c)"
proof -
  have "resolver_ok (config c) (resolver c)" using assms by (simp add: core_ok_def)
  note r = resolver_cache_ok [OF this] answer_fake_ok [OF this]
  show "core_ok X L (network_changed c)" "core_ok X L (fst (answer_query name six c))" "core_ok X L (cache_responses ws c)"
    using assms close_ok [OF assms] r
    by (simp_all add: network_changed_def answer_query_def cache_responses_def close_connections_def core_ok_def Let_def split_beta)
qed

lemma core_step_ok: "core_step X L c c' \<Longrightarrow> core_ok X L c \<Longrightarrow> core_ok X L c'"
proof (induction rule: core_step.induct)
  case (SetMode c m)
  then show ?case by (simp add: set_mode_def core_ok_def)
next
  case (Stop c)
  then show ?case by (simp add: core_ok_def)
next
  case (Shutdown c)
  then show ?case by (simp add: running_shutdown_def core_ok_def)
qed (simp_all add: select_ok update_policy_ok prepare_resources_ok load_profile_ok url_test_ok tracker_new_ok close_ok start_ok
  resolver_steps_ok)

lemma first_selection_selects:
  assumes "distinct (map g_name gs)" and "\<forall>g \<in> set gs. g_proxies g \<noteq> []"
  shows "selects gs (first_selection gs)"
proof -
  have "dom (foldl (\<lambda>m g. m(g_name g \<mapsto> g_proxies g ! 0)) m gs) = dom m \<union> g_name ` set gs
      \<and> (distinct (map g_name gs) \<longrightarrow> (\<forall>g \<in> set gs. foldl (\<lambda>m g. m(g_name g \<mapsto> g_proxies g ! 0)) m gs (g_name g) = Some (g_proxies g ! 0)))
      \<and> (\<forall>n. n \<notin> g_name ` set gs \<longrightarrow> foldl (\<lambda>m g. m(g_name g \<mapsto> g_proxies g ! 0)) m gs n = m n)" for m
    by (induction gs arbitrary: m) auto
  from this [of Map.empty] show ?thesis using assms by (auto simp: selects_def first_selection_def)
qed

lemma core_new_ok: "core_new X L cfg = Inr c \<Longrightarrow> core_ok X L c"
proof -
  assume "core_new X L cfg = Inr c"
  then obtain rs where v: "validate X L cfg = Inr ()" and rs: "map_result (rule_parse X) (rules cfg) = Inr rs"
    and c: "config c = cfg" "rule_list (policy c) = rs" "raw_rules (policy c) = rules cfg"
      "selection (policy c) = first_selection (proxy_groups cfg)" "connections c = Map.empty"
      "resolver c = set_hosts (hosts cfg) (resolver_new ((dns_opts cfg)\<lparr>dns_ipv6 := dns_ipv6 (dns_opts cfg) \<and> ipv6 cfg\<rparr>))"
    by (auto simp: core_new_def and_then_Inr)
  have "list_all2 (\<lambda>raw r. \<exists>q. rule_parse X raw = Inr q \<and> target r = target q \<and> no_resolve r = no_resolve q) (rules cfg) rs"
    using rs by (simp add: map_result_Inr list_all2_conv_all_nth)
  then show ?thesis
    using first_selection_selects validate_facts [OF v] v resolver_new_ok by (simp add: core_ok_def c)
qed

lemma core_reachable_ok: "core_reachable X L c \<Longrightarrow> core_ok X L c"
  by (induction rule: core_reachable.induct) (auto intro: core_new_ok core_step_ok)


section \<open>Route decisions\<close>

text \<open>The first rule that matches with everything known about the address.\<close>

fun first_match :: "('r, 'x) crates \<Rightarrow> str \<Rightarrow> ip_addr option \<Rightarrow> u16 \<Rightarrow> str \<Rightarrow> ('r, 'x) rule list \<Rightarrow> ('r, 'x) rule option" where
  "first_match X h ip p nw [] = None"
| "first_match X h ip p nw (r # rs) =
     (if evaluate X (matcher r) h ip p nw False = Some True then Some r else first_match X h ip p nw rs)"

lemma rule_matches_normal:
  "rule_matches X r (normal_host h) ip p nw \<longleftrightarrow> evaluate X (matcher r) (normal_host h) ip p nw False = Some True"
  using normal_host_idem [of h] by (simp add: rule_matches_def normal_host_def)

lemma route_loop_resolved:
  "map_option snd (route_loop X answer (normal_host h) p nw i ip True rs) = first_match X (normal_host h) ip p nw rs"
proof (induction rs arbitrary: i)
  case (Cons r rs)
  obtain v where "evaluate X (matcher r) (normal_host h) ip p nw False = Some v"
    using evaluate_definite(1) [of X "matcher r" "normal_host h" ip p nw] by blast
  then show ?case using Cons by (simp add: Let_def)
qed simp

lemma route_loop_lazy:
  assumes "\<forall>r \<in> set rs. \<not> no_resolve r \<and> resolving (matcher r)"
  shows "map_option snd (route_loop X answer (normal_host h) p nw i None False rs) = first_match X (normal_host h) answer p nw rs"
  using assms
proof (induction rs arbitrary: i)
  case (Cons r rs)
  show ?case
  proof (cases "evaluate X (matcher r) (normal_host h) None p nw True")
    case None
    then show ?thesis
      using Cons.prems route_loop_resolved [of X answer h p nw "i + 1" answer rs]
      by (simp add: Let_def rule_matches_normal)
  next
    case (Some v)
    then have "evaluate X (matcher r) (normal_host h) answer p nw False = Some v"
      using Cons.prems evaluate_lazy [of "matcher r"] by simp
    then show ?thesis using Some Cons by (simp add: Let_def)
  qed
qed simp

text \<open>The conditions that look at the address of the target and may ask for a lookup.\<close>

fun needs_address :: "('r, 'x) matcher \<Rightarrow> bool" where
  "needs_address (Net n) = True"
| "needs_address (Nets n) = True"
| "needs_address (ExternalIp n) = True"
| "needs_address (Not m) = needs_address m"
| "needs_address (And ms) = list_ex needs_address ms"
| "needs_address (Or ms) = list_ex needs_address ms"
| "needs_address m = False"

lemma evaluate_without_address: "\<not> needs_address m \<Longrightarrow> evaluate X m h ip p nw cr \<noteq> None"
proof (induction m rule: needs_address.induct)
  case (5 ms)
  then have "None \<notin> set (map (\<lambda>m. evaluate X m h ip p nw cr) ms)" by (fastforce simp: list_ex_iff)
  then show ?case by (auto simp: logic_loop_eq simp del: set_map)
next
  case (6 ms)
  then have "None \<notin> set (map (\<lambda>m. evaluate X m h ip p nw cr) ms)" by (fastforce simp: list_ex_iff)
  then show ?case by (auto simp: logic_loop_eq simp del: set_map)
qed (use evaluate_definite in auto)

lemma route_loop_no_lookup:
  assumes "\<forall>r \<in> set rs. no_resolve r \<or> \<not> needs_address (matcher r)"
  shows "route_loop X a h p nw i ip res rs = route_loop X b h p nw i ip res rs"
  using assms
proof (induction rs arbitrary: i)
  case (Cons r rs)
  then have "no_resolve r \<or> evaluate X (matcher r) h ip p nw True \<noteq> None"
    using evaluate_without_address by fastforce
  then show ?case using Cons by (auto simp: Let_def)
qed simp

lemma route_loop_mem: "route_loop X a h p nw i ip res rs = Some (j, r) \<Longrightarrow> r \<in> set rs \<and> i \<le> j \<and> j < i + length rs"
  by (induction rs arbitrary: i ip res) (fastforce simp: Let_def split: if_splits)+

lemma core_ok_targets:
  assumes "core_ok X L c" and "r \<in> set (rule_list (policy c))"
  shows "target r \<in> all_names (config c)"
proof -
  have l: "list_all2 (\<lambda>raw r. \<exists>q. rule_parse X raw = Inr q \<and> target r = target q \<and> no_resolve r = no_resolve q)
      (raw_rules (policy c)) (rule_list (policy c))" using assms(1) by (simp add: core_ok_def)
  obtain i where i: "i < length (rule_list (policy c))" "rule_list (policy c) ! i = r"
    using assms(2) by (auto simp: in_set_conv_nth)
  then obtain q where q: "rule_parse X (raw_rules (policy c) ! i) = Inr q" "target r = target q"
    using list_all2_nthD2 [OF l, of i] by blast
  have "raw_rules (policy c) ! i \<in> set (raw_rules (policy c))" using i list_all2_lengthD [OF l] by simp
  then have "rule_checks X (config c) (all_names (config c)) (raw_rules (policy c) ! i) = Inr ()"
    using assms(1) by (simp add: core_ok_def)
  then show ?thesis using q by (auto simp: rule_checks_def and_then_Inr)
qed

lemma core_ok_leaf:
  "core_ok X L c \<Longrightarrow> n \<in> all_names (config c) \<Longrightarrow> \<exists>m. leaf c n = Inr m \<and> m \<in> outbounds (config c)"
  using leaf_outbound by (auto simp: core_ok_def)

lemma route_decision_safe:
  assumes "core_ok X L c"
  shows "\<exists>d. route_decision X lookup c t nw = Inr d \<and> node d \<in> outbounds (config c) \<and> rd_group d \<in> all_names (config c)"
proof (cases "mode (policy c)")
  case Direct
  then show ?thesis by (simp add: route_decision_def outbounds_def all_names_def reserved_def)
next
  case Global
  have g: "''GLOBAL'' \<in> all_names (config c)" by (simp add: all_names_def reserved_def)
  then obtain m where "leaf c ''GLOBAL'' = Inr m" "m \<in> outbounds (config c)"
    using core_ok_leaf [OF assms] by blast
  then show ?thesis using Global g by (simp add: route_decision_def)
next
  case Rule
  let ?a = "case lookup (host t) (t_port t) of Inr ((ip, _) # _) \<Rightarrow> Some ip | _ \<Rightarrow> None"
  let ?l = "route_loop X ?a (to_ascii_lowercase (trim_end_matches (CHR ''.'') (host t))) (t_port t) nw 0
                    (targ_ip t) (targ_ip t \<noteq> None) (rule_list (policy c))"
  show ?thesis
  proof (cases ?l)
    case None
    then show ?thesis by (simp add: route_decision_def Rule Let_def outbounds_def all_names_def reserved_def)
  next
    case (Some x)
    obtain i r where x: "x = (i, r)" by (cases x)
    have "r \<in> set (rule_list (policy c))" using Some x route_loop_mem by blast
    then have "target r \<in> all_names (config c)" by (rule core_ok_targets [OF assms])
    moreover obtain m where "leaf c (target r) = Inr m" "m \<in> outbounds (config c)"
      using core_ok_leaf [OF assms calculation] by blast
    ultimately show ?thesis using Some x by (simp add: route_decision_def Rule Let_def)
  qed
qed


section \<open>An example configuration\<close>

definition no_libs :: libs where
  "no_libs =
     \<lparr>yaml_config = \<lambda>_. Inl ''yaml'', base64_decode = \<lambda>_. Inl ''base64'', uuid_parse = \<lambda>_. None,
      sha1 = \<lambda>_. replicate 20 0, f64_rate = \<lambda>_ _. Inl ''f64''\<rparr>"

definition example_proxy :: proxy where
  "example_proxy =
     \<lparr>p_name = ''P'', p_kind = Trojan, server = ''s'', p_port = 443, uuid = None, password = [], tls = True,
      udp = True, servername = None, sni = None, skip_cert_verify = False, alpn = [], network = ''tcp'',
      flow = [], client_fingerprint = None, reality_opts = None, packet_encoding = None, xudp = False,
      obfs = None, obfs_password = [], ports = None, hop_interval = ''30s'', up = None, down = None,
      ip_version = [], tfo = False, ws_opts = ws_options_default, grpc_opts = grpc_options_default,
      protocol = [], auth_str = [], recv_window_conn = None, recv_window = None,
      disable_mtu_discovery = False, fast_open = False\<rparr>"

definition example_group :: group where
  "example_group =
     \<lparr>g_name = ''G'', g_kind = Select, g_proxies = [''P'', ''DIRECT''],
      g_url = ''https://www.gstatic.com/generate_204'', g_interval = 300, tolerance = 50\<rparr>"

definition example_config :: config where
  "example_config =
     config_default\<lparr>proxies := [example_proxy], proxy_groups := [example_group],
       rules := [''DST-PORT,443,G'', ''MATCH,DIRECT''], mixed_port := 7890, dns_opts := dns_default\<lparr>fake_ip_filter := []\<rparr>,
       tun_opts := tun_default\<lparr>tun_enable := True\<rparr>, external_controller := Some ''127.0.0.1:9090''\<rparr>"

lemma example_rules:
  "rule_parse no_crates ''DST-PORT,443,G'' = Inr \<lparr>matcher = Ports [(443, 443)], target = ''G'', no_resolve = False\<rparr>"
  "rule_parse no_crates ''MATCH,DIRECT'' = Inr \<lparr>matcher = All, target = ''DIRECT'', no_resolve = False\<rparr>"
proof -
  have f: "Rules.fields ''DST-PORT,443,G'' = Inr [''DST-PORT'', ''443'', ''G'']" "Rules.fields ''MATCH,DIRECT'' = Inr [''MATCH'', ''DIRECT'']"
    "Rules.fields ''DST-PORT,443'' = Inr [''DST-PORT'', ''443'']"
    by (simp_all add: Rules.fields_def trim_graphic graphic_def)
  have "to_ascii_lowercase ''443'' = ''443''" by code_simp
  then have "parse_condition no_crates ''DST-PORT,443'' = Inr (Ports [(443, 443)])"
    unfolding parse_condition_def
    by (subst parse_depth.simps)
      (simp add: f logical_kinds_def parse_leaf_def bounds_def split_once_def
        parse_port_def parse_unsigned_def is_digit_def digits_value_def)
  then show "rule_parse no_crates ''DST-PORT,443,G'' = Inr \<lparr>matcher = Ports [(443, 443)], target = ''G'', no_resolve = False\<rparr>"
    by (simp add: rule_parse_def f)
  show "rule_parse no_crates ''MATCH,DIRECT'' = Inr \<lparr>matcher = All, target = ''DIRECT'', no_resolve = False\<rparr>"
    by (simp add: rule_parse_def f)
qed

lemma example_addresses: "parse_socket_addr ''127.0.0.1:9090'' = Some (V4 0x7F000001, 9090)"
  by (simp add: parse_socket_addr_def parse_with_def read_socket_addr_def read_socket_addr_v4_def
    read_ipv4_addr_def read_octet_def read_separator_def read_number_def read_given_char_def to_digit_def
    read_port_def Let_def)

lemma example_valid: "validate no_crates L example_config = Inr ()"
proof -
  have h: "head_checks example_config = Inr ()"
    by (simp add: head_checks_def example_config_def config_default_def fingerprints_def log_default_def)
  have p: "proxies_loop L example_config reserved (proxies example_config) = Inr (insert ''P'' reserved)"
    by (simp add: example_config_def example_proxy_def reserved_def checks_def)
  have g: "groups_loop (insert ''P'' reserved) (proxy_groups example_config) = Inr (insert ''G'' (insert ''P'' reserved))"
    by (simp add: example_config_def example_group_def reserved_def checks_def)
  have gn: "group_named [example_group] ''G'' = Some example_group" "group_named [example_group] ''P'' = None"
    "group_named [example_group] ''DIRECT'' = None"
    by (simp_all add: group_named_def example_group_def)
  have "visit [example_group] (insert ''G'' (insert ''P'' reserved)) {''G''} n = Inr ()" if "n = ''P'' \<or> n = ''DIRECT''" for n
    using that by (subst visit.simps) (auto simp: gn reserved_def)
  then have v: "visit [example_group] (insert ''G'' (insert ''P'' reserved)) {} ''G'' = Inr ()"
    by (subst visit.simps) (simp add: gn reserved_def, simp add: example_group_def)
  have r: "rule_checks no_crates example_config (insert ''G'' (insert ''P'' reserved)) raw = Inr ()"
    if "raw = ''DST-PORT,443,G'' \<or> raw = ''MATCH,DIRECT''" for raw
    using that by (auto simp: rule_checks_def example_rules reserved_def)
  have o: "option_checks example_config = Inr ()"
    by (simp add: option_checks_def example_config_def config_default_def dns_default_def tun_default_def ntp_default_def
      dns_upstream_def sublist_code has_control_def dns_hijack_valid_def strip_prefix_def parse_port_def
      parse_unsigned_def is_digit_def digits_value_def checks_def)
  have c: "controller_checks example_config = Inr ()"
    by (simp add: controller_checks_def example_config_def example_addresses drop_bit_eq_div)
  have l: "proxy_groups example_config = [example_group]" "rules example_config = [''DST-PORT,443,G'', ''MATCH,DIRECT'']"
    "rule_providers example_config = []" "bind_address example_config = ''*''" "g_name example_group = ''G''"
    by (simp_all add: example_config_def config_default_def example_group_def)
  show ?thesis
    unfolding validate_def h and_then_simps p g o c unfolding l using v r by (simp add: l)
qed


definition example_core :: "(unit, unit) core" where
  "example_core =
     \<lparr>config = example_config,
      resolver = \<lparr>r_config = dns_default\<lparr>fake_ip_filter := []\<rparr>, r_cache = cache_new, r_fake = fake_map_new,
        r_policy = \<lparr>policy_hosts = [], policy_nameservers = [], policy_filters = []\<rparr>\<rparr>,
      policy = \<lparr>mode = Rule,
        rule_list = [\<lparr>matcher = Ports [(443, 443)], target = ''G'', no_resolve = False\<rparr>,
                     \<lparr>matcher = All, target = ''DIRECT'', no_resolve = False\<rparr>],
        raw_rules = [''DST-PORT,443,G'', ''MATCH,DIRECT''],
        selection = [''G'' \<mapsto> ''P''], delay = Map.empty\<rparr>,
      matchers = Map.empty, stop = False, connections = Map.empty, upload = 0, download = 0,
      lifecycle = False\<rparr>"

lemma example_core_new: "core_new no_crates L example_config = Inr example_core"
  unfolding core_new_def example_valid and_then_simps
  by (simp add: example_config_def config_default_def example_rules example_core_def first_selection_def example_group_def
    set_hosts_def resolver_new_def dns_default_def)

definition example_env :: "(unit, unit) start_env" where
  "example_env =
     \<lparr>lookups = [], loaded = Inr Map.empty, profile_contents = Missing, parse_name = \<lambda>_. Inr (),
      bind_listener = \<lambda>_. Inr ()\<rparr>"

lemma example_reachable: "core_reachable no_crates L example_core"
  by (rule core_reachable.New [OF example_core_new])

lemma example_start: "start_with_packets no_crates example_env True example_core = (example_core\<lparr>lifecycle := True\<rparr>, Inr ())"
  by (simp add: start_with_packets_def start_inner_def prepare_resources_def example_env_def load_profile_def
    example_core_def example_config_def config_default_def tun_default_def store_profile_def resources_rules_def
    example_rules resources_bind_def listeners_def listen_ip_def cache_answers_def cache_stores_def resolver_configure_def
    clear_cache_def dns_default_def)

section \<open>Starting once\<close>

lemma prepare_resources_flags [simp]:
  "lifecycle (fst (prepare_resources X ws ld c)) = lifecycle c" "stop (fst (prepare_resources X ws ld c)) = stop c"
  by (simp_all add: prepare_resources_def Let_def split: sum.splits prod.splits)

lemma load_profile_flags [simp]:
  "lifecycle (fst (load_profile f i c)) = lifecycle c" "stop (fst (load_profile f i c)) = stop c"
  by (simp_all add: load_profile_def split: sum.splits profile_file.splits prod.splits)

lemma probe_loop_flags: "probe_loop e best ts c = (b, c') \<Longrightarrow> lifecycle c' = lifecycle c \<and> stop c' = stop c"
proof (induction e best ts c rule: probe_loop.induct)
  case (2 e best t ts c)
  have "lifecycle (probe t (e t) c) = lifecycle c" "stop (probe t (e t) c) = stop c"
    by (simp_all add: probe_def split: sum.splits)
  then show ?case using 2 by simp
qed simp

lemma start_inner_flags:
  "lifecycle (fst (start_inner X E c)) = lifecycle c" "stop (fst (start_inner X E c)) = stop c"
proof -
  obtain c1 r1 where 1: "prepare_resources X (lookups E) (loaded E) c = (c1, r1)" by fastforce
  obtain c2 r2 where 2: "load_profile (profile_contents E) (parse_name E) c1 = (c2, r2)" by fastforce
  have "lifecycle c1 = lifecycle c" "stop c1 = stop c" using prepare_resources_flags [of X "lookups E" "loaded E" c] 1 by simp_all
  moreover have "lifecycle c2 = lifecycle c1" "stop c2 = stop c1" using load_profile_flags [of "profile_contents E" "parse_name E" c1] 2 by simp_all
  ultimately show "lifecycle (fst (start_inner X E c)) = lifecycle c" "stop (fst (start_inner X E c)) = stop c"
    using 1 2 by (cases r1; cases r2; simp add: start_inner_def)+
qed

text \<open>A core that was started or stopped stays so: stopping is final, and the start flag falls only with it.\<close>

lemma start_used:
  assumes "start_with_packets X E packets c = (c', r)" and "lifecycle c \<or> stop c \<or> r = Inr ()"
  shows "lifecycle c' \<or> stop c'"
proof (cases "lifecycle c \<or> stop c")
  case True
  then show ?thesis using assms(1) by (auto simp: start_with_packets_def split: if_splits)
next
  case False
  obtain c1 r1 where 1: "start_inner X E (c\<lparr>lifecycle := True\<rparr>) = (c1, r1)" by fastforce
  then have "lifecycle c1" using start_inner_flags(1) [of X E "c\<lparr>lifecycle := True\<rparr>"] by simp
  then show ?thesis
    using assms 1 False by (cases r1) (auto simp: start_with_packets_def split: if_splits)
qed

lemma update_policy_flags:
  "lifecycle (fst (update_policy X L m rs c)) = lifecycle c" "stop (fst (update_policy X L m rs c)) = stop c"
  unfolding update_policy_def Let_def by (simp_all split: sum.splits)

lemma policy_flags:
  "lifecycle (fst (select c save g n)) = lifecycle c" "stop (fst (select c save g n)) = stop c"
  "lifecycle (set_mode m c) = lifecycle c" "stop (set_mode m c) = stop c"
  "lifecycle (probe name e c) = lifecycle c" "stop (probe name e c) = stop c"
  by (simp_all add: select_def set_mode_def probe_def Let_def split: option.splits sum.splits)

lemma tracker_flags:
  "lifecycle (fst (tracker_new i t nd nw c)) = lifecycle c" "stop (fst (tracker_new i t nd nw c)) = stop c"
  "lifecycle (tracker_record i u k now c) = lifecycle c" "stop (tracker_record i u k now c) = stop c"
  "lifecycle (tracker_drop i c) = lifecycle c" "stop (tracker_drop i c) = stop c"
  "lifecycle (close_connection i c) = lifecycle c" "stop (close_connection i c) = stop c"
  "lifecycle (close_connections c) = lifecycle c" "stop (close_connections c) = stop c"
  by (simp_all add: tracker_new_def tracker_record_def tracker_drop_def close_connection_def close_connections_def
    split: option.splits)

lemma url_test_flags: "lifecycle (url_test e g c) = lifecycle c" "stop (url_test e g c) = stop c"
proof -
  obtain b c1 where p: "probe_loop e None (g_proxies g) c = (b, c1)" by fastforce
  note f = probe_loop_flags [OF p]
  show "lifecycle (url_test e g c) = lifecycle c" "stop (url_test e g c) = stop c"
    by (cases b, simp_all add: url_test_def Let_def p f split: prod.splits)+
qed

lemma resolver_flags:
  "lifecycle (network_changed c) = lifecycle c" "stop (network_changed c) = stop c"
  "lifecycle (fst (answer_query name six c)) = lifecycle c" "stop (fst (answer_query name six c)) = stop c"
  "lifecycle (cache_responses ws c) = lifecycle c" "stop (cache_responses ws c) = stop c"
  by (simp_all add: network_changed_def close_connections_def answer_query_def cache_responses_def Let_def split_beta)

lemmas flags = resolver_flags prepare_resources_flags load_profile_flags update_policy_flags policy_flags tracker_flags url_test_flags

lemma resolver_configure_error: "resolver_configure X hs R r = (r', Inl e) \<Longrightarrow> r' = r"
  by (auto simp: resolver_configure_def split: sum.splits)

lemma import_fake_error: "import_fake absolute_name es r = (r', Inl e) \<Longrightarrow> r' = r"
  by (auto simp: import_fake_def resolver_import_fake_def Let_def split: sum.splits)

lemma core_step_used:
  assumes "core_step X L c c'" and "lifecycle c \<or> stop c"
  shows "lifecycle c' \<or> stop c'"
  using assms
proof (induction rule: core_step.induct)
  case (Start c E packets)
  obtain c1 r1 where "start_with_packets X E packets c = (c1, r1)" by fastforce
  then show ?case using start_used [of X E packets c c1 r1] Start by auto
next
  case (Shutdown c)
  then show ?case by (simp add: running_shutdown_def)
qed (simp_all add: flags)

lemma start_flags:
  "stop c \<longrightarrow> stop (fst (start_with_packets X E packets c))"
  "lifecycle c \<and> \<not> lifecycle (fst (start_with_packets X E packets c)) \<longrightarrow> stop (fst (start_with_packets X E packets c))"
  by (auto simp: start_with_packets_def split: prod.splits sum.splits)

lemma core_step_flags:
  assumes "core_step X L c c'"
  shows "(stop c \<longrightarrow> stop c') \<and> (lifecycle c \<and> \<not> lifecycle c' \<longrightarrow> stop c')"
  using assms
proof (induction rule: core_step.induct)
  case (Start c E packets)
  show ?case using start_flags by blast
next
  case (Shutdown c)
  then show ?case by (simp add: running_shutdown_def)
qed (simp_all add: flags)

lemma core_steps_used: "(core_step X L)\<^sup>*\<^sup>* c c' \<Longrightarrow> lifecycle c \<or> stop c \<Longrightarrow> lifecycle c' \<or> stop c'"
  by (induction rule: rtranclp_induct) (auto dest: core_step_used)


section \<open>Rewriting the rules of removed proxies\<close>















section \<open>Properties\<close>

text \<open>C5: In every state a core can reach, by any sequence of selections, policy updates, resource refreshes,
  profile loads, health checks, answered queries, network changes, connections and lifecycle calls, every
  group selects one of its own members, the compiled rules are those of the raw rules with valid targets,
  at most 4096 connections are open, the DNS cache keeps its bounds and its byte count, and the fake
  addresses form a bijection inside their pools. No operation takes a cancellation back, and the start
  flag falls only together with one.\<close>

theorem core_invariant:
  assumes "core_reachable X L c"
  shows "core_ok X L c \<and> (\<forall>c'. core_step X L c c' \<longrightarrow> (stop c \<longrightarrow> stop c') \<and> (lifecycle c \<and> \<not> lifecycle c' \<longrightarrow> stop c'))"
  using core_reachable_ok [OF assms] core_step_flags by blast

theorem core_invariant_witness:
  "core_ok no_crates no_libs (example_core\<lparr>lifecycle := True\<rparr>)
   \<and> stop (running_shutdown (example_core\<lparr>lifecycle := True\<rparr>))"
proof -
  have "core_step no_crates no_libs example_core (example_core\<lparr>lifecycle := True\<rparr>)"
    using core_step.Start [of no_crates no_libs example_core example_env True] by (simp add: example_start)
  from core_invariant [OF core_reachable.Step [OF example_reachable this]] show ?thesis
    using core_step.Shutdown [of no_crates no_libs "example_core\<lparr>lifecycle := True\<rparr>"] by (auto simp: running_shutdown_def)
qed

text \<open>C2: A reachable core decides on an outbound for every target, whatever the resolver answers: following
  the selections from group to group always ends, and the result is DIRECT, REJECT or a configured
  proxy. The errors \<^verbatim>\<open>group cycle\<close> and \<^verbatim>\<open>proxy not found\<close> cannot occur.\<close>

theorem route_decision_outbound:
  assumes "core_reachable X L c"
  shows "\<exists>d. route_decision X lookup c t nw = Inr d \<and> node d \<in> outbounds (config c)"
  using route_decision_safe [OF core_reachable_ok [OF assms]] by blast

theorem route_decision_outbound_witness:
  "\<exists>d. route_decision no_crates (\<lambda>_ _. Inl ''timeout'') example_core \<lparr>host = ''test.org'', t_port = 443\<rparr> ''tcp'' = Inr d
     \<and> node d \<in> outbounds (config example_core)"
  by (rule route_decision_outbound [OF example_reachable])

text \<open>C6: In rule mode, when no rule and no condition nested in a rule is marked no-resolve, looking addresses
  up only when an undecided rule asks for it changes no decision: the node and group are those of the
  first rule that matches when the address is looked up in advance, and DIRECT when no rule matches.\<close>

theorem route_decision_lazy:
  assumes "mode (policy c) = Rule" and "\<forall>r \<in> set (rule_list (policy c)). \<not> no_resolve r \<and> resolving (matcher r)"
    and "ip = (case targ_ip t of Some a \<Rightarrow> Some a
               | None \<Rightarrow> (case lookup (host t) (t_port t) of Inr ((a, _) # _) \<Rightarrow> Some a | _ \<Rightarrow> None))"
  shows "and_then (route_decision X lookup c t nw) (\<lambda>d. Inr (node d, rd_group d)) =
    (case first_match X (normal_host (host t)) ip (t_port t) nw (rule_list (policy c)) of
       Some r \<Rightarrow> and_then (leaf c (target r)) (\<lambda>n. Inr (n, target r))
     | None \<Rightarrow> Inr (''DIRECT'', ''DIRECT''))"
proof -
  let ?a = "case lookup (host t) (t_port t) of Inr ((ip, _) # _) \<Rightarrow> Some ip | _ \<Rightarrow> None"
  let ?l = "route_loop X ?a (normal_host (host t)) (t_port t) nw 0 (targ_ip t) (targ_ip t \<noteq> None) (rule_list (policy c))"
  have l: "map_option snd ?l = first_match X (normal_host (host t)) ip (t_port t) nw (rule_list (policy c))"
  proof (cases "targ_ip t")
    case None
    then show ?thesis using assms(2,3) route_loop_lazy by simp
  next
    case (Some a)
    then show ?thesis using assms(3) route_loop_resolved by simp
  qed
  show ?thesis
  proof (cases ?l)
    case None
    with l have "first_match X (normal_host (host t)) ip (t_port t) nw (rule_list (policy c)) = None" by simp
    then show ?thesis using None assms(1) by (simp add: route_decision_def normal_host_def Let_def)
  next
    case (Some x)
    obtain i r where x: "x = (i, r)" by (cases x)
    have f: "first_match X (normal_host (host t)) ip (t_port t) nw (rule_list (policy c)) = Some r" using l Some x by simp
    have "route_decision X lookup c t nw = and_then (leaf c (target r)) (\<lambda>n.
        Inr \<lparr>node = n, rd_group = target r,
             rd_rule = (if i < length (raw_rules (policy c))
                        then describe_rule (raw_rules (policy c) ! i) (target r) else ''Match'')\<rparr>)"
      using Some x assms(1) by (simp add: route_decision_def normal_host_def Let_def)
    then show ?thesis using f by (cases "leaf c (target r)") simp_all
  qed
qed

theorem route_decision_lazy_witness:
  "and_then (route_decision no_crates (\<lambda>_ _. Inl ''timeout'') example_core \<lparr>host = ''test.org'', t_port = 443\<rparr> ''tcp'')
     (\<lambda>d. Inr (node d, rd_group d)) = Inr (''P'', ''G'')"
proof -
  have "targ_ip \<lparr>host = ''test.org'', t_port = 443\<rparr> = None"
    by (simp add: targ_ip_def parse_ip_addr_name to_digit_def)
  then show ?thesis
    by (subst route_decision_lazy [where ip = None])
      (simp_all add: example_core_def leaf_def example_config_def config_default_def)
qed

text \<open>C26: If every rule either carries no-resolve or has a condition that looks at no address, the decision
  does not depend on what a lookup would return: no address of the target is ever asked for.\<close>

theorem route_decision_no_resolve:
  assumes "\<forall>r \<in> set (rule_list (policy c)). no_resolve r \<or> \<not> needs_address (matcher r)"
  shows "route_decision X lookup c t nw = route_decision X lookup' c t nw"
proof -
  let ?a = "\<lambda>lookup. case lookup (host t) (t_port t) of Inr ((ip, _) # _) \<Rightarrow> Some ip | _ \<Rightarrow> None"
  let ?l = "\<lambda>lookup. route_loop X (?a lookup) (to_ascii_lowercase (trim_end_matches (CHR ''.'') (host t))) (t_port t) nw 0
                    (targ_ip t) (targ_ip t \<noteq> None) (rule_list (policy c))"
  have l: "?l lookup = ?l lookup'" by (rule route_loop_no_lookup [OF assms])
  show ?thesis unfolding route_decision_def Let_def l ..
qed

theorem route_decision_no_resolve_witness:
  "route_decision no_crates (\<lambda>_ _. Inl ''timeout'')
     (example_core\<lparr>policy := (policy example_core)\<lparr>rule_list := [\<lparr>matcher = Net (Net4 0 5), target = ''G'', no_resolve = True\<rparr>,
       \<lparr>matcher = Suffix ''org'', target = ''G'', no_resolve = False\<rparr>]\<rparr>\<rparr>)
     \<lparr>host = ''test.org'', t_port = 443\<rparr> ''tcp''
   = route_decision no_crates (\<lambda>_ _. Inr [(V4 1, 0)])
     (example_core\<lparr>policy := (policy example_core)\<lparr>rule_list := [\<lparr>matcher = Net (Net4 0 5), target = ''G'', no_resolve = True\<rparr>,
       \<lparr>matcher = Suffix ''org'', target = ''G'', no_resolve = False\<rparr>]\<rparr>\<rparr>)
     \<lparr>host = ''test.org'', t_port = 443\<rparr> ''tcp''"
  by (rule route_decision_no_resolve) simp


text \<open>A core starts at most once. After a successful start, no sequence of operations makes another
  start succeed, whatever the environment does: the start flag is cleared only together with a
  cancellation that is never undone.\<close>

theorem start_at_most_once:
  assumes "start_with_packets X E packets c = (c1, Inr ())" and "(core_step X L)\<^sup>*\<^sup>* c1 c2"
  shows "\<exists>e. snd (start_with_packets X E' packets' c2) = Inl e \<and> fst (start_with_packets X E' packets' c2) = c2"
proof -
  have "lifecycle c1 \<or> stop c1" using start_used [OF assms(1)] by simp
  then have "lifecycle c2 \<or> stop c2" using core_steps_used [OF assms(2)] by blast
  then show ?thesis by (auto simp: start_with_packets_def)
qed

theorem start_at_most_once_witness:
  "\<exists>e. snd (start_with_packets no_crates example_env False (running_shutdown (example_core\<lparr>lifecycle := True\<rparr>))) = Inl e"
proof -
  have "(core_step no_crates no_libs)\<^sup>*\<^sup>* (example_core\<lparr>lifecycle := True\<rparr>) (running_shutdown (example_core\<lparr>lifecycle := True\<rparr>))"
    by (rule r_into_rtranclp) (rule core_step.Shutdown)
  from start_at_most_once [OF example_start this, of example_env False] show ?thesis by blast
qed

text \<open>C27: A policy update or a profile load that reports an error has changed nothing, and a refresh of the
  routing data that reports one has at most cached the answers to its own lookups: the previous rules,
  selections, routing data, name server policies, filters and fake addresses stay in use, also when the
  error arises after part of the work is done.\<close>

theorem failed_update_keeps_core:
  "(snd (update_policy X L m rs c) = Inl e \<longrightarrow> fst (update_policy X L m rs c) = c)
   \<and> (snd (prepare_resources X ws ld c) = Inl e \<longrightarrow> fst (prepare_resources X ws ld c) = cache_responses ws c)
   \<and> (snd (load_profile pf absolute_name c) = Inl e \<longrightarrow> fst (load_profile pf absolute_name c) = c)"
proof (intro conjI impI)
  assume "snd (update_policy X L m rs c) = Inl e"
  then show "fst (update_policy X L m rs c) = c" unfolding update_policy_def Let_def by (simp split: sum.splits)
next
  assume "snd (prepare_resources X ws ld c) = Inl e"
  then show "fst (prepare_resources X ws ld c) = cache_responses ws c"
    by (auto simp: prepare_resources_def cache_responses_def Let_def dest: resolver_configure_error split: sum.splits prod.splits)
next
  assume "snd (load_profile pf absolute_name c) = Inl e"
  then show "fst (load_profile pf absolute_name c) = c"
    by (cases pf) (auto simp: load_profile_def dest: import_fake_error split: sum.splits if_splits prod.splits)
qed

theorem failed_update_keeps_core_witness:
  "fst (prepare_resources no_crates [] (Inl ''download'') example_core) = cache_responses [] example_core"
  using failed_update_keeps_core [of no_crates no_libs None None example_core "''download''" "[]" "Inl ''download''" Missing "\<lambda>_. Inr ()"]
  by (simp add: prepare_resources_def)

text \<open>The listeners of a validated configuration are safe by default: binding them needs no further
  check, the proxy ports are reachable from other machines only with \<^verbatim>\<open>allow-lan\<close>, and the controller
  listens beyond the loopback interface only when a secret is set.\<close>

theorem listeners_guarded:
  assumes "validate X L cfg = Inr ()"
  shows "\<exists>ls. listeners cfg = Inr ls
    \<and> (\<forall>l \<in> set ls. case l of
         ProxyListener k ip p \<Rightarrow> p \<noteq> 0 \<and> (is_loopback ip \<or> allow_lan cfg)
       | Controller a \<Rightarrow> (\<exists>ip p. parse_socket_addr a = Some (ip, p) \<and> (is_loopback ip \<or> secret cfg \<noteq> []))
       | _ \<Rightarrow> dns_enable (dns_opts cfg))"
proof -
  have bind: "bind_address cfg = ''*'' \<or> parse_ip_addr (bind_address cfg) \<noteq> None" and ctl: "controller_checks cfg = Inr ()"
    using assms by (auto simp: validate_def and_then_Inr)
  have "\<exists>ip. listen_ip cfg = Inr ip \<and> (is_loopback ip \<or> allow_lan cfg)"
    using bind by (auto simp: listen_ip_def drop_bit_eq_div)
  then obtain ip where ip: "listen_ip cfg = Inr ip" "is_loopback ip \<or> allow_lan cfg" by blast
  have "\<exists>ip p. parse_socket_addr a = Some (ip, p) \<and> (is_loopback ip \<or> secret cfg \<noteq> [])"
    if "external_controller cfg = Some a" for a
    using ctl that by (auto simp: controller_checks_def and_then_Inr)
  then show ?thesis using ip by (auto simp: listeners_def split: option.splits)
qed

theorem listeners_guarded_witness:
  "\<exists>ls. listeners example_config = Inr ls
    \<and> (\<forall>l \<in> set ls. case l of
         ProxyListener k ip p \<Rightarrow> p \<noteq> 0 \<and> (is_loopback ip \<or> allow_lan example_config)
       | Controller a \<Rightarrow> (\<exists>ip p. parse_socket_addr a = Some (ip, p) \<and> (is_loopback ip \<or> secret example_config \<noteq> []))
       | _ \<Rightarrow> dns_enable (dns_opts example_config))"
  by (rule listeners_guarded [OF example_valid])



end
