(* ===== verification/FfiSpec.thy ===== *)
theory FfiSpec
  imports Prelude
begin

text \<open>
  The host contract of the C interface, \<^verbatim>\<open>crates/ffi/include/meta_rust.h\<close>: its status codes and types,
  its calls, and what the comment of the header promises about each of them, as a relation between the
  state of the interface before and after a call. The implementation in \<^verbatim>\<open>crates/ffi/src\<close> is modelled in
  the theory \<open>Ffi\<close> and shown to refine this contract.
\<close>

section \<open>Types and calls\<close>

definition META_OK :: int where "META_OK = 0"
definition META_ERROR :: int where "META_ERROR = 1"
definition META_WOULD_BLOCK :: int where "META_WOULD_BLOCK = 2"
definition META_BUFFER_TOO_SMALL :: int where "META_BUFFER_TOO_SMALL = 3"

lemmas META_defs = META_OK_def META_ERROR_def META_WOULD_BLOCK_def META_BUFFER_TOO_SMALL_def

type_synonym meta_handle = u64

type_synonym thread = nat

text \<open>A pointer to code is its address, a null pointer is \<open>None\<close>.\<close>

record meta_hooks_v1 =
  hooks_size :: u32
  version :: u32
  hooks_context :: u64
  protect_socket :: "u64 option"
  packet_ready :: "u64 option"

text \<open>
  Memory the host passes. An input is a pointer with the bytes behind it and a length. An output has a
  pointer with the bytes behind it, a capacity, and the length cell.
\<close>

record in_buffer =
  data :: "bytes option"
  data_length :: nat

record out_buffer =
  buffer :: "bytes option"
  capacity :: nat
  out_length :: "nat option"

datatype meta_call =
    Meta_abi_version_v1
  | Meta_create_v1 in_buffer "meta_hooks_v1 option" "meta_handle option"
  | Meta_start_v1 meta_handle
  | Meta_stop_v1 meta_handle
  | Meta_destroy_v1 meta_handle
  | Meta_close_connections_v1 meta_handle
  | Meta_network_changed_v1 meta_handle
  | Meta_set_tun_fd_v1 meta_handle int
  | Meta_error_v1 out_buffer
  | Meta_snapshot_v1 meta_handle out_buffer
  | Meta_update_v1 meta_handle in_buffer
  | Meta_select_v1 meta_handle in_buffer in_buffer
  | Meta_write_packet_v1 meta_handle in_buffer
  | Meta_read_packet_v1 meta_handle out_buffer

text \<open>What a call leaves behind: its status, the handle cell of \<^verbatim>\<open>meta_create_v1\<close> and the output buffer.\<close>

record meta_reply =
  status :: int
  out_handle :: "meta_handle option"
  out :: "out_buffer option"

text \<open>The calls that must not be made inside a callback, and the handle a call names.\<close>

fun lifecycle_call :: "meta_call \<Rightarrow> bool" where
  "lifecycle_call (Meta_create_v1 _ _ _) = True"
| "lifecycle_call (Meta_start_v1 _) = True"
| "lifecycle_call (Meta_stop_v1 _) = True"
| "lifecycle_call (Meta_destroy_v1 _) = True"
| "lifecycle_call (Meta_network_changed_v1 _) = True"
| "lifecycle_call (Meta_set_tun_fd_v1 _ _) = True"
| "lifecycle_call _ = False"

fun call_handle :: "meta_call \<Rightarrow> meta_handle option" where
  "call_handle Meta_abi_version_v1 = None"
| "call_handle (Meta_create_v1 _ _ _) = None"
| "call_handle (Meta_error_v1 _) = None"
| "call_handle (Meta_start_v1 h) = Some h"
| "call_handle (Meta_stop_v1 h) = Some h"
| "call_handle (Meta_destroy_v1 h) = Some h"
| "call_handle (Meta_close_connections_v1 h) = Some h"
| "call_handle (Meta_network_changed_v1 h) = Some h"
| "call_handle (Meta_set_tun_fd_v1 h _) = Some h"
| "call_handle (Meta_snapshot_v1 h _) = Some h"
| "call_handle (Meta_update_v1 h _) = Some h"
| "call_handle (Meta_select_v1 h _ _) = Some h"
| "call_handle (Meta_write_packet_v1 h _) = Some h"
| "call_handle (Meta_read_packet_v1 h _) = Some h"

fun call_buffer :: "meta_call \<Rightarrow> out_buffer option" where
  "call_buffer (Meta_error_v1 b) = Some b"
| "call_buffer (Meta_snapshot_v1 _ b) = Some b"
| "call_buffer (Meta_read_packet_v1 _ b) = Some b"
| "call_buffer _ = None"

section \<open>The contract\<close>

text \<open>
  A handle is fresh until it starts and stopped from then on that it cannot run again. It is quiet when
  its worker was joined, so that none of its callbacks runs any more. Packet calls are available or not,
  and the packets for the host wait in order.
\<close>

datatype phase = Fresh | Started | Stopped

record contract_handle =
  phase :: phase
  quiet :: bool
  packet_calls :: bool
  packets :: "bytes list"

text \<open>
  The interface: the live handles, every handle ever issued, the error text of each thread, and which
  threads run a callback.
\<close>

record contract =
  live :: "meta_handle \<rightharpoonup> contract_handle"
  issued :: "meta_handle set"
  errors :: "thread \<Rightarrow> bytes"
  in_callback :: "thread \<Rightarrow> bool"

text \<open>
  How output reaches the host: it fits and is written with its length, or nothing is written and the
  length is the capacity that is required.
\<close>

definition delivers :: "bytes \<Rightarrow> out_buffer \<Rightarrow> int \<Rightarrow> out_buffer \<Rightarrow> bool" where
  "delivers bs b st b' \<longleftrightarrow>
     capacity b' = capacity b \<and> out_length b' = Some (length bs) \<and>
     (if st = META_OK then
        length bs \<le> capacity b \<and> (bs = [] \<and> buffer b' = buffer b
          \<or> (\<exists>m. buffer b = Some m \<and> buffer b' = Some (bs @ drop (length bs) m)))
      else st = META_BUFFER_TOO_SMALL \<and> capacity b < length bs \<and> buffer b' = buffer b)"

text \<open>Hooks of the announced size and version; Android requires the protection of sockets.\<close>

definition hooks_accepted :: "bool \<Rightarrow> nat \<Rightarrow> meta_hooks_v1 option \<Rightarrow> bool" where
  "hooks_accepted android sizeof_hooks hooks \<longleftrightarrow>
     (case hooks of
        None \<Rightarrow> \<not> android
      | Some h \<Rightarrow> unat (hooks_size h) = sizeof_hooks \<and> version h = 1 \<and> (android \<longrightarrow> protect_socket h \<noteq> None))"

text \<open>A failing call may stop the handle it names and withdraw its packet calls, nothing else.\<close>

definition degrades :: "contract_handle \<Rightarrow> contract_handle \<Rightarrow> bool" where
  "degrades a b \<longleftrightarrow> packets b = packets a \<and> (packet_calls b \<longrightarrow> packet_calls a) \<and> (phase b = phase a \<or> phase b = Stopped) \<and> (quiet a \<longrightarrow> quiet b)"

definition live_degrades :: "meta_call \<Rightarrow> (meta_handle \<rightharpoonup> contract_handle) \<Rightarrow> (meta_handle \<rightharpoonup> contract_handle) \<Rightarrow> bool" where
  "live_degrades c l l' \<longleftrightarrow>
     dom l' = dom l \<and> (\<forall>h \<in> dom l. if call_handle c = Some h then degrades (the (l h)) (the (l' h)) else l' h = l h)"

inductive contract_step :: "bool \<Rightarrow> nat \<Rightarrow> thread \<Rightarrow> meta_call \<Rightarrow> contract \<Rightarrow> meta_reply \<Rightarrow> contract \<Rightarrow> bool"
  for android :: bool and sizeof_hooks :: nat and t :: thread where
  Version:
    "status r = 1 \<Longrightarrow> contract_step android sizeof_hooks t Meta_abi_version_v1 s r s"
| Error:
    "c \<noteq> Meta_abi_version_v1 \<Longrightarrow> status r = META_ERROR \<Longrightarrow> live_degrades c (live s) l' \<Longrightarrow> issued s \<subseteq> i' \<Longrightarrow>
     (lifecycle_call c \<and> in_callback s t \<longrightarrow> l' = live s \<and> i' = issued s) \<Longrightarrow>
     (case (call_buffer c, out r) of (Some b, Some b') \<Rightarrow> buffer b' = buffer b | (None, _) \<Rightarrow> True | _ \<Rightarrow> False) \<Longrightarrow>
     contract_step android sizeof_hooks t c s r (s\<lparr>live := l', issued := i', errors := (errors s)(t := e)\<rparr>)"
| Create:
    "status r = META_OK \<Longrightarrow> \<not> in_callback s t \<Longrightarrow> hooks_accepted android sizeof_hooks hooks \<Longrightarrow>
     out_handle r = Some h \<Longrightarrow> h \<notin> issued s \<Longrightarrow>
     contract_step android sizeof_hooks t (Meta_create_v1 cfg hooks (Some h0)) s r
       (s\<lparr>live := (live s)(h \<mapsto> \<lparr>phase = Fresh, quiet = False, packet_calls = p, packets = []\<rparr>), issued := insert h (issued s)\<rparr>)"
| Start:
    "status r = META_OK \<Longrightarrow> \<not> in_callback s t \<Longrightarrow> live s h = Some a \<Longrightarrow> phase a = Fresh \<Longrightarrow>
     contract_step android sizeof_hooks t (Meta_start_v1 h) s r (s\<lparr>live := (live s)(h \<mapsto> a\<lparr>phase := Started\<rparr>)\<rparr>)"
| Stop:
    "status r = META_OK \<Longrightarrow> \<not> in_callback s t \<Longrightarrow> live s h = Some a \<Longrightarrow>
     contract_step android sizeof_hooks t (Meta_stop_v1 h) s r
       (s\<lparr>live := (live s)(h \<mapsto> a\<lparr>phase := Stopped, quiet := True\<rparr>)\<rparr>)"
| Destroy:
    "status r = META_OK \<Longrightarrow> \<not> in_callback s t \<Longrightarrow> live s h = Some a \<Longrightarrow>
     contract_step android sizeof_hooks t (Meta_destroy_v1 h) s r (s\<lparr>live := (live s)(h := None)\<rparr>)"
| CloseConnections:
    "status r = META_OK \<Longrightarrow> live s h = Some a \<Longrightarrow>
     contract_step android sizeof_hooks t (Meta_close_connections_v1 h) s r s"
| NetworkChanged:
    "status r = META_OK \<Longrightarrow> \<not> in_callback s t \<Longrightarrow> live s h = Some a \<Longrightarrow> phase a \<noteq> Stopped \<Longrightarrow>
     contract_step android sizeof_hooks t (Meta_network_changed_v1 h) s r s"
| SetTunFd:
    "status r = META_OK \<Longrightarrow> android \<Longrightarrow> \<not> in_callback s t \<Longrightarrow> live s h = Some a \<Longrightarrow> phase a = Fresh \<Longrightarrow>
     contract_step android sizeof_hooks t (Meta_set_tun_fd_v1 h fd) s r
       (s\<lparr>live := (live s)(h \<mapsto> a\<lparr>packet_calls := False\<rparr>)\<rparr>)"
| ReadError:
    "out r = Some b' \<Longrightarrow> delivers (errors s t) b (status r) b' \<Longrightarrow>
     contract_step android sizeof_hooks t (Meta_error_v1 b) s r s"
| Snapshot:
    "live s h = Some a \<Longrightarrow> out r = Some b' \<Longrightarrow> delivers json b (status r) b' \<Longrightarrow>
     contract_step android sizeof_hooks t (Meta_snapshot_v1 h b) s r s"
| Update:
    "status r = META_OK \<Longrightarrow> live s h = Some a \<Longrightarrow> contract_step android sizeof_hooks t (Meta_update_v1 h json) s r s"
| Select:
    "status r = META_OK \<Longrightarrow> live s h = Some a \<Longrightarrow>
     contract_step android sizeof_hooks t (Meta_select_v1 h grp nd) s r s"
| WritePacket:
    "status r = META_OK \<or> status r = META_WOULD_BLOCK \<Longrightarrow> live s h = Some a \<Longrightarrow> packet_calls a \<Longrightarrow> phase a \<noteq> Stopped \<Longrightarrow>
     contract_step android sizeof_hooks t (Meta_write_packet_v1 h packet) s r s"
| ReadBlocked:
    "status r = META_WOULD_BLOCK \<Longrightarrow> live s h = Some a \<Longrightarrow> packet_calls a \<Longrightarrow> packets a = [] \<Longrightarrow>
     out r = Some (b\<lparr>out_length := Some 0\<rparr>) \<Longrightarrow>
     contract_step android sizeof_hooks t (Meta_read_packet_v1 h b) s r s"
| ReadPacket:
    "live s h = Some a \<Longrightarrow> packet_calls a \<Longrightarrow> packets a = p # ps \<Longrightarrow>
     out r = Some b' \<Longrightarrow> delivers p b (status r) b' \<Longrightarrow>
     contract_step android sizeof_hooks t (Meta_read_packet_v1 h b) s r
       (if status r = META_OK then s\<lparr>live := (live s)(h \<mapsto> a\<lparr>packets := ps\<rparr>)\<rparr> else s)"

text \<open>
  What happens between calls: a worker queues a packet of a started handle, a handle stops by itself,
  a thread enters or leaves a callback.
\<close>

inductive contract_env :: "contract \<Rightarrow> contract \<Rightarrow> bool" where
  Packet:
    "live s h = Some a \<Longrightarrow> phase a \<noteq> Fresh \<Longrightarrow> \<not> quiet a \<Longrightarrow>
     contract_env s (s\<lparr>live := (live s)(h \<mapsto> a\<lparr>packets := packets a @ [p]\<rparr>)\<rparr>)"
| Stops:
    "live s h = Some a \<Longrightarrow> contract_env s (s\<lparr>live := (live s)(h \<mapsto> a\<lparr>phase := Stopped\<rparr>)\<rparr>)"
| Callback: "contract_env s (s\<lparr>in_callback := (in_callback s)(t := b)\<rparr>)"
| Idle: "contract_env s s"

end
