(* ===== verification/Ffi.thy ===== *)
theory Ffi
  imports Core FfiSpec
begin

text \<open>
  The implementation of the C interface: \<^verbatim>\<open>crates/ffi/src/lib.rs\<close> and \<^verbatim>\<open>crates/ffi/src/host.rs\<close>. The
  state is the registry of handles with the counter that numbers them, and per thread the last error
  and whether it runs a host callback. What other threads, the JSON crate and the operating system
  answer during a call is an argument.
\<close>

section \<open>State\<close>

datatype 'a outcome = Ok 'a | Err error | Panic

record host_hooks =
  hook_context :: u64
  protect :: "u64 option"
  notify :: "u64 option"

text \<open>
  A handle. \<open>worker\<close> says that the worker thread was not joined yet, \<open>running\<close> that it holds a started
  core, \<open>channel_open\<close> that it still holds the other ends of the two packet channels.
\<close>

record ('r, 'x) handle =
  core :: "('r, 'x) core"
  hooks :: host_hooks
  worker :: bool
  running :: bool
  packet_input :: "bytes list option"
  channel_open :: bool
  receiver :: "bytes list"
  pending :: "bytes option"
  packet_queue_enabled :: bool

record ('r, 'x) world =
  handles :: "u64 \<rightharpoonup> ('r, 'x) handle"
  poisoned :: bool
  next_id :: u64
  error_text :: "thread \<Rightarrow> str"
  callback :: "thread \<Rightarrow> bool"

definition initial_world :: "('r, 'x) world" where
  "initial_world =
     \<lparr>handles = Map.empty, poisoned = False, next_id = 1, error_text = \<lambda>_. [], callback = \<lambda>_. False\<rparr>"

text \<open>The target platform and the crates the interface calls.\<close>

datatype 'j json = Object "(str \<times> 'j) list" | Other 'j

record ('r, 'x, 'j) api =
  crates_of :: "('r, 'x) crates"
  libs_of :: libs
  android :: bool
  pointer_size :: nat
  from_slice :: "bytes \<Rightarrow> 'j json result"
  mode_from_value :: "'j \<Rightarrow> mode result"
  rules_from_value :: "'j \<Rightarrow> str list result"
  snapshot_json :: "('r, 'x) core \<Rightarrow> bytes result"

definition sizeof_hooks :: "('r, 'x, 'j) api \<Rightarrow> nat" where
  "sizeof_hooks A = 8 + 3 * pointer_size A"

text \<open>
  What the environment answers during a call: whether the runtime and its thread come up, what happens
  to a command sent to the worker, and how the worker ended.
\<close>

record ('r, 'x) answers =
  runtime_build :: "unit outcome"
  queue_full :: bool
  replied :: bool
  executed :: bool
  start_answers :: "('r, 'x) start_env"
  device_open :: "unit result"
  dup_fd :: "unit result"
  joined :: bool
  save_answer :: "('r, 'x) core \<Rightarrow> unit result"

section \<open>The boundary\<close>

fun of_result :: "'a result \<Rightarrow> 'a outcome" where
  "of_result (Inl e) = Err e"
| "of_result (Inr x) = Ok x"

definition set_error :: "thread \<Rightarrow> str \<Rightarrow> ('r, 'x) world \<Rightarrow> ('r, 'x) world" where
  "set_error t e w = w\<lparr>error_text := (error_text w)(t := e)\<rparr>"

fun boundary :: "thread \<Rightarrow> ('r, 'x) world \<times> int outcome \<Rightarrow> ('r, 'x) world \<times> int" where
  "boundary t (w, Ok s) = (w, s)"
| "boundary t (w, Err e) = (set_error t e w, META_ERROR)"
| "boundary t (w, Panic) = (set_error t ''panic contained at C ABI boundary'' w, META_ERROR)"

definition check_lifecycle :: "('r, 'x) world \<Rightarrow> thread \<Rightarrow> unit result" where
  "check_lifecycle w t = ensure (\<not> callback w t) ''lifecycle calls cannot reenter from host callbacks''"

definition handle_of :: "('r, 'x) world \<Rightarrow> u64 \<Rightarrow> ('r, 'x) handle outcome" where
  "handle_of w i =
     (if poisoned w then Panic
      else of_result (ok_or ''invalid or destroyed core handle'' (handles w i)))"

definition put_handle :: "u64 \<Rightarrow> ('r, 'x) handle \<Rightarrow> ('r, 'x) world \<Rightarrow> ('r, 'x) world" where
  "put_handle i h w = w\<lparr>handles := (handles w)(i \<mapsto> h)\<rparr>"

text \<open>The rest of a call after \<^verbatim>\<open>handle(id)?\<close>.\<close>

definition with_handle :: "('r, 'x) world \<Rightarrow> u64 \<Rightarrow> (('r, 'x) handle \<Rightarrow> ('r, 'x) world \<times> 'a outcome) \<Rightarrow> ('r, 'x) world \<times> 'a outcome" where
  "with_handle w i f = (case handle_of w i of Ok h \<Rightarrow> f h | Err e \<Rightarrow> (w, Err e) | Panic \<Rightarrow> (w, Panic))"

definition ffi_input :: "in_buffer \<Rightarrow> bytes result" where
  "ffi_input b =
     and_then (ensure (data_length b \<le> 16 * 1024 * 1024 \<and> (data_length b = 0 \<or> data b \<noteq> None)) ''invalid input buffer'')
       (\<lambda>_. Inr (if data_length b = 0 then [] else take (data_length b) (the (data b))))"

definition ffi_output :: "bytes \<Rightarrow> out_buffer \<Rightarrow> out_buffer \<times> int result" where
  "ffi_output bs b =
     (if out_length b = None then (b, Inl ''output length is required'')
      else
        let b = b\<lparr>out_length := Some (length bs)\<rparr>
        in if capacity b < length bs then (b, Inr META_BUFFER_TOO_SMALL)
           else if \<not> (bs = [] \<or> buffer b \<noteq> None) then (b, Inl ''invalid output buffer'')
           else (if bs = [] then b else b\<lparr>buffer := Some (bs @ drop (length bs) (the (buffer b)))\<rparr>, Inr META_OK))"

section \<open>Host hooks\<close>

definition host_hooks_new :: "('r, 'x, 'j) api \<Rightarrow> meta_hooks_v1 \<Rightarrow> host_hooks result" where
  "host_hooks_new A h =
     and_then (ensure (version h = 1 \<and> unat (hooks_size h) = sizeof_hooks A) ''unsupported host hooks version/size'')
       (\<lambda>_. Inr \<lparr>hook_context = hooks_context h, protect = protect_socket h, notify = packet_ready h\<rparr>)"

definition read_hooks :: "('r, 'x, 'j) api \<Rightarrow> meta_hooks_v1 option \<Rightarrow> host_hooks result" where
  "read_hooks A h =
     (case h of
        None \<Rightarrow> Inr \<lparr>hook_context = 0, protect = None, notify = None\<rparr>
      | Some h \<Rightarrow>
          and_then (ensure (unat (hooks_size h) = sizeof_hooks A) ''unsupported host hooks size'')
            (\<lambda>_. host_hooks_new A h))"

text \<open>A callback runs in a scope that marks its thread and restores the mark of before.\<close>

definition scope_enter :: "thread \<Rightarrow> ('r, 'x) world \<Rightarrow> ('r, 'x) world \<times> bool" where
  "scope_enter t w = (w\<lparr>callback := (callback w)(t := True)\<rparr>, callback w t)"

definition scope_drop :: "thread \<Rightarrow> bool \<Rightarrow> ('r, 'x) world \<Rightarrow> ('r, 'x) world" where
  "scope_drop t previous w = w\<lparr>callback := (callback w)(t := previous)\<rparr>"

text \<open>\<open>host\<close> is what the callback of the host does to the interface, with its return code.\<close>

definition hook_protect_socket :: "host_hooks \<Rightarrow> thread \<Rightarrow> (('r, 'x) world \<Rightarrow> ('r, 'x) world \<times> int) \<Rightarrow> ('r, 'x) world \<Rightarrow> ('r, 'x) world \<times> unit result" where
  "hook_protect_socket h t on_host w =
     (case protect h of
        None \<Rightarrow> (w, Inr ())
      | Some _ \<Rightarrow>
          let (w, previous) = scope_enter t w;
              (w, code) = on_host w
          in (scope_drop t previous w, ensure (code = 0) ''host rejected socket protection''))"

section \<open>Handles\<close>

definition handle_new :: "('r, 'x, 'j) api \<Rightarrow> ('r, 'x) answers \<Rightarrow> config \<Rightarrow> host_hooks \<Rightarrow> ('r, 'x) handle outcome" where
  "handle_new A E cfg hh =
     (if android A \<and> protect hh = None then Err ''Android host must provide socket protection''
      else
        (case core_new (crates_of A) (libs_of A) cfg of
           Inl e \<Rightarrow> Err e
         | Inr c \<Rightarrow>
             (case runtime_build E of
                Err e \<Rightarrow> Err e
              | Panic \<Rightarrow> Panic
              | Ok _ \<Rightarrow>
                  let enable = tun_enable (tun_opts (config c))
                  in Ok \<lparr>core = c, hooks = hh, worker = True, running = False,
                         packet_input = if enable then Some [] else None, channel_open = enable,
                         receiver = [], pending = None, packet_queue_enabled = enable\<rparr>)))"

definition stop_core :: "('r, 'x) handle \<Rightarrow> ('r, 'x) handle" where
  "stop_core h = h\<lparr>core := (core h)\<lparr>stop := True\<rparr>\<rparr>"

text \<open>
  \<^verbatim>\<open>command\<close>: the caller sends a command and waits for the reply of the worker, which runs \<open>exec\<close>. If
  none comes in time the core is stopped; the worker may have run the command all the same.
\<close>

definition command :: "('r, 'x) answers \<Rightarrow> ('r, 'x) world \<Rightarrow> thread \<Rightarrow> (('r, 'x) handle \<Rightarrow> ('r, 'x) handle \<times> unit result) \<Rightarrow> ('r, 'x) handle \<Rightarrow> ('r, 'x) handle \<times> unit result" where
  "command E w t exec h =
     (case and_then (check_lifecycle w t) (\<lambda>_. ensure (\<not> stop (core h)) ''core is stopped'') of
        Inl e \<Rightarrow> (h, Inl e)
      | Inr _ \<Rightarrow>
          if queue_full E then (h, Inl ''core command queue closed or full'')
          else if replied E then exec h
          else (stop_core (if executed E then fst (exec h) else h), Inl ''timed out waiting on channel''))"

definition worker_start :: "('r, 'x, 'j) api \<Rightarrow> ('r, 'x) answers \<Rightarrow> ('r, 'x) handle \<Rightarrow> ('r, 'x) handle \<times> unit result" where
  "worker_start A E h =
     (case start_with_packets (crates_of A) (start_answers E) (tun_enable (tun_opts (config (core h)))) (core h) of
        (c, Inr _) \<Rightarrow> (h\<lparr>core := c, running := True\<rparr>, Inr ())
      | (c, Inl e) \<Rightarrow> (h\<lparr>core := c\<rparr>, Inl e))"

definition worker_network_changed :: "('r, 'x) handle \<Rightarrow> ('r, 'x) handle \<times> unit result" where
  "worker_network_changed h = (h\<lparr>core := network_changed (core h)\<rparr>, Inr ())"

definition worker_set_fd :: "('r, 'x) answers \<Rightarrow> ('r, 'x) handle \<Rightarrow> ('r, 'x) handle \<times> unit result" where
  "worker_set_fd E h =
     (if running h \<or> \<not> tun_enable (tun_opts (config (core h))) then
        (h, Inl ''TUN fd must be set before start with tun.enable=true'')
      else
        (case device_open E of
           Inl e \<Rightarrow> (h, Inl e)
         | Inr _ \<Rightarrow> (h\<lparr>packet_queue_enabled := False, channel_open := False\<rparr>, Inr ())))"

definition check_packet_queue :: "('r, 'x) handle \<Rightarrow> unit result" where
  "check_packet_queue h =
     ensure (packet_queue_enabled h) ''host packet queue unavailable: TUN is disabled or uses an Android fd''"

text \<open>The end of the worker: it shuts its started core down and drops the channels.\<close>

definition worker_exit :: "('r, 'x) handle \<Rightarrow> ('r, 'x) handle" where
  "worker_exit h =
     h\<lparr>core := (if running h then running_shutdown (core h) else core h), running := False, channel_open := False\<rparr>"

definition shutdown :: "('r, 'x) answers \<Rightarrow> ('r, 'x) world \<Rightarrow> thread \<Rightarrow> ('r, 'x) handle \<Rightarrow> ('r, 'x) handle \<times> unit result" where
  "shutdown E w t h =
     (case check_lifecycle w t of
        Inl e \<Rightarrow> (h, Inl e)
      | Inr _ \<Rightarrow>
          let h = stop_core h
          in if worker h then
               if joined E then ((worker_exit h)\<lparr>worker := False\<rparr>, Inr ())
               else (h\<lparr>worker := False, running := False, channel_open := False\<rparr>, Inl ''core worker panicked'')
             else (h, Inr ()))"


section \<open>The calls\<close>

definition meta_abi_version_v1 :: int where
  "meta_abi_version_v1 = 1"

definition create_body :: "('r, 'x, 'j) api \<Rightarrow> ('r, 'x) answers \<Rightarrow> thread \<Rightarrow> in_buffer \<Rightarrow> meta_hooks_v1 option \<Rightarrow> ('r, 'x) world \<Rightarrow> ('r, 'x) world \<times> u64 outcome" where
  "create_body A E t b hk w =
     (case and_then (check_lifecycle w t) (\<lambda>_.
           and_then (ffi_input b) (\<lambda>bs.
           and_then (config_parse (crates_of A) (libs_of A) bs) (\<lambda>cfg.
           and_then (read_hooks A hk) (\<lambda>hh. Inr (cfg, hh))))) of
        Inl e \<Rightarrow> (w, Err e)
      | Inr (cfg, hh) \<Rightarrow>
          if poisoned w then (w, Panic)
          else if \<not> card (dom (handles w)) < 16 then (w, Err ''core handle capacity reached'')
          else if next_id w = - 1 then (w, Err ''core handle identifiers exhausted'')
          else
            let i = next_id w; w = w\<lparr>next_id := i + 1\<rparr>
            in case handle_new A E cfg hh of
                 Ok h \<Rightarrow> (put_handle i h w, Ok i)
               | Err e \<Rightarrow> (w, Err e)
               | Panic \<Rightarrow> (w\<lparr>poisoned := True\<rparr>, Panic))"

text \<open>A null handle cell is \<open>None\<close>; otherwise the cell is cleared before anything else is checked.\<close>

definition meta_create_v1 :: "('r, 'x, 'j) api \<Rightarrow> ('r, 'x) answers \<Rightarrow> thread \<Rightarrow> in_buffer \<Rightarrow> meta_hooks_v1 option \<Rightarrow> meta_handle option \<Rightarrow> ('r, 'x) world \<Rightarrow> ('r, 'x) world \<times> meta_reply" where
  "meta_create_v1 A E t b hk cell w =
     (let (w, r) = (if cell = None then (w, Err ''handle output is required'') else create_body A E t b hk w);
          (w, s) = boundary t (w, case r of Ok _ \<Rightarrow> Ok META_OK | Err e \<Rightarrow> Err e | Panic \<Rightarrow> Panic)
      in (w, \<lparr>status = s,
              out_handle = (if cell = None then None else case r of Ok i \<Rightarrow> Some i | _ \<Rightarrow> Some 0),
              out = None\<rparr>))"

text \<open>A call that changes one handle, and answers with a status only.\<close>

definition update_handle :: "u64 \<Rightarrow> ('r, 'x) handle \<times> unit result \<Rightarrow> ('r, 'x) world \<Rightarrow> ('r, 'x) world \<times> int outcome" where
  "update_handle i r w = (put_handle i (fst r) w, of_result (and_then (snd r) (\<lambda>_. Inr META_OK)))"

definition plain_reply :: "('r, 'x) world \<times> int \<Rightarrow> ('r, 'x) world \<times> meta_reply" where
  "plain_reply r = (fst r, \<lparr>status = snd r, out_handle = None, out = None\<rparr>)"

definition meta_start_v1 :: "('r, 'x, 'j) api \<Rightarrow> ('r, 'x) answers \<Rightarrow> thread \<Rightarrow> u64 \<Rightarrow> ('r, 'x) world \<Rightarrow> ('r, 'x) world \<times> meta_reply" where
  "meta_start_v1 A E t i w =
     plain_reply (boundary t (with_handle w i (\<lambda>h. update_handle i (command E w t (worker_start A E) h) w)))"

definition meta_stop_v1 :: "('r, 'x) answers \<Rightarrow> thread \<Rightarrow> u64 \<Rightarrow> ('r, 'x) world \<Rightarrow> ('r, 'x) world \<times> meta_reply" where
  "meta_stop_v1 E t i w =
     plain_reply (boundary t (with_handle w i (\<lambda>h. update_handle i (shutdown E w t h) w)))"

definition meta_destroy_v1 :: "('r, 'x) answers \<Rightarrow> thread \<Rightarrow> u64 \<Rightarrow> ('r, 'x) world \<Rightarrow> ('r, 'x) world \<times> meta_reply" where
  "meta_destroy_v1 E t i w =
     plain_reply (boundary t (with_handle w i (\<lambda>h.
       case shutdown E w t h of
         (h, Inl e) \<Rightarrow> (put_handle i h w, Err e)
       | (h, Inr _) \<Rightarrow> (w\<lparr>handles := (handles w)(i := None)\<rparr>, Ok META_OK))))"

definition meta_close_connections_v1 :: "thread \<Rightarrow> u64 \<Rightarrow> ('r, 'x) world \<Rightarrow> ('r, 'x) world \<times> meta_reply" where
  "meta_close_connections_v1 t i w =
     plain_reply (boundary t (with_handle w i (\<lambda>h.
       (put_handle i (h\<lparr>core := close_connections (core h)\<rparr>) w, Ok META_OK))))"

definition meta_network_changed_v1 :: "('r, 'x) answers \<Rightarrow> thread \<Rightarrow> u64 \<Rightarrow> ('r, 'x) world \<Rightarrow> ('r, 'x) world \<times> meta_reply" where
  "meta_network_changed_v1 E t i w =
     plain_reply (boundary t (with_handle w i (\<lambda>h. update_handle i (command E w t worker_network_changed h) w)))"

definition meta_set_tun_fd_v1 :: "('r, 'x) answers \<Rightarrow> thread \<Rightarrow> u64 \<Rightarrow> int \<Rightarrow> ('r, 'x) world \<Rightarrow> ('r, 'x) world \<times> meta_reply" where
  "meta_set_tun_fd_v1 E t i fd w =
     plain_reply (boundary t
       (case and_then (ensure (fd \<ge> 0) ''invalid TUN descriptor'') (\<lambda>_. dup_fd E) of
          Inl e \<Rightarrow> (w, Err e)
        | Inr _ \<Rightarrow> with_handle w i (\<lambda>h. update_handle i (command E w t (worker_set_fd E) h) w)))"

text \<open>A call that fills an output buffer.\<close>

definition buffer_reply :: "thread \<Rightarrow> ('r, 'x) world \<times> out_buffer \<times> int outcome \<Rightarrow> ('r, 'x) world \<times> meta_reply" where
  "buffer_reply t r =
     (let (w, b, s) = r; (w, s) = boundary t (w, s)
      in (w, \<lparr>status = s, out_handle = None, out = Some b\<rparr>))"

definition meta_error_v1 :: "thread \<Rightarrow> out_buffer \<Rightarrow> ('r, 'x) world \<Rightarrow> ('r, 'x) world \<times> meta_reply" where
  "meta_error_v1 t b w =
     buffer_reply t (w, let (b, r) = ffi_output (str_bytes (error_text w t)) b in (b, of_result r))"

definition meta_snapshot_v1 :: "('r, 'x, 'j) api \<Rightarrow> thread \<Rightarrow> u64 \<Rightarrow> out_buffer \<Rightarrow> ('r, 'x) world \<Rightarrow> ('r, 'x) world \<times> meta_reply" where
  "meta_snapshot_v1 A t i b w =
     buffer_reply t
       (w, case handle_of w i of
             Err e \<Rightarrow> (b, Err e)
           | Panic \<Rightarrow> (b, Panic)
           | Ok h \<Rightarrow>
               (case snapshot_json A (core h) of
                  Inl e \<Rightarrow> (b, Err e)
                | Inr bs \<Rightarrow> (let (b, r) = ffi_output bs b in (b, of_result r))))"

definition transpose :: "'a result option \<Rightarrow> 'a option result" where
  "transpose r = (case r of None \<Rightarrow> Inr None | Some (Inl e) \<Rightarrow> Inl e | Some (Inr x) \<Rightarrow> Inr (Some x))"

definition read_update :: "('r, 'x, 'j) api \<Rightarrow> in_buffer \<Rightarrow> (mode option \<times> str list option) result" where
  "read_update A b =
     and_then (ffi_input b) (\<lambda>bs.
     and_then (from_slice A bs) (\<lambda>v.
     and_then (case v of Object kvs \<Rightarrow> Inr kvs | Other _ \<Rightarrow> Inl ''update must be an object'') (\<lambda>kvs.
     and_then (ensure (list_all (\<lambda>(k, _). k = ''mode'' \<or> k = ''rules'') kvs) ''only mode and rules can update online'') (\<lambda>_.
     and_then (transpose (map_option (mode_from_value A) (map_of kvs ''mode''))) (\<lambda>m.
     and_then (transpose (map_option (rules_from_value A) (map_of kvs ''rules''))) (\<lambda>rs. Inr (m, rs)))))))"

definition meta_update_v1 :: "('r, 'x, 'j) api \<Rightarrow> thread \<Rightarrow> u64 \<Rightarrow> in_buffer \<Rightarrow> ('r, 'x) world \<Rightarrow> ('r, 'x) world \<times> meta_reply" where
  "meta_update_v1 A t i b w =
     plain_reply (boundary t
       (case read_update A b of
          Inl e \<Rightarrow> (w, Err e)
        | Inr (m, rs) \<Rightarrow>
            with_handle w i (\<lambda>h.
              let (c, r) = update_policy (crates_of A) (libs_of A) m rs (core h)
              in update_handle i (h\<lparr>core := c\<rparr>, r) w)))"

definition meta_select_v1 :: "('r, 'x) answers \<Rightarrow> thread \<Rightarrow> u64 \<Rightarrow> in_buffer \<Rightarrow> in_buffer \<Rightarrow> ('r, 'x) world \<Rightarrow> ('r, 'x) world \<times> meta_reply" where
  "meta_select_v1 E t i gb nb w =
     plain_reply (boundary t (with_handle w i (\<lambda>h.
       case and_then (ffi_input gb) (\<lambda>g. and_then (from_utf8 g) (\<lambda>g.
            and_then (ffi_input nb) (\<lambda>n. and_then (from_utf8 n) (\<lambda>n. Inr (g, n))))) of
         Inl e \<Rightarrow> (w, Err e)
       | Inr (g, n) \<Rightarrow>
           let (c, r) = select (core h) (save_answer E) g n
           in update_handle i (h\<lparr>core := c\<rparr>, r) w)))"

definition meta_write_packet_v1 :: "thread \<Rightarrow> u64 \<Rightarrow> in_buffer \<Rightarrow> ('r, 'x) world \<Rightarrow> ('r, 'x) world \<times> meta_reply" where
  "meta_write_packet_v1 t i b w =
     plain_reply (boundary t
       (case and_then (ensure (20 \<le> data_length b \<and> data_length b \<le> 65535) ''invalid IP packet length'') (\<lambda>_.
             and_then (ffi_input b) (\<lambda>p.
             and_then (ensure (drop_bit 4 (p ! 0) \<in> {4, 6}) ''invalid IP version'') (\<lambda>_. Inr p))) of
          Inl e \<Rightarrow> (w, Err e)
        | Inr p \<Rightarrow>
            with_handle w i (\<lambda>h.
              if stop (core h) then (w, Err ''core is stopped'')
              else
                (case and_then (check_packet_queue h) (\<lambda>_. ok_or ''TUN is disabled'' (packet_input h)) of
                   Inl e \<Rightarrow> (w, Err e)
                 | Inr q \<Rightarrow>
                     if \<not> channel_open h then (w, Err ''packet channel closed'')
                     else if length q < 256 then (put_handle i (h\<lparr>packet_input := Some (q @ [p])\<rparr>) w, Ok META_OK)
                     else (w, Ok META_WOULD_BLOCK)))))"

text \<open>The queue the host reads: one packet may be pending, the others are in the channel.\<close>

definition read_queue :: "('r, 'x) handle \<Rightarrow> (('r, 'x) handle \<times> bytes) option outcome" where
  "read_queue h =
     (case pending h of
        Some p \<Rightarrow> Ok (Some (h, p))
      | None \<Rightarrow>
          (case receiver h of
             p # ps \<Rightarrow> Ok (Some (h\<lparr>pending := Some p, receiver := ps\<rparr>, p))
           | [] \<Rightarrow> if channel_open h then Ok None else Err ''packet channel closed''))"

definition meta_read_packet_v1 :: "thread \<Rightarrow> u64 \<Rightarrow> out_buffer \<Rightarrow> ('r, 'x) world \<Rightarrow> ('r, 'x) world \<times> meta_reply" where
  "meta_read_packet_v1 t i b w =
     buffer_reply t
       (if out_length b = None then (w, b, Err ''output length is required'')
        else
          let b = b\<lparr>out_length := Some 0\<rparr>
          in case handle_of w i of
               Err e \<Rightarrow> (w, b, Err e)
             | Panic \<Rightarrow> (w, b, Panic)
             | Ok h \<Rightarrow>
                 (case check_packet_queue h of
                    Inl e \<Rightarrow> (w, b, Err e)
                  | Inr _ \<Rightarrow>
                      (case read_queue h of
                         Err e \<Rightarrow> (w, b, Err e)
                       | Panic \<Rightarrow> (w, b, Panic)
                       | Ok None \<Rightarrow> (w, b, Ok META_WOULD_BLOCK)
                       | Ok (Some (h, p)) \<Rightarrow>
                           (case ffi_output p b of
                              (b, Inl e) \<Rightarrow> (put_handle i h w, b, Err e)
                            | (b, Inr s) \<Rightarrow>
                                (put_handle i (if s = META_OK then h\<lparr>pending := None\<rparr> else h) w, b, Ok s)))))"

section \<open>All calls and the worker\<close>

fun ffi_call :: "('r, 'x, 'j) api \<Rightarrow> ('r, 'x) answers \<Rightarrow> thread \<Rightarrow> meta_call \<Rightarrow> ('r, 'x) world \<Rightarrow> ('r, 'x) world \<times> meta_reply" where
  "ffi_call A E t Meta_abi_version_v1 w = (w, \<lparr>status = meta_abi_version_v1, out_handle = None, out = None\<rparr>)"
| "ffi_call A E t (Meta_create_v1 b hk cell) w = meta_create_v1 A E t b hk cell w"
| "ffi_call A E t (Meta_start_v1 i) w = meta_start_v1 A E t i w"
| "ffi_call A E t (Meta_stop_v1 i) w = meta_stop_v1 E t i w"
| "ffi_call A E t (Meta_destroy_v1 i) w = meta_destroy_v1 E t i w"
| "ffi_call A E t (Meta_close_connections_v1 i) w = meta_close_connections_v1 t i w"
| "ffi_call A E t (Meta_network_changed_v1 i) w = meta_network_changed_v1 E t i w"
| "ffi_call A E t (Meta_set_tun_fd_v1 i fd) w = meta_set_tun_fd_v1 E t i fd w"
| "ffi_call A E t (Meta_error_v1 b) w = meta_error_v1 t b w"
| "ffi_call A E t (Meta_snapshot_v1 i b) w = meta_snapshot_v1 A t i b w"
| "ffi_call A E t (Meta_update_v1 i b) w = meta_update_v1 A t i b w"
| "ffi_call A E t (Meta_select_v1 i g n) w = meta_select_v1 E t i g n w"
| "ffi_call A E t (Meta_write_packet_v1 i b) w = meta_write_packet_v1 t i b w"
| "ffi_call A E t (Meta_read_packet_v1 i b) w = meta_read_packet_v1 t i b w"

text \<open>The entry point for a TUN descriptor exists on Android only.\<close>

fun available :: "('r, 'x, 'j) api \<Rightarrow> meta_call \<Rightarrow> bool" where
  "available A (Meta_set_tun_fd_v1 _ _) = android A"
| "available A _ = True"

text \<open>
  What happens between calls: the worker of a handle delivers a packet to the host, takes one from it,
  works on its core, or ends after the core was stopped; a thread enters or leaves a callback.
\<close>

inductive worker_step :: "('r, 'x, 'j) api \<Rightarrow> ('r, 'x) world \<Rightarrow> ('r, 'x) world \<Rightarrow> bool"
  for A :: "('r, 'x, 'j) api" where
  Send:
    "handles w i = Some h \<Longrightarrow> worker h \<Longrightarrow> running h \<Longrightarrow> channel_open h \<Longrightarrow> length (receiver h) < 256 \<Longrightarrow>
     worker_step A w (put_handle i (h\<lparr>receiver := receiver h @ [p]\<rparr>) w)"
| Recv:
    "handles w i = Some h \<Longrightarrow> worker h \<Longrightarrow> running h \<Longrightarrow> channel_open h \<Longrightarrow> packet_input h = Some (p # q) \<Longrightarrow>
     worker_step A w (put_handle i (h\<lparr>packet_input := Some q\<rparr>) w)"
| Work:
    "handles w i = Some h \<Longrightarrow> worker h \<Longrightarrow> running h \<Longrightarrow> core_step (crates_of A) (libs_of A) (core h) c \<Longrightarrow>
     lifecycle c = lifecycle (core h) \<Longrightarrow>
     worker_step A w (put_handle i (h\<lparr>core := c\<rparr>) w)"
| Exit:
    "handles w i = Some h \<Longrightarrow> worker h \<Longrightarrow> stop (core h) \<Longrightarrow>
     worker_step A w (put_handle i (worker_exit h) w)"
| Enter: "worker_step A w (fst (scope_enter t w))"
| Leave: "worker_step A w (scope_drop t previous w)"

inductive ffi_step :: "('r, 'x, 'j) api \<Rightarrow> ('r, 'x) world \<Rightarrow> ('r, 'x) world \<Rightarrow> bool"
  for A :: "('r, 'x, 'j) api" where
  Call: "available A c \<Longrightarrow> ffi_step A w (fst (ffi_call A E t c w))"
| Worker: "worker_step A w w' \<Longrightarrow> ffi_step A w w'"

definition ffi_reachable :: "('r, 'x, 'j) api \<Rightarrow> ('r, 'x) world \<Rightarrow> bool" where
  "ffi_reachable A w \<longleftrightarrow> (ffi_step A)\<^sup>*\<^sup>* initial_world w"

end
