(* ===== verification/FfiProofs.thy ===== *)
theory FfiProofs
  imports Ffi
begin

text \<open>
  What the C interface guarantees: the invariant of its state, the refinement of the host contract,
  and the properties of handles, callbacks, errors and packets that follow.
\<close>

section \<open>The invariant of the interface\<close>

definition handle_ok :: "('r, 'x, 'j) api \<Rightarrow> ('r, 'x) handle \<Rightarrow> bool" where
  "handle_ok A h \<longleftrightarrow>
     core_reachable (crates_of A) (libs_of A) (core h)
     \<and> (\<not> stop (core h) \<longrightarrow> running h = lifecycle (core h))
     \<and> (running h \<longrightarrow> lifecycle (core h) \<or> stop (core h))
     \<and> (\<not> worker h \<longrightarrow> stop (core h) \<and> \<not> running h \<and> \<not> channel_open h)
     \<and> (packet_queue_enabled h \<longrightarrow> tun_enable (tun_opts (config (core h))))
     \<and> length (receiver h) \<le> 256
     \<and> (case packet_input h of None \<Rightarrow> True | Some q \<Rightarrow> length q \<le> 256)"

definition world_ok :: "('r, 'x, 'j) api \<Rightarrow> ('r, 'x) world \<Rightarrow> bool" where
  "world_ok A w \<longleftrightarrow>
     finite (dom (handles w)) \<and> card (dom (handles w)) \<le> 16
     \<and> (\<forall>i h. handles w i = Some h \<longrightarrow> i < next_id w \<and> handle_ok A h)"

lemma start_stop_mono: "stop c \<Longrightarrow> stop (fst (start_with_packets X E p c))"
  by (auto simp: start_with_packets_def)

lemma core_step_stop: "core_step X L c c' \<Longrightarrow> stop c \<Longrightarrow> stop c'"
  by (induction rule: core_step.induct) (simp_all add: flags start_stop_mono running_shutdown_def)

lemma config_kept [simp]:
  "config (fst (select c s g n)) = config c" "config (fst (update_policy X L m rs c)) = config c"
  "config (fst (prepare_resources X ws ld c)) = config c" "config (fst (load_profile pf imp c)) = config c"
proof -
  show "config (fst (update_policy X L m rs c)) = config c" unfolding update_policy_def Let_def by (simp split: sum.splits)
  show "config (fst (load_profile pf imp c)) = config c"
    by (simp add: load_profile_def split: sum.splits profile_file.splits prod.splits)
qed (simp_all add: select_def prepare_resources_def Let_def split: option.splits sum.splits prod.splits)

lemma start_inner_config: "config (fst (start_inner X E c)) = config c"
proof -
  obtain c1 r1 where 1: "prepare_resources X (lookups E) (loaded E) c = (c1, r1)" by fastforce
  obtain c2 r2 where 2: "load_profile (profile_contents E) (parse_name E) c1 = (c2, r2)" by fastforce
  have "config c1 = config c" using config_kept(3) [of X "lookups E" "loaded E" c] 1 by simp
  moreover have "config c2 = config c1" using config_kept(4) [of "profile_contents E" "parse_name E" c1] 2 by simp
  ultimately show ?thesis using 1 2 by (cases r1; cases r2; simp add: start_inner_def)
qed

lemma start_config [simp]: "config (fst (start_with_packets X E p c)) = config c"
proof -
  obtain c1 r1 where 1: "start_inner X E (c\<lparr>lifecycle := True\<rparr>) = (c1, r1)" by fastforce
  then have "config c1 = config c" using start_inner_config [of X E "c\<lparr>lifecycle := True\<rparr>"] by simp
  then show ?thesis using 1 by (cases r1) (simp_all add: start_with_packets_def)
qed

lemma probe_loop_config: "config (snd (probe_loop e best ts c)) = config c"
  by (induction e best ts c rule: probe_loop.induct) simp_all

lemma core_step_config: "core_step X L c c' \<Longrightarrow> config c' = config c"
proof (induction rule: core_step.induct)
  case (UrlTest g c results)
  obtain b c1 where p: "probe_loop results None (g_proxies g) c = (b, c1)" by fastforce
  then have "config c1 = config c" using probe_loop_config [of results None "g_proxies g" c] by simp
  then show ?case using p by (cases b) (auto simp: url_test_def Let_def)
qed (simp_all add: set_mode_def tracker_new_def tracker_record_def tracker_drop_def close_connection_def
    close_connections_def running_shutdown_def network_changed_def answer_query_def cache_responses_def Let_def split_beta
    split: option.splits)

text \<open>A start succeeds on a fresh core only, and leaves it started; a failing one leaves it fresh or stopped.\<close>

lemma start_cases:
  assumes "start_with_packets X E p c = (c', r)"
  shows "(r = Inr () \<and> \<not> lifecycle c \<and> \<not> stop c \<and> lifecycle c' \<and> \<not> stop c')
    \<or> (\<exists>e. r = Inl e \<and> (c' = c \<or> \<not> lifecycle c \<and> \<not> stop c \<and> \<not> lifecycle c' \<and> stop c'))"
proof -
  obtain c1 r1 where 1: "start_inner X E (c\<lparr>lifecycle := True\<rparr>) = (c1, r1)" by fastforce
  have "lifecycle c1" "stop c1 = stop c"
    using start_inner_flags [of X E "c\<lparr>lifecycle := True\<rparr>"] 1 by simp_all
  then show ?thesis using assms 1 by (cases r1) (auto simp: start_with_packets_def split: if_splits)
qed

lemmas core_reachable_step = core_reachable.Step

lemma reachable_select: "core_reachable X L c \<Longrightarrow> core_reachable X L (fst (select c s g n))"
  by (rule core_reachable_step [OF _ core_step.Select])

lemma reachable_update: "core_reachable X L c \<Longrightarrow> core_reachable X L (fst (update_policy X L m rs c))"
  by (rule core_reachable_step [OF _ core_step.UpdatePolicy])

lemma reachable_start: "core_reachable X L c \<Longrightarrow> core_reachable X L (fst (start_with_packets X E p c))"
  by (rule core_reachable_step [OF _ core_step.Start])

lemma reachable_simple:
  "core_reachable X L c \<Longrightarrow> core_reachable X L (c\<lparr>stop := True\<rparr>)"
  "core_reachable X L c \<Longrightarrow> core_reachable X L (running_shutdown c)"
  "core_reachable X L c \<Longrightarrow> core_reachable X L (close_connections c)"
  "core_reachable X L c \<Longrightarrow> core_reachable X L (network_changed c)"
  by (rule core_reachable_step, assumption, rule core_step.intros)+

lemmas handle_simps = handle_ok_def stop_core_def worker_exit_def running_shutdown_def

lemma stop_core_ok: "handle_ok A h \<Longrightarrow> handle_ok A (stop_core h)"
  by (simp add: handle_ok_def stop_core_def reachable_simple)

lemma worker_exit_ok: "handle_ok A h \<Longrightarrow> stop (core h) \<Longrightarrow> handle_ok A (worker_exit h)"
  using reachable_simple(2) [of "crates_of A" "libs_of A" "core h"]
  by (auto simp: handle_ok_def worker_exit_def running_shutdown_def)

lemma shutdown_ok:
  assumes "handle_ok A h"
  shows "handle_ok A (fst (shutdown E w t h))"
proof -
  have s: "handle_ok A (stop_core h)" by (rule stop_core_ok [OF assms])
  moreover have "handle_ok A (worker_exit (stop_core h))"
    using worker_exit_ok [OF s] by (simp add: stop_core_def)
  ultimately show ?thesis
    using assms by (auto simp: shutdown_def Let_def handle_ok_def stop_core_def worker_exit_def running_shutdown_def split: sum.splits)
qed

lemma worker_start_ok:
  assumes "handle_ok A h" and "\<not> stop (core h)"
  shows "handle_ok A (fst (worker_start A E h))"
proof -
  obtain c r where s: "start_with_packets (crates_of A) (start_answers E) (tun_enable (tun_opts (config (core h)))) (core h) = (c, r)"
    by fastforce
  have "core_reachable (crates_of A) (libs_of A) (core h)" using assms(1) by (simp add: handle_ok_def)
  from reachable_start [OF this, of "start_answers E" "tun_enable (tun_opts (config (core h)))"]
  have c: "core_reachable (crates_of A) (libs_of A) c" by (simp add: s)
  have "config c = config (core h)"
    using start_config [of "crates_of A" "start_answers E" "tun_enable (tun_opts (config (core h)))" "core h"] by (simp add: s)
  note c = c this
  show ?thesis
    using start_cases [OF s] s c assms by (cases r) (auto simp: worker_start_def handle_ok_def)
qed

lemma command_ok:
  assumes "handle_ok A h" and "\<not> stop (core h) \<Longrightarrow> handle_ok A (fst (exec h))"
  shows "handle_ok A (fst (command E w t exec h))"
  using assms by (auto simp: command_def intro!: stop_core_ok split: sum.splits simp: and_then_def ensure_def split: if_splits)

lemma handle_new_ok: "handle_new A E cfg hh = Ok h \<Longrightarrow> handle_ok A h"
  by (auto simp: handle_new_def handle_ok_def core_new_def and_then_Inr Let_def
      intro: core_reachable.New split: if_splits sum.splits outcome.splits)

lemma read_queue_cases:
  assumes "read_queue h = Ok (Some (h', p))"
  obtains "pending h = Some p" "h' = h"
  | ps where "pending h = None" "receiver h = p # ps" "h' = h\<lparr>pending := Some p, receiver := ps\<rparr>"
  using assms unfolding read_queue_def
  by (cases "pending h"; cases "receiver h") (simp_all split: if_splits)

lemma read_queue_ok:
  assumes "handle_ok A h" and "read_queue h = Ok (Some (h', p))"
  shows "handle_ok A h'" and "handle_ok A (h'\<lparr>pending := None\<rparr>)"
  using assms(1) by (cases rule: read_queue_cases [OF assms(2)]; simp add: handle_ok_def)+

lemma handle_core_ok:
  assumes "handle_ok A h" and "core_step (crates_of A) (libs_of A) (core h) c" and "lifecycle c = lifecycle (core h)"
  shows "handle_ok A (h\<lparr>core := c\<rparr>)"
  using assms core_step_stop [OF assms(2)] core_step_config [OF assms(2)] core_reachable_step [OF _ assms(2)]
  by (auto simp: handle_ok_def)

lemma set_error_simps [simp]:
  "handles (set_error t e w) = handles w" "next_id (set_error t e w) = next_id w"
  "callback (set_error t e w) = callback w" "poisoned (set_error t e w) = poisoned w"
  "world_ok A (set_error t e w) = world_ok A w"
  by (simp_all add: set_error_def world_ok_def)

lemma put_handle_simps [simp]:
  "handles (put_handle i h w) = (handles w)(i \<mapsto> h)" "next_id (put_handle i h w) = next_id w"
  "callback (put_handle i h w) = callback w" "error_text (put_handle i h w) = error_text w"
  by (simp_all add: put_handle_def)

lemma boundary_world [simp]:
  "handles (fst (boundary t (w, r))) = handles w" "next_id (fst (boundary t (w, r))) = next_id w"
  "callback (fst (boundary t (w, r))) = callback w" "world_ok A (fst (boundary t (w, r))) = world_ok A w"
  by (cases r; simp)+

lemma plain_reply_fst [simp]: "fst (plain_reply r) = fst r"
  by (simp add: plain_reply_def)

lemma buffer_reply_fst [simp]: "fst (buffer_reply t (w, b, r)) = fst (boundary t (w, r))"
  by (simp add: buffer_reply_def split: prod.splits)

lemma world_ok_put:
  assumes "world_ok A w" and "handles w i = Some h0" and "handle_ok A h"
  shows "world_ok A (put_handle i h w)"
proof -
  have "dom (handles (put_handle i h w)) = dom (handles w)" using assms(2) by auto
  then show ?thesis using assms by (auto simp: world_ok_def)
qed

lemma world_ok_handle: "world_ok A w \<Longrightarrow> handles w i = Some h \<Longrightarrow> handle_ok A h"
  by (simp add: world_ok_def)

lemma handle_of_Ok: "handle_of w i = Ok h \<longleftrightarrow> \<not> poisoned w \<and> handles w i = Some h"
  by (simp add: handle_of_def ok_or_def split: option.splits)

lemma world_ok_boundary_with:
  assumes "world_ok A w" and "\<And>h. handles w i = Some h \<Longrightarrow> world_ok A (fst (f h))"
  shows "world_ok A (fst (boundary t (with_handle w i f)))"
proof (cases "handle_of w i")
  case (Ok h)
  then have "world_ok A (fst (f h))" using assms(2) by (simp add: handle_of_Ok)
  then show ?thesis using boundary_world(4) [of A t "fst (f h)" "snd (f h)"] Ok by (simp add: with_handle_def)
qed (use assms(1) in \<open>simp_all add: with_handle_def\<close>)

lemma world_ok_update:
  assumes "world_ok A w" and "\<And>h. handles w i = Some h \<Longrightarrow> handle_ok A (fst (f h))"
  shows "world_ok A (fst (boundary t (with_handle w i (\<lambda>h. update_handle i (f h) w))))"
  using assms by (intro world_ok_boundary_with) (auto simp: update_handle_def intro: world_ok_put)

lemma next_id_less: "(i :: u64) \<noteq> - 1 \<Longrightarrow> j < i + 1 \<longleftrightarrow> j < i \<or> j = i"
proof -
  assume "i \<noteq> - 1"
  then have "1 + i \<noteq> 0" by (metis add_eq_0_iff add.commute)
  from unatSuc [OF this] have "unat (i + 1) = unat i + 1" by (simp add: add.commute)
  then show ?thesis by (auto simp: word_less_nat_alt word_eq_unat)
qed

text \<open>
  The outcomes of a creation: refused before an identifier is drawn, refused or panicked after that,
  or a new handle under the next identifier.
\<close>

lemma create_body_cases:
  obtains (Refused) r where "create_body A E t b hk w = (w, r)" "\<forall>i. r \<noteq> Ok i"
  | (Failed) r v where "create_body A E t b hk w = (v, r)" "\<forall>i. r \<noteq> Ok i" "next_id w \<noteq> - 1" "\<not> callback w t"
      "handles v = handles w" "next_id v = next_id w + 1" "callback v = callback w" "error_text v = error_text w"
  | (Created) cfg hh h where "create_body A E t b hk w = (put_handle (next_id w) h (w\<lparr>next_id := next_id w + 1\<rparr>), Ok (next_id w))"
      "next_id w \<noteq> - 1" "card (dom (handles w)) < 16" "\<not> callback w t" "\<not> poisoned w" "read_hooks A hk = Inr hh"
      "handle_new A E cfg hh = Ok h"
proof -
  let ?p = "and_then (check_lifecycle w t) (\<lambda>_. and_then (ffi_input b) (\<lambda>bs.
      and_then (config_parse (crates_of A) (libs_of A) bs) (\<lambda>cfg. and_then (read_hooks A hk) (\<lambda>hh. Inr (cfg, hh)))))"
  show ?thesis
  proof (cases ?p)
    case (Inl e)
    then show ?thesis using Refused by (simp add: create_body_def)
  next
    case (Inr x)
    obtain cfg hh where x: "x = (cfg, hh)" by (cases x)
    have cb: "\<not> callback w t" and hk: "read_hooks A hk = Inr hh"
      using Inr x by (auto simp: and_then_Inr check_lifecycle_def)
    show ?thesis
    proof (cases "poisoned w \<or> \<not> card (dom (handles w)) < 16 \<or> next_id w = - 1")
      case True
      then have "\<exists>r. create_body A E t b hk w = (w, r) \<and> (\<forall>i. r \<noteq> Ok i)"
        unfolding create_body_def Inr x by auto
      then show ?thesis using Refused by blast
    next
      case False
      show ?thesis
      proof (cases "handle_new A E cfg hh")
        case (Ok h)
        then show ?thesis using Created [of h hh cfg] False Inr x cb hk by (simp add: create_body_def Let_def)
      next
        case (Err e)
        then show ?thesis using Failed [of _ "Err e"] False Inr x cb by (simp add: create_body_def Let_def)
      next
        case Panic
        then show ?thesis using Failed [of _ Panic] False Inr x cb by (simp add: create_body_def Let_def)
      qed
    qed
  qed
qed

lemma create_body_ok:
  assumes "world_ok A w"
  shows "world_ok A (fst (create_body A E t b hk w))"
proof (cases rule: create_body_cases [of A E t b hk w])
  case (Refused r)
  then show ?thesis using assms by simp
next
  case (Failed r v)
  then show ?thesis using assms by (auto simp: world_ok_def next_id_less)
next
  case (Created cfg hh h)
  then show ?thesis using assms handle_new_ok by (auto simp: world_ok_def next_id_less card_insert_if)
qed

lemma meta_create_ok: "world_ok A w \<Longrightarrow> world_ok A (fst (meta_create_v1 A E t b hk cell w))"
  using create_body_ok [of A w E t b hk] by (simp add: meta_create_v1_def split: prod.splits) (metis boundary_world(4) fst_conv)

lemma meta_destroy_ok:
  assumes "world_ok A w"
  shows "world_ok A (fst (meta_destroy_v1 E t i w))"
  unfolding meta_destroy_v1_def plain_reply_fst
proof (rule world_ok_boundary_with [OF assms])
  fix h assume h: "handles w i = Some h"
  obtain h' r where s: "shutdown E w t h = (h', r)" by fastforce
  have "handle_ok A h'" using shutdown_ok [OF world_ok_handle [OF assms h], of E w t] by (simp add: s)
  moreover have "world_ok A (w\<lparr>handles := (handles w)(i := None)\<rparr>)"
    using assms by (auto simp: world_ok_def card_Diff_singleton_if)
  ultimately show "world_ok A (fst (case shutdown E w t h of
         (h, Inl e) \<Rightarrow> (put_handle i h w, Err e)
       | (h, Inr _) \<Rightarrow> (w\<lparr>handles := (handles w)(i := None)\<rparr>, Ok META_OK)))"
    using world_ok_put [OF assms h] s by (cases r) simp_all
qed

lemma world_ok_boundary: "world_ok A w \<Longrightarrow> world_ok A (fst (boundary t (w, r)))"
  by simp

lemma meta_write_ok:
  assumes "world_ok A w"
  shows "world_ok A (fst (meta_write_packet_v1 t i b w))"
proof -
  have "world_ok A (fst (boundary t (with_handle w i (\<lambda>h.
      if stop (core h) then (w, Err ''core is stopped'')
      else (case and_then (check_packet_queue h) (\<lambda>_. ok_or ''TUN is disabled'' (packet_input h)) of
              Inl e \<Rightarrow> (w, Err e)
            | Inr q \<Rightarrow>
                if \<not> channel_open h then (w, Err ''packet channel closed'')
                else if length q < 256 then (put_handle i (h\<lparr>packet_input := Some (q @ [p])\<rparr>) w, Ok META_OK)
                else (w, Ok META_WOULD_BLOCK))))))" for p
  proof (rule world_ok_boundary_with [OF assms])
    fix h assume h: "handles w i = Some h"
    have "handle_ok A (h\<lparr>packet_input := Some (q @ [p])\<rparr>)" if "length q < 256" for q
      using world_ok_handle [OF assms h] that by (simp add: handle_ok_def)
    then show "world_ok A (fst (if stop (core h) then (w, Err ''core is stopped'')
      else (case and_then (check_packet_queue h) (\<lambda>_. ok_or ''TUN is disabled'' (packet_input h)) of
              Inl e \<Rightarrow> (w, Err e)
            | Inr q \<Rightarrow>
                if \<not> channel_open h then (w, Err ''packet channel closed'')
                else if length q < 256 then (put_handle i (h\<lparr>packet_input := Some (q @ [p])\<rparr>) w, Ok META_OK)
                else (w, Ok META_WOULD_BLOCK))))"
      using assms world_ok_put [OF assms h] by (simp split: sum.splits)
  qed
  then show ?thesis
    unfolding meta_write_packet_v1_def plain_reply_fst using assms by (simp split: sum.splits)
qed

lemma meta_read_ok:
  assumes "world_ok A w"
  shows "world_ok A (fst (meta_read_packet_v1 t i b w))"
proof (cases "out_length b = None \<or> (\<forall>h. handle_of w i \<noteq> Ok h)")
  case True
  then show ?thesis using assms
    by (auto simp: meta_read_packet_v1_def Let_def split: outcome.splits)
next
  case False
  then obtain h n where h: "handle_of w i = Ok h" "handles w i = Some h" and l: "out_length b = Some n"
    by (auto simp: handle_of_Ok)
  show ?thesis
  proof (cases "\<exists>h' p. check_packet_queue h = Inr () \<and> read_queue h = Ok (Some (h', p))")
    case True
    then obtain h' p where q: "check_packet_queue h = Inr ()" "read_queue h = Ok (Some (h', p))" by blast
    obtain b' r where o: "ffi_output p (b\<lparr>out_length := Some 0\<rparr>) = (b', r)" by fastforce
    note ok = read_queue_ok [OF world_ok_handle [OF assms h(2)] q(2)]
    show ?thesis
      using l h q o world_ok_put [OF assms h(2) ok(1)] world_ok_put [OF assms h(2) ok(2)]
      by (cases r) (simp_all add: meta_read_packet_v1_def Let_def)
  next
    case F: False
    show ?thesis
    proof (cases "check_packet_queue h")
      case (Inr u)
      then show ?thesis using F l h assms
        by (cases "read_queue h") (auto simp: meta_read_packet_v1_def Let_def split: option.splits)
    qed (use l h assms in \<open>simp add: meta_read_packet_v1_def Let_def\<close>)
  qed
qed

lemma ffi_call_ok:
  assumes "world_ok A w"
  shows "world_ok A (fst (ffi_call A E t c w))"
proof (cases c)
  case (Meta_create_v1 b hk cell)
  then show ?thesis using meta_create_ok [OF assms] by simp
next
  case (Meta_start_v1 i)
  have "handle_ok A (fst (command E w t (worker_start A E) h))" if "handles w i = Some h" for h
    using command_ok worker_start_ok world_ok_handle [OF assms that] by blast
  then show ?thesis using world_ok_update [OF assms] Meta_start_v1 by (simp add: meta_start_v1_def)
next
  case (Meta_stop_v1 i)
  have "handle_ok A (fst (shutdown E w t h))" if "handles w i = Some h" for h
    using shutdown_ok world_ok_handle [OF assms that] by blast
  then show ?thesis using world_ok_update [OF assms] Meta_stop_v1 by (simp add: meta_stop_v1_def)
next
  case (Meta_destroy_v1 i)
  then show ?thesis using meta_destroy_ok [OF assms] by simp
next
  case (Meta_close_connections_v1 i)
  have "handle_ok A (h\<lparr>core := close_connections (core h)\<rparr>)" if "handles w i = Some h" for h
    using handle_core_ok [OF world_ok_handle [OF assms that] core_step.CloseConnections] by (simp add: flags)
  then have "world_ok A (fst (boundary t (with_handle w i (\<lambda>h.
       (put_handle i (h\<lparr>core := close_connections (core h)\<rparr>) w, Ok META_OK)))))"
    using world_ok_put [OF assms] by (intro world_ok_boundary_with [OF assms]) simp
  then show ?thesis using Meta_close_connections_v1 by (simp add: meta_close_connections_v1_def)
next
  case (Meta_network_changed_v1 i)
  have "handle_ok A (fst (command E w t worker_network_changed h))" if "handles w i = Some h" for h
    using command_ok [OF world_ok_handle [OF assms that]] handle_core_ok [OF world_ok_handle [OF assms that] core_step.NetworkChanged]
    by (simp add: worker_network_changed_def flags)
  then show ?thesis using world_ok_update [OF assms] Meta_network_changed_v1 by (simp add: meta_network_changed_v1_def)
next
  case (Meta_set_tun_fd_v1 i fd)
  have "handle_ok A (fst (worker_set_fd E h))" if "handle_ok A h" "\<not> stop (core h)" for h
    using that by (auto simp: worker_set_fd_def handle_ok_def split: sum.splits)
  then have "handle_ok A (fst (command E w t (worker_set_fd E) h))" if "handles w i = Some h" for h
    using command_ok world_ok_handle [OF assms that] by blast
  then have "world_ok A (fst (boundary t (with_handle w i (\<lambda>h. update_handle i (command E w t (worker_set_fd E) h) w))))"
    by (rule world_ok_update [OF assms])
  then show ?thesis using Meta_set_tun_fd_v1 assms by (simp add: meta_set_tun_fd_v1_def split: sum.splits)
next
  case (Meta_error_v1 b)
  then show ?thesis using assms by (simp add: meta_error_v1_def split: prod.splits)
next
  case (Meta_snapshot_v1 i b)
  then show ?thesis using assms by (simp add: meta_snapshot_v1_def split: prod.splits outcome.splits sum.splits)
next
  case (Meta_update_v1 i b)
  have "handle_ok A (h\<lparr>core := fst (update_policy (crates_of A) (libs_of A) m rs (core h))\<rparr>)" if "handles w i = Some h" for h m rs
    using handle_core_ok [OF world_ok_handle [OF assms that] core_step.UpdatePolicy] by (simp add: flags)
  then have "world_ok A (fst (boundary t (with_handle w i (\<lambda>h.
      update_handle i (h\<lparr>core := fst (update_policy (crates_of A) (libs_of A) m rs (core h))\<rparr>, snd (update_policy (crates_of A) (libs_of A) m rs (core h))) w))))" for m rs
    by (intro world_ok_update [OF assms]) simp
  then show ?thesis
    using Meta_update_v1 assms by (simp add: meta_update_v1_def case_prod_beta Let_def split: sum.splits)
next
  case (Meta_select_v1 i g n)
  have "handle_ok A (h\<lparr>core := fst (select (core h) s a b)\<rparr>)" if "handles w i = Some h" for h s a b
    using handle_core_ok [OF world_ok_handle [OF assms that] core_step.Select] by (simp add: flags)
  then show ?thesis
    using Meta_select_v1 assms
    by (auto simp: meta_select_v1_def case_prod_beta Let_def update_handle_def split: sum.splits intro!: world_ok_boundary_with world_ok_put)
next
  case (Meta_write_packet_v1 i b)
  then show ?thesis using meta_write_ok [OF assms] by simp
next
  case (Meta_read_packet_v1 i b)
  then show ?thesis using meta_read_ok [OF assms] by simp
qed (use assms in simp)

lemma worker_step_ok:
  assumes "worker_step A w w'" and "world_ok A w"
  shows "world_ok A w'"
  using assms
proof (induction rule: worker_step.induct)
  case (Send w i h p)
  then have "handle_ok A (h\<lparr>receiver := receiver h @ [p]\<rparr>)" using world_ok_handle by (fastforce simp: handle_ok_def)
  then show ?case using Send world_ok_put by blast
next
  case (Recv w i h p q)
  then have "handle_ok A (h\<lparr>packet_input := Some q\<rparr>)" using world_ok_handle [of A w i h] by (simp add: handle_ok_def)
  then show ?case using Recv world_ok_put by blast
next
  case (Work w i h c)
  then show ?case using world_ok_put handle_core_ok world_ok_handle by blast
next
  case (Exit w i h)
  then show ?case using world_ok_put worker_exit_ok world_ok_handle by blast
qed (simp_all add: world_ok_def scope_enter_def scope_drop_def)

lemma initial_world_ok: "world_ok A initial_world"
  by (simp add: world_ok_def initial_world_def)

lemma ffi_step_ok: "ffi_step A w w' \<Longrightarrow> world_ok A w \<Longrightarrow> world_ok A w'"
  by (induction rule: ffi_step.induct) (auto intro: ffi_call_ok worker_step_ok)

lemma ffi_steps_ok: "(ffi_step A)\<^sup>*\<^sup>* w w' \<Longrightarrow> world_ok A w \<Longrightarrow> world_ok A w'"
  by (induction rule: rtranclp_induct) (auto intro: ffi_step_ok)

lemma ffi_reachable_ok: "ffi_reachable A w \<Longrightarrow> world_ok A w"
  using ffi_steps_ok initial_world_ok by (auto simp: ffi_reachable_def)

section \<open>Refinement of the contract\<close>

definition abs_phase :: "('r, 'x) core \<Rightarrow> phase" where
  "abs_phase c = (if stop c then Stopped else if lifecycle c then Started else Fresh)"

definition abs_queue :: "('r, 'x) handle \<Rightarrow> bytes list" where
  "abs_queue h = (case pending h of Some p \<Rightarrow> [p] | None \<Rightarrow> []) @ receiver h"

definition abs_handle :: "('r, 'x) handle \<Rightarrow> contract_handle" where
  "abs_handle h = \<lparr>phase = abs_phase (core h), quiet = (\<not> worker h), packet_calls = packet_queue_enabled h, packets = abs_queue h\<rparr>"

definition abs_world :: "('r, 'x) world \<Rightarrow> contract" where
  "abs_world w =
     \<lparr>live = \<lambda>i. map_option abs_handle (handles w i), issued = {i. i < next_id w},
      errors = \<lambda>t. str_bytes (error_text w t), in_callback = callback w\<rparr>"

lemma abs_world_simps [simp]:
  "live (abs_world w) i = map_option abs_handle (handles w i)" "issued (abs_world w) = {i. i < next_id w}"
  "errors (abs_world w) = (\<lambda>t. str_bytes (error_text w t))" "in_callback (abs_world w) = callback w"
  by (simp_all add: abs_world_def)

lemma abs_put: "abs_world (put_handle i h w) = (abs_world w)\<lparr>live := (live (abs_world w))(i \<mapsto> abs_handle h)\<rparr>"
  by (auto simp: abs_world_def put_handle_def)

lemma abs_error: "abs_world (set_error t e w) = (abs_world w)\<lparr>errors := (errors (abs_world w))(t := str_bytes e)\<rparr>"
  by (auto simp: abs_world_def set_error_def)

lemma abs_put_same: "handles w i = Some h0 \<Longrightarrow> abs_handle h = abs_handle h0 \<Longrightarrow> abs_world (put_handle i h w) = abs_world w"
  by (auto simp: abs_world_def put_handle_def)

lemma degrades_refl [simp]: "degrades a a"
  by (simp add: degrades_def)

lemma live_degrades_refl [simp]: "live_degrades c l l"
  by (auto simp: live_degrades_def)

lemma live_degrades_put:
  assumes "handles w i = Some h" and "call_handle c = Some i" and "degrades (abs_handle h) (abs_handle h')"
  shows "live_degrades c (live (abs_world w)) (live (abs_world (put_handle i h' w)))"
  using assms by (auto simp: live_degrades_def abs_put)

text \<open>A call that fails leaves a state \<open>v\<close> that may have lost something, and records its error.\<close>

lemma contract_error:
  assumes "c \<noteq> Meta_abi_version_v1" and "status r = META_ERROR"
    and "live_degrades c (live (abs_world w)) (live (abs_world v))" and "next_id w \<le> next_id v"
    and "callback v = callback w" and "error_text v = error_text w"
    and "lifecycle_call c \<and> callback w t \<longrightarrow> handles v = handles w \<and> next_id v = next_id w"
    and "case (call_buffer c, out r) of (Some b, Some b') \<Rightarrow> buffer b' = buffer b | (None, _) \<Rightarrow> True | _ \<Rightarrow> False"
  shows "contract_step a s t c (abs_world w) r (abs_world (set_error t e v))"
proof -
  have "abs_world (set_error t e v) = (abs_world w)\<lparr>live := live (abs_world v), issued := issued (abs_world v),
      errors := (errors (abs_world w))(t := str_bytes e)\<rparr>"
    using assms(5,6) by (simp add: abs_world_def set_error_def fun_eq_iff)
  moreover have "contract_step a s t c (abs_world w) r ((abs_world w)\<lparr>live := live (abs_world v), issued := issued (abs_world v),
      errors := (errors (abs_world w))(t := str_bytes e)\<rparr>)"
    using assms by (intro contract_step.Error) (auto simp: abs_world_def)
  ultimately show ?thesis by simp
qed

lemma contract_refused:
  assumes "c \<noteq> Meta_abi_version_v1" and "status r = META_ERROR"
    and "case (call_buffer c, out r) of (Some b, Some b') \<Rightarrow> buffer b' = buffer b | (None, _) \<Rightarrow> True | _ \<Rightarrow> False"
  shows "contract_step a s t c (abs_world w) r (abs_world (set_error t e w))"
  using assms by (intro contract_error) simp_all

text \<open>The same for the calls that go through \<^verbatim>\<open>handle(id)?\<close> and answer with a status only.\<close>

lemma contract_plain:
  assumes c: "c \<noteq> Meta_abi_version_v1" "call_buffer c = None"
    and f: "\<And>h v res. \<not> poisoned w \<Longrightarrow> handles w i = Some h \<Longrightarrow> f h = (v, res) \<Longrightarrow>
      (case res of Ok s \<Rightarrow> contract_step a z t c (abs_world w) \<lparr>status = s, out_handle = None, out = None\<rparr> (abs_world v)
       | _ \<Rightarrow> live_degrades c (live (abs_world w)) (live (abs_world v)) \<and> next_id v = next_id w
          \<and> callback v = callback w \<and> error_text v = error_text w
          \<and> (lifecycle_call c \<and> callback w t \<longrightarrow> handles v = handles w))"
    and r: "plain_reply (boundary t (with_handle w i f)) = (w', r)"
  shows "contract_step a z t c (abs_world w) r (abs_world w')"
proof (cases "handle_of w i")
  case (Ok h)
  obtain v res where v: "f h = (v, res)" by fastforce
  have h: "\<not> poisoned w" "handles w i = Some h" using Ok by (simp_all add: handle_of_Ok)
  show ?thesis
    using f [OF h v] r Ok v c by (cases res) (auto simp: with_handle_def plain_reply_def intro!: contract_error)
qed (use r c in \<open>auto simp: with_handle_def plain_reply_def intro!: contract_refused\<close>)

lemma contract_update:
  assumes c: "c \<noteq> Meta_abi_version_v1" "call_buffer c = None" "call_handle c = Some i"
    and ok: "\<And>h h'. handles w i = Some h \<Longrightarrow> f h = (h', Inr ()) \<Longrightarrow>
      contract_step a z t c (abs_world w) \<lparr>status = META_OK, out_handle = None, out = None\<rparr> (abs_world (put_handle i h' w))"
    and err: "\<And>h h' e. handles w i = Some h \<Longrightarrow> f h = (h', Inl e) \<Longrightarrow>
      degrades (abs_handle h) (abs_handle h') \<and> (lifecycle_call c \<and> callback w t \<longrightarrow> h' = h)"
    and r: "plain_reply (boundary t (with_handle w i (\<lambda>h. update_handle i (f h) w))) = (w', r)"
  shows "contract_step a z t c (abs_world w) r (abs_world w')"
proof (rule contract_plain [OF c(1,2) _ r])
  fix h v res assume h: "handles w i = Some h" and v: "update_handle i (f h) w = (v, res)"
  obtain h' x where x: "f h = (h', x)" by fastforce
  have v': "v = put_handle i h' w" and res: "res = of_result (and_then x (\<lambda>_. Inr META_OK))" using v x by (simp_all add: update_handle_def)
  show "case res of Ok s \<Rightarrow> contract_step a z t c (abs_world w) \<lparr>status = s, out_handle = None, out = None\<rparr> (abs_world v)
       | _ \<Rightarrow> live_degrades c (live (abs_world w)) (live (abs_world v)) \<and> next_id v = next_id w
          \<and> callback v = callback w \<and> error_text v = error_text w
          \<and> (lifecycle_call c \<and> callback w t \<longrightarrow> handles v = handles w)"
  proof (cases x)
    case (Inl e)
    then show ?thesis
      using err [OF h] x live_degrades_put [OF h c(3)] h by (auto simp: res v' put_handle_def)
  next
    case (Inr u)
    then show ?thesis using ok [OF h] x by (simp add: res v')
  qed
qed

lemma abs_phase_simps [simp]:
  "abs_phase (c\<lparr>stop := True\<rparr>) = Stopped" "abs_phase (running_shutdown c) = Stopped"
  "abs_phase (close_connections c) = abs_phase c" "abs_phase (network_changed c) = abs_phase c"
  by (simp_all add: abs_phase_def running_shutdown_def flags)

lemma abs_queue_simps [simp]:
  "abs_queue (h\<lparr>core := c\<rparr>) = abs_queue h" "abs_queue (h\<lparr>running := b\<rparr>) = abs_queue h"
  "abs_queue (h\<lparr>worker := b\<rparr>) = abs_queue h" "abs_queue (h\<lparr>channel_open := b\<rparr>) = abs_queue h"
  "abs_queue (h\<lparr>packet_input := q\<rparr>) = abs_queue h" "abs_queue (h\<lparr>packet_queue_enabled := b\<rparr>) = abs_queue h"
  "abs_queue (stop_core h) = abs_queue h" "abs_queue (worker_exit h) = abs_queue h"
  by (simp_all add: abs_queue_def stop_core_def worker_exit_def)

lemma abs_stop_core [simp]: "abs_handle (stop_core h) = (abs_handle h)\<lparr>phase := Stopped\<rparr>"
  by (simp add: abs_handle_def stop_core_def abs_queue_def)

lemma degrades_stop: "abs_queue h' = abs_queue h \<Longrightarrow> (packet_queue_enabled h' \<longrightarrow> packet_queue_enabled h) \<Longrightarrow>
    (worker h' \<longrightarrow> worker h) \<Longrightarrow> degrades (abs_handle h) ((abs_handle h')\<lparr>phase := Stopped\<rparr>)"
  by (auto simp: degrades_def abs_handle_def)

lemma command_cases:
  assumes "command E w t exec h = (h', r)"
  obtains (Rejected) e where "h' = h" "r = Inl e"
  | (Executed) "\<not> callback w t" "\<not> stop (core h)" "exec h = (h', r)"
  | (NoReply) e g where "\<not> callback w t" "h' = stop_core g" "g = h \<or> g = fst (exec h)" "r = Inl e"
  using assms unfolding command_def check_lifecycle_def
  by (cases "callback w t"; cases "stop (core h)"; cases "queue_full E"; cases "replied E") auto

lemma worker_start_shape:
  assumes "worker_start A E h = (h', r)"
  shows "abs_queue h' = abs_queue h" "packet_queue_enabled h' = packet_queue_enabled h" "worker h' = worker h"
    "\<exists>u. r = Inr u \<Longrightarrow> abs_phase (core h) = Fresh \<and> abs_phase (core h') = Started"
    "\<exists>e. r = Inl e \<Longrightarrow> abs_phase (core h') = abs_phase (core h) \<or> abs_phase (core h') = Stopped"
proof -
  obtain c x where s: "start_with_packets (crates_of A) (start_answers E) (tun_enable (tun_opts (config (core h)))) (core h) = (c, x)"
    by fastforce
  show "abs_queue h' = abs_queue h" "packet_queue_enabled h' = packet_queue_enabled h" "worker h' = worker h"
    "\<exists>u. r = Inr u \<Longrightarrow> abs_phase (core h) = Fresh \<and> abs_phase (core h') = Started"
    "\<exists>e. r = Inl e \<Longrightarrow> abs_phase (core h') = abs_phase (core h) \<or> abs_phase (core h') = Stopped"
    using assms start_cases [OF s] by (cases x; auto simp: worker_start_def s abs_phase_def abs_queue_def)+
qed

lemma sim_start:
  assumes "meta_start_v1 A E t i w = (w', r)"
  shows "contract_step a z t (Meta_start_v1 i) (abs_world w) r (abs_world w')"
proof (rule contract_update [OF _ _ _ _ _ assms [unfolded meta_start_v1_def]])
  fix h h' assume h: "handles w i = Some h" and c: "command E w t (worker_start A E) h = (h', Inr ())"
  then have cb: "\<not> callback w t" and s: "worker_start A E h = (h', Inr ())" by (auto elim: command_cases)
  note sh = worker_start_shape [OF s]
  have "abs_handle h' = (abs_handle h)\<lparr>phase := Started\<rparr>" using sh by (simp add: abs_handle_def)
  moreover have "phase (abs_handle h) = Fresh" using sh by (simp add: abs_handle_def)
  ultimately show "contract_step a z t (Meta_start_v1 i) (abs_world w) \<lparr>status = META_OK, out_handle = None, out = None\<rparr> (abs_world (put_handle i h' w))"
    unfolding abs_put using h cb by (auto intro!: contract_step.Start)
next
  fix h h' e assume "command E w t (worker_start A E) h = (h', Inl e)"
  then show "degrades (abs_handle h) (abs_handle h') \<and> (lifecycle_call (Meta_start_v1 i) \<and> callback w t \<longrightarrow> h' = h)"
  proof (cases rule: command_cases)
    case Executed
    then show ?thesis using worker_start_shape [OF Executed(3)] by (auto simp: degrades_def abs_handle_def)
  next
    case (NoReply e' g)
    have "worker_start A E h = (fst (worker_start A E h), snd (worker_start A E h))" by simp
    from worker_start_shape(1-3) [OF this] NoReply show ?thesis by (auto intro!: degrades_stop)
  qed simp
qed simp_all

lemma shutdown_shape:
  assumes "shutdown E w t h = (h', r)"
  shows "(callback w t \<and> h' = h \<and> (\<exists>e. r = Inl e)) \<or> (\<not> callback w t \<and> abs_handle h' = (abs_handle h)\<lparr>phase := Stopped, quiet := True\<rparr>)"
proof (cases "callback w t")
  case False
  then have "abs_queue h' = abs_queue h" "packet_queue_enabled h' = packet_queue_enabled h" "stop (core h')" "\<not> worker h'"
    using assms by (auto simp: shutdown_def check_lifecycle_def Let_def stop_core_def worker_exit_def running_shutdown_def abs_queue_def split: if_splits)
  then show ?thesis using False by (simp add: abs_handle_def abs_phase_def)
qed (use assms in \<open>auto simp: shutdown_def check_lifecycle_def\<close>)

lemma sim_stop:
  assumes "meta_stop_v1 E t i w = (w', r)"
  shows "contract_step a z t (Meta_stop_v1 i) (abs_world w) r (abs_world w')"
proof (rule contract_update [OF _ _ _ _ _ assms [unfolded meta_stop_v1_def]])
  fix h h' assume h: "handles w i = Some h" and c: "shutdown E w t h = (h', Inr ())"
  then have "\<not> callback w t" "abs_handle h' = (abs_handle h)\<lparr>phase := Stopped, quiet := True\<rparr>" using shutdown_shape [OF c] by auto
  then show "contract_step a z t (Meta_stop_v1 i) (abs_world w) \<lparr>status = META_OK, out_handle = None, out = None\<rparr> (abs_world (put_handle i h' w))"
    unfolding abs_put using h by (auto intro!: contract_step.Stop)
next
  fix h h' e assume c: "shutdown E w t h = (h', Inl e)"
  from shutdown_shape [OF c] show "degrades (abs_handle h) (abs_handle h') \<and> (lifecycle_call (Meta_stop_v1 i) \<and> callback w t \<longrightarrow> h' = h)"
    by (auto simp: degrades_def)
qed simp_all

lemma abs_remove: "abs_world (w\<lparr>handles := (handles w)(i := None)\<rparr>) = (abs_world w)\<lparr>live := (live (abs_world w))(i := None)\<rparr>"
  by (auto simp: abs_world_def)

lemma sim_destroy:
  assumes "meta_destroy_v1 E t i w = (w', r)"
  shows "contract_step a z t (Meta_destroy_v1 i) (abs_world w) r (abs_world w')"
proof (rule contract_plain [OF _ _ _ assms [unfolded meta_destroy_v1_def]])
  fix h v res assume h: "handles w i = Some h"
    and v: "(case shutdown E w t h of (h, Inl e) \<Rightarrow> (put_handle i h w, Err e)
      | (h, Inr _) \<Rightarrow> (w\<lparr>handles := (handles w)(i := None)\<rparr>, Ok META_OK)) = (v, res)"
  obtain h' x where x: "shutdown E w t h = (h', x)" by fastforce
  note sh = shutdown_shape [OF x]
  show "case res of Ok s \<Rightarrow> contract_step a z t (Meta_destroy_v1 i) (abs_world w) \<lparr>status = s, out_handle = None, out = None\<rparr> (abs_world v)
       | _ \<Rightarrow> live_degrades (Meta_destroy_v1 i) (live (abs_world w)) (live (abs_world v)) \<and> next_id v = next_id w
          \<and> callback v = callback w \<and> error_text v = error_text w
          \<and> (lifecycle_call (Meta_destroy_v1 i) \<and> callback w t \<longrightarrow> handles v = handles w)"
  proof (cases x)
    case (Inl e)
    then have r: "v = put_handle i h' w" "res = Err e" using v x by simp_all
    have "degrades (abs_handle h) (abs_handle h')" using sh by (auto simp: degrades_def)
    then show ?thesis using live_degrades_put [OF h, of "Meta_destroy_v1 i"] sh h r by auto
  next
    case (Inr u)
    then have "v = w\<lparr>handles := (handles w)(i := None)\<rparr>" "res = Ok META_OK" "\<not> callback w t" using v x sh by auto
    then show ?thesis using h by (auto simp: abs_remove intro!: contract_step.Destroy)
  qed
qed simp_all

lemma abs_handle_core: "abs_phase c = abs_phase (core h) \<Longrightarrow> abs_handle (h\<lparr>core := c\<rparr>) = abs_handle h"
  by (simp add: abs_handle_def)

lemma sim_close:
  assumes "meta_close_connections_v1 t i w = (w', r)"
  shows "contract_step a z t (Meta_close_connections_v1 i) (abs_world w) r (abs_world w')"
proof (rule contract_plain [OF _ _ _ assms [unfolded meta_close_connections_v1_def]])
  fix h v res assume h: "handles w i = Some h"
    and v: "(put_handle i (h\<lparr>core := close_connections (core h)\<rparr>) w, Ok META_OK) = (v, res)"
  have "abs_world v = abs_world w" using v abs_put_same [OF h abs_handle_core] by auto
  then show "case res of Ok s \<Rightarrow> contract_step a z t (Meta_close_connections_v1 i) (abs_world w) \<lparr>status = s, out_handle = None, out = None\<rparr> (abs_world v)
       | _ \<Rightarrow> live_degrades (Meta_close_connections_v1 i) (live (abs_world w)) (live (abs_world v)) \<and> next_id v = next_id w
          \<and> callback v = callback w \<and> error_text v = error_text w
          \<and> (lifecycle_call (Meta_close_connections_v1 i) \<and> callback w t \<longrightarrow> handles v = handles w)"
    using v h by (auto intro!: contract_step.CloseConnections)
qed simp_all

lemma sim_network:
  assumes "meta_network_changed_v1 E t i w = (w', r)"
  shows "contract_step a z t (Meta_network_changed_v1 i) (abs_world w) r (abs_world w')"
proof (rule contract_update [OF _ _ _ _ _ assms [unfolded meta_network_changed_v1_def]])
  fix h h' assume h: "handles w i = Some h" and c: "command E w t worker_network_changed h = (h', Inr ())"
  then have cb: "\<not> callback w t" and s: "\<not> stop (core h)" "h' = h\<lparr>core := network_changed (core h)\<rparr>"
    by (auto simp: worker_network_changed_def elim: command_cases)
  then have "abs_world (put_handle i h' w) = abs_world w" using abs_put_same [OF h abs_handle_core] by auto
  then show "contract_step a z t (Meta_network_changed_v1 i) (abs_world w) \<lparr>status = META_OK, out_handle = None, out = None\<rparr> (abs_world (put_handle i h' w))"
    using h cb s by (auto simp: abs_handle_def abs_phase_def intro!: contract_step.NetworkChanged split: if_splits)
next
  fix h h' e assume "command E w t worker_network_changed h = (h', Inl e)"
  then show "degrades (abs_handle h) (abs_handle h') \<and> (lifecycle_call (Meta_network_changed_v1 i) \<and> callback w t \<longrightarrow> h' = h)"
    by (cases rule: command_cases) (auto simp: worker_network_changed_def intro!: degrades_stop)
qed simp_all


lemma sim_set_fd:
  assumes "meta_set_tun_fd_v1 E t i fd w = (w', r)" and "world_ok A w" and "a"
  shows "contract_step a z t (Meta_set_tun_fd_v1 i fd) (abs_world w) r (abs_world w')"
proof (cases "and_then (ensure (fd \<ge> 0) ''invalid TUN descriptor'') (\<lambda>_. dup_fd E)")
  case (Inl e)
  then have "w' = set_error t e w" "r = \<lparr>status = META_ERROR, out_handle = None, out = None\<rparr>"
    using assms(1) by (auto simp: meta_set_tun_fd_v1_def plain_reply_def)
  then show ?thesis by (auto intro!: contract_refused)
next
  case (Inr u)
  then have r: "plain_reply (boundary t (with_handle w i (\<lambda>h. update_handle i (command E w t (worker_set_fd E) h) w))) = (w', r)"
    using assms(1) by (simp add: meta_set_tun_fd_v1_def)
  show ?thesis
  proof (rule contract_update [OF _ _ _ _ _ r])
    fix h h' assume h: "handles w i = Some h" and c: "command E w t (worker_set_fd E) h = (h', Inr ())"
    then have cb: "\<not> callback w t" and s: "\<not> stop (core h)" "worker_set_fd E h = (h', Inr ())" by (auto elim: command_cases)
    then have "\<not> running h" and h': "h' = h\<lparr>packet_queue_enabled := False, channel_open := False\<rparr>"
      by (auto simp: worker_set_fd_def split: if_splits sum.splits)
    then have "phase (abs_handle h) = Fresh"
      using world_ok_handle [OF assms(2) h] s by (simp add: handle_ok_def abs_handle_def abs_phase_def)
    moreover have "abs_handle h' = (abs_handle h)\<lparr>packet_calls := False\<rparr>" by (simp add: h' abs_handle_def abs_queue_def)
    ultimately show "contract_step a z t (Meta_set_tun_fd_v1 i fd) (abs_world w) \<lparr>status = META_OK, out_handle = None, out = None\<rparr> (abs_world (put_handle i h' w))"
      unfolding abs_put using h cb assms(3) by (auto intro!: contract_step.SetTunFd)
  next
    fix h h' e assume "command E w t (worker_set_fd E) h = (h', Inl e)"
    then show "degrades (abs_handle h) (abs_handle h') \<and> (lifecycle_call (Meta_set_tun_fd_v1 i fd) \<and> callback w t \<longrightarrow> h' = h)"
    proof (cases rule: command_cases)
      case Executed
      then have "h' = h" by (auto simp: worker_set_fd_def split: if_splits sum.splits)
      then show ?thesis by simp
    next
      case (NoReply e' g)
      have "abs_queue (fst (worker_set_fd E h)) = abs_queue h" "packet_queue_enabled (fst (worker_set_fd E h)) \<longrightarrow> packet_queue_enabled h"
        "worker (fst (worker_set_fd E h)) = worker h"
        by (auto simp: worker_set_fd_def abs_queue_def split: sum.splits)
      then show ?thesis using NoReply by (auto intro!: degrades_stop)
    qed simp
  qed simp_all
qed

lemma hooks_accepted_new:
  assumes "read_hooks A hk = Inr hh" and "handle_new A E cfg hh = Ok h"
  shows "hooks_accepted (android A) (sizeof_hooks A) hk"
  using assms
  by (auto simp: read_hooks_def host_hooks_new_def hooks_accepted_def handle_new_def and_then_Inr split: option.splits if_splits)

lemma handle_new_abs:
  "handle_new A E cfg hh = Ok h \<Longrightarrow> abs_handle h = \<lparr>phase = Fresh, quiet = False, packet_calls = packet_queue_enabled h, packets = []\<rparr>"
  by (auto simp: handle_new_def abs_handle_def abs_phase_def abs_queue_def core_new_def and_then_Inr Let_def
      split: if_splits sum.splits outcome.splits)

lemma sim_create:
  assumes "meta_create_v1 A E t b hk cell w = (w', r)"
  shows "contract_step (android A) (sizeof_hooks A) t (Meta_create_v1 b hk cell) (abs_world w) r (abs_world w')"
proof (cases cell)
  case None
  then have "w' = set_error t ''handle output is required'' w" "status r = META_ERROR"
    using assms by (auto simp: meta_create_v1_def)
  then show ?thesis by (auto intro!: contract_refused)
next
  case (Some h0)
  show ?thesis
  proof (cases rule: create_body_cases [of A E t b hk w])
    case (Refused x)
    then have "\<exists>e. w' = set_error t e w \<and> status r = META_ERROR" using assms Some by (cases x) (auto simp: meta_create_v1_def)
    then show ?thesis by (auto intro!: contract_refused)
  next
    case (Failed x v)
    then have "\<exists>e. w' = set_error t e v \<and> status r = META_ERROR" using assms Some by (cases x) (auto simp: meta_create_v1_def)
    moreover have "next_id w \<le> next_id v" using next_id_less [OF Failed(3), of "next_id w"] Failed(6) by simp
    moreover have "live (abs_world v) = live (abs_world w)" using Failed by (simp add: abs_world_def)
    ultimately show ?thesis using Failed by (auto intro!: contract_error)
  next
    case (Created cfg hh h)
    then have w': "w' = put_handle (next_id w) h (w\<lparr>next_id := next_id w + 1\<rparr>)" and r: "status r = META_OK" "out_handle r = Some (next_id w)"
      using assms Some by (auto simp: meta_create_v1_def)
    have aw: "abs_world w' = (abs_world w)\<lparr>live := (live (abs_world w))(next_id w \<mapsto> \<lparr>phase = Fresh, quiet = False, packet_calls = packet_queue_enabled h, packets = []\<rparr>),
        issued := insert (next_id w) (issued (abs_world w))\<rparr>"
      unfolding w' abs_put handle_new_abs [OF Created(7), symmetric] using next_id_less [OF Created(2)]
      by (auto simp: abs_world_def)
    show ?thesis
      unfolding aw Some
      by (rule contract_step.Create) (use Created hooks_accepted_new [OF Created(6,7)] r in auto)
  qed
qed


text \<open>Output buffers.\<close>

lemma ffi_output_cases:
  assumes "ffi_output bs b = (b', x)"
  shows "case x of Inl e \<Rightarrow> buffer b' = buffer b | Inr s \<Rightarrow> delivers bs b s b'"
  using assms
  by (auto simp: ffi_output_def Let_def delivers_def META_defs split: if_splits)

lemma sim_output:
  assumes "buffer_reply t (w, b', of_result x) = (w', r)" and "call_buffer c = Some b" and "c \<noteq> Meta_abi_version_v1"
    and "\<And>e. x = Inl e \<Longrightarrow> buffer b' = buffer b"
    and "\<And>s. x = Inr s \<Longrightarrow> contract_step a z t c (abs_world w) \<lparr>status = s, out_handle = None, out = Some b'\<rparr> (abs_world w)"
  shows "contract_step a z t c (abs_world w) r (abs_world w')"
  using assms by (cases x) (auto simp: buffer_reply_def intro!: contract_refused)

lemma sim_error:
  assumes "meta_error_v1 t b w = (w', r)"
  shows "contract_step a z t (Meta_error_v1 b) (abs_world w) r (abs_world w')"
proof -
  obtain b' x where out: "ffi_output (str_bytes (error_text w t)) b = (b', x)" by fastforce
  then have r: "buffer_reply t (w, b', of_result x) = (w', r)" using assms by (simp add: meta_error_v1_def)
  show ?thesis
    by (rule sim_output [OF r]) (use ffi_output_cases [OF out] in \<open>auto intro!: contract_step.ReadError\<close>)
qed

lemma sim_snapshot:
  assumes "meta_snapshot_v1 A t i b w = (w', r)"
  shows "contract_step a z t (Meta_snapshot_v1 i b) (abs_world w) r (abs_world w')"
proof (cases "handle_of w i")
  case (Ok h)
  then have h: "handles w i = Some h" by (simp add: handle_of_Ok)
  show ?thesis
  proof (cases "snapshot_json A (core h)")
    case (Inl e)
    then have "w' = set_error t e w" "r = \<lparr>status = META_ERROR, out_handle = None, out = Some b\<rparr>"
      using assms Ok by (auto simp: meta_snapshot_v1_def buffer_reply_def)
    then show ?thesis by (auto intro!: contract_refused)
  next
    case (Inr bs)
    obtain b' x where out: "ffi_output bs b = (b', x)" by fastforce
    then have r: "buffer_reply t (w, b', of_result x) = (w', r)" using assms Ok Inr by (simp add: meta_snapshot_v1_def)
    show ?thesis
      by (rule sim_output [OF r]) (use ffi_output_cases [OF out] h in \<open>auto intro!: contract_step.Snapshot\<close>)
  qed
qed (use assms in \<open>auto simp: meta_snapshot_v1_def buffer_reply_def intro!: contract_refused\<close>)

lemma sim_policy:
  assumes c: "c \<noteq> Meta_abi_version_v1" "call_buffer c = None" "call_handle c = Some i" "\<not> lifecycle_call c"
    and f: "\<And>h. handles w i = Some h \<Longrightarrow> abs_phase (fst (f h)) = abs_phase (core h)"
    and ok: "\<And>h. handles w i = Some h \<Longrightarrow>
      contract_step a z t c (abs_world w) \<lparr>status = META_OK, out_handle = None, out = None\<rparr> (abs_world w)"
    and r: "plain_reply (boundary t (with_handle w i (\<lambda>h. update_handle i (h\<lparr>core := fst (f h)\<rparr>, snd (f h)) w))) = (w', r)"
  shows "contract_step a z t c (abs_world w) r (abs_world w')"
proof (rule contract_update [OF c(1-3) _ _ r])
  fix h h' assume h: "handles w i = Some h" and "(h\<lparr>core := fst (f h)\<rparr>, snd (f h)) = (h', Inr ())"
  then have "abs_world (put_handle i h' w) = abs_world w" using abs_put_same [OF h abs_handle_core [OF f [OF h]]] by auto
  then show "contract_step a z t c (abs_world w) \<lparr>status = META_OK, out_handle = None, out = None\<rparr> (abs_world (put_handle i h' w))"
    using ok [OF h] by simp
next
  fix h h' e assume h: "handles w i = Some h" and "(h\<lparr>core := fst (f h)\<rparr>, snd (f h)) = (h', Inl e)"
  then show "degrades (abs_handle h) (abs_handle h') \<and> (lifecycle_call c \<and> callback w t \<longrightarrow> h' = h)"
    using abs_handle_core [OF f [OF h]] c(4) by auto
qed

lemma abs_phase_policy:
  "abs_phase (fst (update_policy X L m rs c)) = abs_phase c" "abs_phase (fst (select c s g n)) = abs_phase c"
  by (simp_all add: abs_phase_def flags)

lemma sim_update:
  assumes "meta_update_v1 A t i b w = (w', r)"
  shows "contract_step a z t (Meta_update_v1 i b) (abs_world w) r (abs_world w')"
proof (cases "read_update A b")
  case (Inl e)
  then have "w' = set_error t e w" "r = \<lparr>status = META_ERROR, out_handle = None, out = None\<rparr>"
    using assms by (auto simp: meta_update_v1_def plain_reply_def)
  then show ?thesis by (auto intro!: contract_refused)
next
  case (Inr x)
  obtain m rs where x: "x = (m, rs)" by (cases x)
  have r: "plain_reply (boundary t (with_handle w i (\<lambda>h. update_handle i
      (h\<lparr>core := fst (update_policy (crates_of A) (libs_of A) m rs (core h))\<rparr>, snd (update_policy (crates_of A) (libs_of A) m rs (core h))) w))) = (w', r)"
    using assms Inr x by (simp add: meta_update_v1_def case_prod_beta Let_def)
  show ?thesis
    by (rule sim_policy [OF _ _ _ _ _ _ r]) (auto simp: abs_phase_policy intro!: contract_step.Update)
qed

lemma sim_select:
  assumes "meta_select_v1 E t i gb nb w = (w', r)"
  shows "contract_step a z t (Meta_select_v1 i gb nb) (abs_world w) r (abs_world w')"
proof (cases "and_then (ffi_input gb) (\<lambda>g. and_then (from_utf8 g) (\<lambda>g.
    and_then (ffi_input nb) (\<lambda>n. and_then (from_utf8 n) (\<lambda>n. Inr (g, n)))))")
  case (Inl e)
  then have r: "plain_reply (boundary t (with_handle w i (\<lambda>h. (w, Err e)))) = (w', r)"
    using assms by (simp add: meta_select_v1_def)
  show ?thesis by (rule contract_plain [OF _ _ _ r]) auto
next
  case (Inr x)
  obtain g n where x: "x = (g, n)" by (cases x)
  have r: "plain_reply (boundary t (with_handle w i (\<lambda>h. update_handle i
      (h\<lparr>core := fst (select (core h) (save_answer E) g n)\<rparr>, snd (select (core h) (save_answer E) g n)) w))) = (w', r)"
    using assms Inr x by (simp add: meta_select_v1_def case_prod_beta Let_def)
  show ?thesis
    by (rule sim_policy [OF _ _ _ _ _ _ r]) (auto simp: abs_phase_policy intro!: contract_step.Select)
qed

lemma sim_write:
  assumes "meta_write_packet_v1 t i b w = (w', r)"
  shows "contract_step a z t (Meta_write_packet_v1 i b) (abs_world w) r (abs_world w')"
proof (cases "and_then (ensure (20 \<le> data_length b \<and> data_length b \<le> 65535) ''invalid IP packet length'') (\<lambda>_.
    and_then (ffi_input b) (\<lambda>p. and_then (ensure (drop_bit 4 (p ! 0) \<in> {4, 6}) ''invalid IP version'') (\<lambda>_. Inr p)))")
  case (Inl e)
  then have "w' = set_error t e w" "r = \<lparr>status = META_ERROR, out_handle = None, out = None\<rparr>"
    using assms by (auto simp: meta_write_packet_v1_def plain_reply_def)
  then show ?thesis by (auto intro!: contract_refused)
next
  case (Inr p)
  let ?f = "\<lambda>h. if stop (core h) then (w, Err ''core is stopped'')
      else (case and_then (check_packet_queue h) (\<lambda>_. ok_or ''TUN is disabled'' (packet_input h)) of
              Inl e \<Rightarrow> (w, Err e)
            | Inr q \<Rightarrow>
                if \<not> channel_open h then (w, Err ''packet channel closed'')
                else if length q < 256 then (put_handle i (h\<lparr>packet_input := Some (q @ [p])\<rparr>) w, Ok META_OK)
                else (w, Ok META_WOULD_BLOCK))"
  have r: "plain_reply (boundary t (with_handle w i ?f)) = (w', r)"
    using assms Inr by (simp add: meta_write_packet_v1_def)
  show ?thesis
  proof (rule contract_plain [OF _ _ _ r])
    fix h v res assume h: "handles w i = Some h" and v: "?f h = (v, res)"
    have same: "abs_world (put_handle i (h\<lparr>packet_input := q\<rparr>) w) = abs_world w" for q
      using abs_put_same [OF h] by (simp add: abs_handle_def)
    have "v = w \<and> (\<exists>e. res = Err e) \<or>
        \<not> stop (core h) \<and> packet_queue_enabled h \<and> abs_world v = abs_world w \<and> (res = Ok META_OK \<or> res = Ok META_WOULD_BLOCK)"
      using v same by (auto simp: check_packet_queue_def ensure_def split: if_splits sum.splits)
    moreover have "phase (abs_handle h) \<noteq> Stopped" if "\<not> stop (core h)" using that by (simp add: abs_handle_def abs_phase_def)
    ultimately show "case res of Ok s \<Rightarrow> contract_step a z t (Meta_write_packet_v1 i b) (abs_world w) \<lparr>status = s, out_handle = None, out = None\<rparr> (abs_world v)
       | _ \<Rightarrow> live_degrades (Meta_write_packet_v1 i b) (live (abs_world w)) (live (abs_world v)) \<and> next_id v = next_id w
          \<and> callback v = callback w \<and> error_text v = error_text w
          \<and> (lifecycle_call (Meta_write_packet_v1 i b) \<and> callback w t \<longrightarrow> handles v = handles w)"
      using h by (auto simp: abs_handle_def intro!: contract_step.WritePacket)
  qed simp_all
qed

lemma read_queue_abs:
  assumes "read_queue h = Ok (Some (h', p))"
  shows "abs_handle h' = abs_handle h" "packets (abs_handle h) = p # packets (abs_handle (h'\<lparr>pending := None\<rparr>))"
    "phase (abs_handle (h'\<lparr>pending := None\<rparr>)) = phase (abs_handle h)"
    "packet_calls (abs_handle (h'\<lparr>pending := None\<rparr>)) = packet_calls (abs_handle h)"
    "quiet (abs_handle (h'\<lparr>pending := None\<rparr>)) = quiet (abs_handle h)"
  by (cases rule: read_queue_cases [OF assms]; simp add: abs_handle_def abs_queue_def)+

lemma read_queue_empty: "read_queue h = Ok None \<Longrightarrow> abs_queue h = []"
  by (auto simp: read_queue_def abs_queue_def split: option.splits list.splits)

text \<open>The ways a packet is read: refused, nothing queued, or the oldest packet meets the buffer.\<close>

lemma read_packet_cases:
  assumes "meta_read_packet_v1 t i b w = (w', r)"
  obtains (Refused) e b' where "w' = set_error t e w" "r = \<lparr>status = META_ERROR, out_handle = None, out = Some b'\<rparr>" "buffer b' = buffer b"
  | (Empty) h where "w' = w" "r = \<lparr>status = META_WOULD_BLOCK, out_handle = None, out = Some (b\<lparr>out_length := Some 0\<rparr>)\<rparr>"
      "handles w i = Some h" "packet_queue_enabled h" "abs_queue h = []"
  | (Packet) h h' p b' x where "handles w i = Some h" "packet_queue_enabled h" "read_queue h = Ok (Some (h', p))"
      "ffi_output p (b\<lparr>out_length := Some 0\<rparr>) = (b', x)"
      "w' = (case x of Inl e \<Rightarrow> set_error t e (put_handle i h' w)
             | Inr s \<Rightarrow> put_handle i (if s = META_OK then h'\<lparr>pending := None\<rparr> else h') w)"
      "r = \<lparr>status = (case x of Inl e \<Rightarrow> META_ERROR | Inr s \<Rightarrow> s), out_handle = None, out = Some b'\<rparr>"
proof -
  let ?b = "b\<lparr>out_length := Some 0\<rparr>"
  have refused: thesis
    if "\<exists>e b'. w' = set_error t e w \<and> r = \<lparr>status = META_ERROR, out_handle = None, out = Some b'\<rparr> \<and> buffer b' = buffer b"
    using that Refused by blast
  show ?thesis
  proof (cases "out_length b")
    case None
    then show ?thesis using assms by (intro refused) (auto simp: meta_read_packet_v1_def buffer_reply_def)
  next
    case (Some n)
    show ?thesis
    proof (cases "handle_of w i")
      case (Ok h)
      then have h: "handles w i = Some h" by (simp add: handle_of_Ok)
      show ?thesis
      proof (cases "packet_queue_enabled h")
        case True
        then have q: "check_packet_queue h = Inr ()" by (simp add: check_packet_queue_def)
        show ?thesis
        proof (cases "read_queue h")
          case q': (Ok y)
          show ?thesis
          proof (cases y)
            case None
            then show ?thesis using Empty [OF _ _ h True] assms Some Ok q q' read_queue_empty [of h]
              by (simp add: meta_read_packet_v1_def buffer_reply_def Let_def)
          next
            case y: (Some hp)
            obtain h' p where hp: "hp = (h', p)" by (cases hp)
            obtain b' x where out: "ffi_output p ?b = (b', x)" by fastforce
            show ?thesis
              using Packet [OF h True _ out] assms Some Ok q q' y hp out
              by (cases x) (simp_all add: meta_read_packet_v1_def buffer_reply_def Let_def)
          qed
        next
          case (Err e)
          then show ?thesis using assms Some Ok q
            by (intro refused) (auto simp: meta_read_packet_v1_def buffer_reply_def Let_def)
        next
          case Panic
          then show ?thesis using assms Some Ok q
            by (intro refused) (auto simp: meta_read_packet_v1_def buffer_reply_def Let_def)
        qed
      next
        case False
        then show ?thesis using assms Some Ok
          by (intro refused) (auto simp: meta_read_packet_v1_def buffer_reply_def check_packet_queue_def Let_def)
      qed
    next
      case (Err e)
      then show ?thesis using assms Some
        by (intro refused) (auto simp: meta_read_packet_v1_def buffer_reply_def Let_def)
    next
      case Panic
      then show ?thesis using assms Some
        by (intro refused) (auto simp: meta_read_packet_v1_def buffer_reply_def Let_def)
    qed
  qed
qed

lemma delivers_reset: "delivers p (b\<lparr>out_length := n\<rparr>) s b' \<longleftrightarrow> delivers p b s b'"
  by (simp add: delivers_def)

lemma sim_read:
  assumes "meta_read_packet_v1 t i b w = (w', r)"
  shows "contract_step a z t (Meta_read_packet_v1 i b) (abs_world w) r (abs_world w')"
  using assms
proof (cases rule: read_packet_cases)
  case (Refused e b')
  then show ?thesis by (auto intro!: contract_refused)
next
  case (Empty h)
  then show ?thesis by (auto simp: abs_handle_def intro!: contract_step.ReadBlocked)
next
  case (Packet h h' p b' x)
  note q = read_queue_abs [OF Packet(3)]
  have same: "abs_world (put_handle i h' w) = abs_world w" using abs_put_same [OF Packet(1) q(1)] .
  note out = ffi_output_cases [OF Packet(4)]
  show ?thesis
  proof (cases x)
    case (Inl e)
    have "live (abs_world (put_handle i h' w)) = live (abs_world w)" using same by simp
    then show ?thesis unfolding Packet(5) Inl using out Inl Packet(6) by (auto intro!: contract_error)
  next
    case (Inr s)
    have "abs_handle (h'\<lparr>pending := None\<rparr>) = (abs_handle h)\<lparr>packets := packets (abs_handle (h'\<lparr>pending := None\<rparr>))\<rparr>"
      using q by (intro contract_handle.equality) simp_all
    then have aw: "abs_world w' = (if status r = META_OK
        then (abs_world w)\<lparr>live := (live (abs_world w))(i \<mapsto> (abs_handle h)\<lparr>packets := packets (abs_handle (h'\<lparr>pending := None\<rparr>))\<rparr>)\<rparr>
        else abs_world w)"
      using same Packet(5,6) Inr by (simp add: abs_put)
    have "delivers p b (status r) b'" "out r = Some b'" using out Inr Packet(6) by (simp_all add: delivers_reset)
    then show ?thesis
      unfolding aw using Packet(1,2) q(2) by (intro contract_step.ReadPacket) (auto simp: abs_handle_def)
  qed
qed

lemma ffi_call_sim:
  assumes "world_ok A w" and "available A c"
  shows "contract_step (android A) (sizeof_hooks A) t c (abs_world w) (snd (ffi_call A E t c w)) (abs_world (fst (ffi_call A E t c w)))"
proof -
  obtain w' r where r: "ffi_call A E t c w = (w', r)" by fastforce
  have "contract_step (android A) (sizeof_hooks A) t c (abs_world w) r (abs_world w')"
  proof (cases c)
    case Meta_abi_version_v1
    then show ?thesis using r by (auto simp: meta_abi_version_v1_def intro!: contract_step.Version)
  qed (use r assms in \<open>auto intro: sim_create sim_start sim_stop sim_destroy sim_close sim_network sim_set_fd
         sim_error sim_snapshot sim_update sim_select sim_write sim_read\<close>)
  then show ?thesis by (simp add: r)
qed

lemma core_step_phase:
  assumes "core_step X L c c'" and "lifecycle c' = lifecycle c"
  shows "abs_phase c' = abs_phase c \<or> abs_phase c' = Stopped"
  using assms core_step_stop [OF assms(1)] by (auto simp: abs_phase_def)

lemma worker_sim:
  assumes "worker_step A w w'" and "world_ok A w"
  shows "contract_env (abs_world w) (abs_world w')"
  using assms
proof (induction rule: worker_step.induct)
  case (Send w i h p)
  have "phase (abs_handle h) \<noteq> Fresh" "\<not> quiet (abs_handle h)"
    using Send(2) world_ok_handle [OF Send(6) Send(1)] Send(3) by (auto simp: handle_ok_def abs_handle_def abs_phase_def)
  moreover have "abs_handle (h\<lparr>receiver := receiver h @ [p]\<rparr>) = (abs_handle h)\<lparr>packets := packets (abs_handle h) @ [p]\<rparr>"
    by (simp add: abs_handle_def abs_queue_def)
  ultimately show ?case using Send(1) by (auto simp: abs_put intro!: contract_env.Packet)
next
  case (Recv w i h p q)
  then have "abs_world (put_handle i (h\<lparr>packet_input := Some q\<rparr>) w) = abs_world w"
    by (intro abs_put_same [OF Recv(1)]) (simp add: abs_handle_def)
  then show ?case by (simp add: contract_env.Idle)
next
  case (Work w i h c)
  consider "abs_phase c = abs_phase (core h)" | "abs_phase c = Stopped" using core_step_phase [OF Work(4,5)] by blast
  then show ?case
  proof cases
    case 1
    then show ?thesis using abs_put_same [OF Work(1) abs_handle_core] by (simp add: contract_env.Idle)
  next
    case 2
    then have "abs_handle (h\<lparr>core := c\<rparr>) = (abs_handle h)\<lparr>phase := Stopped\<rparr>" by (simp add: abs_handle_def)
    then show ?thesis using Work(1) by (auto simp: abs_put intro!: contract_env.Stops)
  qed
next
  case (Exit w i h)
  then have "abs_handle (worker_exit h) = abs_handle h"
    by (auto simp: abs_handle_def abs_phase_def worker_exit_def running_shutdown_def abs_queue_def)
  then show ?case using abs_put_same [OF Exit(1)] by (simp add: contract_env.Idle)
next
  case (Enter w t)
  have "abs_world (fst (scope_enter t w)) = (abs_world w)\<lparr>in_callback := (in_callback (abs_world w))(t := True)\<rparr>"
    by (simp add: abs_world_def scope_enter_def)
  then show ?case by (simp only: contract_env.Callback)
next
  case (Leave w t previous)
  have "abs_world (scope_drop t previous w) = (abs_world w)\<lparr>in_callback := (in_callback (abs_world w))(t := previous)\<rparr>"
    by (simp add: abs_world_def scope_drop_def)
  then show ?case by (simp only: contract_env.Callback)
qed

section \<open>Transfer from the contract\<close>

text \<open>
  What a simulation gives: the abstraction of a run is a run of the abstract system, so a relation
  between states that abstract runs establish holds of the abstractions of concrete runs.
\<close>

locale forward_simulation =
  fixes inv_state :: "'s \<Rightarrow> bool"
    and step :: "'s \<Rightarrow> 's \<Rightarrow> bool"
    and abs_state :: "'s \<Rightarrow> 'a"
    and abs_step :: "'a \<Rightarrow> 'a \<Rightarrow> bool"
  assumes inv_step: "inv_state s \<Longrightarrow> step s s' \<Longrightarrow> inv_state s'"
    and sim_step: "inv_state s \<Longrightarrow> step s s' \<Longrightarrow> abs_step (abs_state s) (abs_state s')"
begin

lemma sim_steps: "step\<^sup>*\<^sup>* s s' \<Longrightarrow> inv_state s \<Longrightarrow> inv_state s' \<and> abs_step\<^sup>*\<^sup>* (abs_state s) (abs_state s')"
  by (induction rule: rtranclp_induct) (auto intro: inv_step sim_step rtranclp.rtrancl_into_rtrancl)

lemma transfer_stable:
  assumes "\<And>a b. P a \<Longrightarrow> abs_step a b \<Longrightarrow> P b" and "step\<^sup>*\<^sup>* s s'" and "inv_state s" and "P (abs_state s)"
  shows "P (abs_state s')"
proof -
  have "abs_step\<^sup>*\<^sup>* (abs_state s) (abs_state s')" using sim_steps assms(2,3) by blast
  then show ?thesis using assms(4) by (induction rule: rtranclp_induct) (auto intro: assms(1))
qed

end

definition contract_any :: "bool \<Rightarrow> nat \<Rightarrow> contract \<Rightarrow> contract \<Rightarrow> bool" where
  "contract_any a z s s' \<longleftrightarrow> (\<exists>t c r. contract_step a z t c s r s') \<or> contract_env s s'"

interpretation ffi_sim: forward_simulation "world_ok A" "ffi_step A" abs_world "contract_any (android A) (sizeof_hooks A)"
  for A :: "('r, 'x, 'j) api"
proof
  fix w w' assume ok: "world_ok A w" and s: "ffi_step A w w'"
  show "world_ok A w'" using ffi_step_ok [OF s ok] .
  show "contract_any (android A) (sizeof_hooks A) (abs_world w) (abs_world w')"
    using s ok
  proof cases
    case (Call c E t)
    then show ?thesis unfolding contract_any_def Call(1) using ffi_call_sim [OF ok Call(2)] by blast
  qed (auto simp: contract_any_def dest: worker_sim)
qed

text \<open>In the contract a handle that was issued and is not live stays so.\<close>

definition retired :: "meta_handle \<Rightarrow> contract \<Rightarrow> bool" where
  "retired h s \<longleftrightarrow> h \<in> issued s \<and> live s h = None"

lemma live_degrades_None: "live_degrades c l l' \<Longrightarrow> l' h = None \<longleftrightarrow> l h = None"
proof -
  assume "live_degrades c l l'"
  then have "h \<in> dom l' \<longleftrightarrow> h \<in> dom l" by (simp add: live_degrades_def)
  then show ?thesis by (cases "l h"; cases "l' h") auto
qed

lemma retired_step:
  assumes "retired h s" and "contract_step a z t c s r s'"
  shows "retired h s'"
  using assms(2,1) by cases (auto simp: retired_def live_degrades_None)

lemma retired_env: "contract_env s s' \<Longrightarrow> retired h s \<Longrightarrow> retired h s'"
  by (cases rule: contract_env.cases) (auto simp: retired_def)

lemma retired_any: "retired h s \<Longrightarrow> contract_any a z s s' \<Longrightarrow> retired h s'"
  unfolding contract_any_def using retired_step retired_env by blast

text \<open>A handle that has been started or stopped, or is gone, never becomes fresh.\<close>

definition used :: "meta_handle \<Rightarrow> contract \<Rightarrow> bool" where
  "used h s \<longleftrightarrow> h \<in> issued s \<and> (\<forall>x. live s h = Some x \<longrightarrow> phase x \<noteq> Fresh)"

lemma used_degrades:
  assumes "live_degrades c l l'" and "\<forall>x. l h = Some x \<longrightarrow> phase x \<noteq> Fresh"
  shows "\<forall>x. l' h = Some x \<longrightarrow> phase x \<noteq> Fresh"
proof (intro allI impI)
  fix x assume x: "l' h = Some x"
  then have "l h \<noteq> None" using live_degrades_None [OF assms(1), of h] by auto
  then obtain y where y: "l h = Some y" by blast
  then have "if call_handle c = Some h then degrades y x else x = y" using assms(1) x by (force simp: live_degrades_def)
  then show "phase x \<noteq> Fresh" using assms(2) y by (auto simp: degrades_def split: if_splits)
qed

lemma used_step:
  assumes "used h s" and "contract_step a z t c s r s'"
  shows "used h s'"
  using assms(2)
proof cases
  case (Error l' i' e)
  have "\<forall>x. l' h = Some x \<longrightarrow> phase x \<noteq> Fresh"
    by (rule used_degrades [of c "live s"]) (use Error(4) assms(1) in \<open>simp_all add: used_def\<close>)
  moreover have "h \<in> i'" using Error(5) assms(1) by (auto simp: used_def)
  ultimately show ?thesis unfolding Error(1) by (simp add: used_def)
next
  case (ReadPacket i x p ps b' b)
  then show ?thesis using assms(1) by (cases "status r = META_OK") (simp_all add: used_def)
qed (use assms(1) in \<open>auto simp: used_def\<close>)

lemma used_env: "contract_env s s' \<Longrightarrow> used h s \<Longrightarrow> used h s'"
  by (cases rule: contract_env.cases) (auto simp: used_def split: if_splits)

lemma used_any: "used h s \<Longrightarrow> contract_any a z s s' \<Longrightarrow> used h s'"
  unfolding contract_any_def using used_step used_env by blast

text \<open>The status of a call on a handle that is not live, or not fresh for a start.\<close>

lemma contract_dead:
  assumes "contract_step a z t c s r s'" and "call_handle c = Some h" and "live s h = None"
  shows "status r = META_ERROR"
  using assms by (cases rule: contract_step.cases) auto

lemma contract_no_restart:
  assumes "contract_step a z t (Meta_start_v1 h) s r s'" and "used h s"
  shows "status r = META_ERROR"
  using assms by (cases rule: contract_step.cases) (auto simp: used_def)

lemma contract_callback:
  assumes "contract_step a z t c s r s'" and "lifecycle_call c" and "in_callback s t"
  shows "status r = META_ERROR \<and> live s' = live s \<and> issued s' = issued s"
  using assms by (cases rule: contract_step.cases) auto

lemma contract_error_recorded:
  assumes "contract_step a z t c s r s'" and "c \<noteq> Meta_abi_version_v1"
  shows "\<forall>u. u \<noteq> t \<longrightarrow> errors s' u = errors s u"
  using assms by (cases rule: contract_step.cases) auto

section \<open>An example run\<close>

definition example_api :: "(unit, unit, unit) api" where
  "example_api =
     \<lparr>crates_of = no_crates, libs_of = no_libs\<lparr>yaml_config := \<lambda>_. Inr example_config\<rparr>, android = False,
      pointer_size = 8, from_slice = \<lambda>_. Inl ''json'', mode_from_value = \<lambda>_. Inl ''json'',
      rules_from_value = \<lambda>_. Inl ''json'', snapshot_json = \<lambda>_. Inr [123, 125]\<rparr>"

definition example_answers :: "(unit, unit) answers" where
  "example_answers =
     \<lparr>runtime_build = Ok (), queue_full = False, replied = True, executed = False, start_answers = example_env,
      device_open = Inr (), dup_fd = Inr (), joined = True, save_answer = \<lambda>_. Inr ()\<rparr>"

definition example_create :: meta_call where
  "example_create = Meta_create_v1 \<lparr>data = None, data_length = 0\<rparr> None (Some 0)"

definition example_handle :: "(unit, unit) handle" where
  "example_handle =
     \<lparr>core = example_core, hooks = \<lparr>hook_context = 0, protect = None, notify = None\<rparr>, worker = True, running = False,
      packet_input = Some [], channel_open = True, receiver = [], pending = None, packet_queue_enabled = True\<rparr>"

definition example_world :: "(unit, unit) world" where
  "example_world = initial_world\<lparr>handles := [1 \<mapsto> example_handle], next_id := 2\<rparr>"

lemma example_normal: "normalise example_config = example_config"
  by (simp add: normalise_def example_config_def config_default_def dns_default_def log_default_def listen_def strip_prefix_def)

lemma example_created:
  "ffi_call example_api E t example_create initial_world = (example_world, \<lparr>status = META_OK, out_handle = Some 1, out = None\<rparr>)"
  if "runtime_build E = Ok ()"
proof -
  have "config_parse no_crates (no_libs\<lparr>yaml_config := \<lambda>_. Inr example_config\<rparr>) [] = Inr example_config"
    by (simp add: config_parse_def example_normal example_valid)
  moreover have "tun_enable (tun_opts (config example_core))"
    by (simp add: example_core_def example_config_def)
  ultimately show ?thesis
    using that
    by (simp add: example_create_def meta_create_v1_def create_body_def check_lifecycle_def initial_world_def ffi_input_def
      example_api_def read_hooks_def handle_new_def example_core_new put_handle_def example_world_def example_handle_def
      sizeof_hooks_def)
qed

lemma example_world_reachable: "ffi_reachable example_api example_world"
proof -
  have "available example_api example_create" by (simp add: example_create_def)
  from ffi_step.Call [OF this, of initial_world example_answers 0] have "ffi_step example_api initial_world example_world"
    by (simp add: example_created example_answers_def)
  then show ?thesis unfolding ffi_reachable_def by (rule r_into_rtranclp)
qed

end
