(* ===== verification/FfiProps.thy ===== *)
theory FfiProps
  imports FfiProofs
begin

text \<open>
  The promises of \<^verbatim>\<open>meta_rust.h\<close> to a host, carried from the contract to the implementation by the
  simulation of the theory \<open>FfiProofs\<close>: handles that stay invalid, one start, no lifecycle call inside a
  callback, errors per thread, packets in order, bounded queues, and silence after a stop.
\<close>

section \<open>Lemmas\<close>

lemma ffi_live_issued: "ffi_reachable A w \<Longrightarrow> handles w i = Some h \<Longrightarrow> i < next_id w"
  using ffi_reachable_ok by (auto simp: world_ok_def)

lemma ffi_reachable_steps: "ffi_reachable A w \<Longrightarrow> (ffi_step A)\<^sup>*\<^sup>* w w' \<Longrightarrow> ffi_reachable A w'"
  by (auto simp: ffi_reachable_def)

lemma ffi_reachable_call: "ffi_reachable A w \<Longrightarrow> available A c \<Longrightarrow> ffi_reachable A (fst (ffi_call A E t c w))"
  by (rule ffi_reachable_steps) (auto intro: ffi_step.Call)

text \<open>A quiet handle, or one that is gone, receives no packet; \<open>Q\<close> is closed under taking one out.\<close>

definition drained :: "meta_handle \<Rightarrow> bytes list set \<Rightarrow> contract \<Rightarrow> bool" where
  "drained h Q s \<longleftrightarrow> h \<in> issued s \<and> (\<forall>x. live s h = Some x \<longrightarrow> quiet x \<and> packets x \<in> Q)"

lemma drainedI: "h \<in> issued s \<Longrightarrow> (\<And>x. live s h = Some x \<Longrightarrow> quiet x \<and> packets x \<in> Q) \<Longrightarrow> drained h Q s"
  by (simp add: drained_def)

lemma degraded:
  assumes "live_degrades c l l'" and "l' h = Some x"
  obtains y where "l h = Some y" "degrades y x"
proof -
  have "l h \<noteq> None" using live_degrades_None [OF assms(1), of h] assms(2) by auto
  then obtain y where y: "l h = Some y" by blast
  then have "if call_handle c = Some h then degrades y x else x = y" using assms by (force simp: live_degrades_def)
  then have "degrades y x" by (cases "call_handle c = Some h") simp_all
  then show thesis using that y by blast
qed

lemma drained_upd:
  assumes "drained h Q s" and "live s i = Some y" and "quiet y \<Longrightarrow> quiet x" and "quiet y \<Longrightarrow> packets y \<in> Q \<Longrightarrow> packets x \<in> Q"
  shows "drained h Q (s\<lparr>live := (live s)(i \<mapsto> x)\<rparr>)"
  using assms by (cases "h = i") (simp_all add: drained_def)

lemma drained_step:
  assumes "drained h Q s" and "contract_step a z t c s r s'" and "\<And>p ps. p # ps \<in> Q \<Longrightarrow> ps \<in> Q"
  shows "drained h Q s'"
  using assms(2)
proof cases
  case (Error l' i' e)
  show ?thesis
    unfolding Error(1)
  proof (rule drainedI)
    fix x assume "live (s\<lparr>live := l', issued := i', errors := (errors s)(t := e)\<rparr>) h = Some x"
    then obtain y where "live s h = Some y" "degrades y x" using degraded [OF Error(4)] by auto
    then show "quiet x \<and> packets x \<in> Q" using assms(1) by (simp add: drained_def degrades_def)
  qed (use Error(5) assms(1) in \<open>auto simp: drained_def\<close>)
next
  case (Create hk i cfg h0 p)
  then show ?thesis using assms(1) by (auto simp: drained_def)
next
  case (Destroy i x)
  then show ?thesis using assms(1) by (simp add: drained_def)
next
  case (ReadPacket i x p ps b' b)
  then show ?thesis using assms(1,3) drained_upd [OF assms(1) ReadPacket(3)] by simp
qed (use assms(1) in \<open>simp_all add: drained_upd\<close>)

lemma drained_env:
  assumes "drained h Q s" and "contract_env s s'"
  shows "drained h Q s'"
  using assms(2)
proof cases
  case (Callback t b)
  then show ?thesis using assms(1) by (simp add: drained_def)
next
  case (Packet i x p)
  then show ?thesis using drained_upd [OF assms(1), of i x] by simp
qed (use assms(1) in \<open>simp_all add: drained_upd\<close>)

lemma drained_any:
  "(\<And>p ps. p # ps \<in> Q \<Longrightarrow> ps \<in> Q) \<Longrightarrow> drained h Q s \<Longrightarrow> contract_any a z s s' \<Longrightarrow> drained h Q s'"
  unfolding contract_any_def using drained_step drained_env by blast

lemma put_handle_same: "handles w i = Some h \<Longrightarrow> put_handle i h w = w"
  by (simp add: put_handle_def map_upd_triv)

lemma command_callback: "callback w t \<Longrightarrow> command E w t exec h = (h, Inl ''lifecycle calls cannot reenter from host callbacks'')"
  by (simp add: command_def check_lifecycle_def)

lemma shutdown_callback: "callback w t \<Longrightarrow> shutdown E w t h = (h, Inl ''lifecycle calls cannot reenter from host callbacks'')"
  by (simp add: shutdown_def check_lifecycle_def)

lemma callback_update:
  assumes "\<And>h. f h = (h, Inl m)"
  shows "\<exists>e r. plain_reply (boundary t (with_handle w i (\<lambda>h. update_handle i (f h) w))) = (set_error t e w, r) \<and> status r = META_ERROR"
proof (cases "handle_of w i")
  case (Ok h)
  then have "handles w i = Some h" by (simp add: handle_of_Ok)
  then show ?thesis using assms Ok by (auto simp: with_handle_def plain_reply_def update_handle_def put_handle_same)
qed (auto simp: with_handle_def plain_reply_def)

lemma lifecycle_refused:
  assumes "lifecycle_call c" and cb: "callback w t"
  shows "\<exists>e r. ffi_call A E t c w = (set_error t e w, r) \<and> status r = META_ERROR"
  using assms(1)
proof (cases c)
  case (Meta_create_v1 b hk cell)
  then show ?thesis using cb by (cases cell) (auto simp: meta_create_v1_def create_body_def check_lifecycle_def)
next
  case (Meta_start_v1 i)
  then show ?thesis using callback_update [of "command E w t (worker_start A E)"] cb by (simp add: meta_start_v1_def command_callback)
next
  case (Meta_stop_v1 i)
  then show ?thesis using callback_update [of "shutdown E w t"] cb by (simp add: meta_stop_v1_def shutdown_callback)
next
  case (Meta_destroy_v1 i)
  show ?thesis
  proof (cases "handle_of w i")
    case (Ok h)
    then have "handles w i = Some h" by (simp add: handle_of_Ok)
    then show ?thesis using Ok cb Meta_destroy_v1
      by (auto simp: meta_destroy_v1_def with_handle_def plain_reply_def shutdown_callback put_handle_same)
  qed (auto simp: Meta_destroy_v1 meta_destroy_v1_def with_handle_def plain_reply_def)
next
  case (Meta_network_changed_v1 i)
  then show ?thesis using callback_update [of "command E w t worker_network_changed"] cb by (simp add: meta_network_changed_v1_def command_callback)
next
  case (Meta_set_tun_fd_v1 i fd)
  show ?thesis
  proof (cases "and_then (ensure (fd \<ge> 0) ''invalid TUN descriptor'') (\<lambda>_. dup_fd E)")
    case (Inl e)
    then show ?thesis using Meta_set_tun_fd_v1 by (auto simp: meta_set_tun_fd_v1_def plain_reply_def)
  next
    case (Inr u)
    then show ?thesis using Meta_set_tun_fd_v1 callback_update [of "command E w t (worker_set_fd E)"] cb
      by (simp add: meta_set_tun_fd_v1_def command_callback)
  qed
qed simp_all

lemma call_contract:
  assumes "ffi_reachable A w" and "available A c"
  shows "contract_step (android A) (sizeof_hooks A) t c (abs_world w) (snd (ffi_call A E t c w)) (abs_world (fst (ffi_call A E t c w)))"
  using ffi_call_sim [OF ffi_reachable_ok [OF assms(1)] assms(2)] .

lemmas ffi_stable = ffi_sim.transfer_stable [OF _ _ ffi_reachable_ok]

section \<open>An example run, continued\<close>

text \<open>The example handle after a start, after a packet, and after a stop.\<close>

definition example_started :: "(unit, unit) world" where
  "example_started = example_world\<lparr>handles := [1 \<mapsto> example_handle\<lparr>core := example_core\<lparr>lifecycle := True\<rparr>, running := True\<rparr>]\<rparr>"

definition example_queued :: "(unit, unit) world" where
  "example_queued =
     example_world\<lparr>handles := [1 \<mapsto> example_handle\<lparr>core := example_core\<lparr>lifecycle := True\<rparr>, running := True, receiver := [[69, 0], [69, 1]]\<rparr>]\<rparr>"

definition example_stopped :: "(unit, unit) world" where
  "example_stopped =
     example_world\<lparr>handles := [1 \<mapsto> example_handle\<lparr>core := example_core\<lparr>stop := True\<rparr>, running := False, channel_open := False, worker := False\<rparr>]\<rparr>"

definition example_gone :: "(unit, unit) world" where
  "example_gone = example_world\<lparr>handles := Map.empty\<rparr>"

lemma example_world_simps [simp]:
  "handles example_world = [1 \<mapsto> example_handle]" "poisoned example_world = False" "callback example_world = (\<lambda>_. False)"
  "next_id example_world = 2" "error_text example_world = (\<lambda>_. [])"
  by (simp_all add: example_world_def initial_world_def)

lemma example_flags [simp]:
  "stop example_core = False" "lifecycle example_core = False" "tun_enable (tun_opts (config example_core))"
  by (simp_all add: example_core_def example_config_def)

lemma example_handle_simps [simp]:
  "core example_handle = example_core" "worker example_handle" "\<not> running example_handle" "channel_open example_handle"
  "receiver example_handle = []" "pending example_handle = None" "packet_queue_enabled example_handle"
  by (simp_all add: example_handle_def)

lemma example_api_simps [simp]:
  "crates_of example_api = no_crates" "android example_api = False" "sizeof_hooks example_api = 32"
  by (simp_all add: example_api_def sizeof_hooks_def)

lemma example_answers_simps [simp]:
  "queue_full example_answers = False" "replied example_answers" "joined example_answers" "start_answers example_answers = example_env"
  by (simp_all add: example_answers_def)

lemma example_start_call:
  "ffi_call example_api example_answers t (Meta_start_v1 1) example_world = (example_started, \<lparr>status = META_OK, out_handle = None, out = None\<rparr>)"
  by (simp add: meta_start_v1_def with_handle_def handle_of_def update_handle_def command_def check_lifecycle_def
    worker_start_def example_start plain_reply_def put_handle_def example_started_def)

lemma example_stop_call:
  "ffi_call example_api example_answers t (Meta_stop_v1 1) example_world = (example_stopped, \<lparr>status = META_OK, out_handle = None, out = None\<rparr>)"
  by (simp add: meta_stop_v1_def with_handle_def handle_of_def update_handle_def shutdown_def check_lifecycle_def
    plain_reply_def put_handle_def example_stopped_def stop_core_def worker_exit_def)

lemma example_destroy_call:
  "ffi_call example_api example_answers t (Meta_destroy_v1 1) example_world = (example_gone, \<lparr>status = META_OK, out_handle = None, out = None\<rparr>)"
  by (simp add: meta_destroy_v1_def with_handle_def handle_of_def shutdown_def check_lifecycle_def
    plain_reply_def example_gone_def stop_core_def worker_exit_def)

lemma example_started_reachable: "ffi_reachable example_api example_started"
  using ffi_reachable_call [OF example_world_reachable, of "Meta_start_v1 1" example_answers 0] by (simp only: example_start_call available.simps fst_conv simp_thms)

lemma example_send: "worker_step example_api example_started (put_handle 1 (example_handle\<lparr>core := example_core\<lparr>lifecycle := True\<rparr>, running := True, receiver := [[69, 0]]\<rparr>) example_started)"
  using worker_step.Send [of example_started 1 "example_handle\<lparr>core := example_core\<lparr>lifecycle := True\<rparr>, running := True\<rparr>" example_api "[69, 0]"]
  by (simp add: example_started_def)

lemma example_queued_reachable: "ffi_reachable example_api example_queued"
proof -
  let ?h = "example_handle\<lparr>core := example_core\<lparr>lifecycle := True\<rparr>, running := True, receiver := [[69, 0]]\<rparr>"
  let ?w = "put_handle 1 ?h example_started"
  have "worker_step example_api ?w (put_handle 1 (?h\<lparr>receiver := [[69, 0], [69, 1]]\<rparr>) ?w)"
    using worker_step.Send [of ?w 1 ?h example_api "[69, 1]"] by simp
  moreover have "put_handle 1 (?h\<lparr>receiver := [[69, 0], [69, 1]]\<rparr>) ?w = example_queued"
    by (simp add: put_handle_def example_started_def example_queued_def)
  ultimately have "ffi_step example_api ?w example_queued" using ffi_step.Worker by (simp only:)
  with ffi_step.Worker [OF example_send] have "(ffi_step example_api)\<^sup>*\<^sup>* example_started example_queued"
    by (rule converse_rtranclp_into_rtranclp [OF _ r_into_rtranclp])
  then show ?thesis using ffi_reachable_steps example_started_reachable by blast
qed

text \<open>What holds of the contract for good holds of every later state of the interface.\<close>

lemma retired_run: "ffi_reachable A w \<Longrightarrow> (ffi_step A)\<^sup>*\<^sup>* w w' \<Longrightarrow> retired i (abs_world w) \<Longrightarrow> retired i (abs_world w')"
  by (rule ffi_stable [where P = "retired i"]) (rule retired_any)

lemma used_run: "ffi_reachable A w \<Longrightarrow> (ffi_step A)\<^sup>*\<^sup>* w w' \<Longrightarrow> used i (abs_world w) \<Longrightarrow> used i (abs_world w')"
  by (rule ffi_stable [where P = "used i"]) (rule used_any)

lemma drained_run:
  assumes "ffi_reachable A w" and "(ffi_step A)\<^sup>*\<^sup>* w w'" and "\<And>p ps. p # ps \<in> Q \<Longrightarrow> ps \<in> Q" and "drained i Q (abs_world w)"
  shows "drained i Q (abs_world w')"
  using assms(2,1,4) by (rule ffi_stable [where P = "drained i Q", rotated]) (rule drained_any [OF assms(3)])

lemma destroy_next_id: "next_id (fst (meta_destroy_v1 E t i w)) = next_id w"
proof -
  have "next_id (fst (with_handle w i (\<lambda>h. case shutdown E w t h of (h, Inl e) \<Rightarrow> (put_handle i h w, Err e)
      | (h, Inr _) \<Rightarrow> (w\<lparr>handles := (handles w)(i := None)\<rparr>, Ok META_OK)))) = next_id w"
    by (simp add: with_handle_def split: outcome.splits sum.splits prod.splits)
  then show ?thesis unfolding meta_destroy_v1_def by (metis boundary_world plain_reply_fst prod.collapse)
qed

section \<open>Properties\<close>

text \<open>C1: Every call of the interface does what the header promises. From the initial state, whatever calls
  the host makes on any threads, whatever the workers do between them and whatever the environment
  answers, each call of \<^verbatim>\<open>meta_rust.h\<close> is a step of the contract between the abstractions of the states
  before and after it, with the status, handle and buffer it returns.\<close>

theorem ffi_refines_contract:
  assumes "ffi_reachable A w" and "available A c"
  shows "contract_step (android A) (sizeof_hooks A) t c (abs_world w) (snd (ffi_call A E t c w))
           (abs_world (fst (ffi_call A E t c w)))"
  using call_contract [OF assms] .

theorem ffi_refines_contract_witness:
  "contract_step False 32 0 (Meta_start_v1 1) (abs_world example_world) \<lparr>status = META_OK, out_handle = None, out = None\<rparr>
     (abs_world example_started)"
  using ffi_refines_contract [OF example_world_reachable, of "Meta_start_v1 1" 0 example_answers]
  by (simp only: example_start_call example_api_simps available.simps fst_conv snd_conv simp_thms)

text \<open>C19: Between calls the workers do only what the contract allows: they queue packets behind those that
  wait, on handles that were started and not joined, and a handle may stop by itself.\<close>

theorem worker_refines_contract:
  assumes "ffi_reachable A w" and "worker_step A w w'"
  shows "contract_env (abs_world w) (abs_world w')"
  using worker_sim [OF assms(2) ffi_reachable_ok [OF assms(1)]] .

theorem worker_refines_contract_witness:
  "contract_env (abs_world example_started)
     (abs_world (put_handle 1 (example_handle\<lparr>core := example_core\<lparr>lifecycle := True\<rparr>, running := True, receiver := [[69, 0]]\<rparr>) example_started))"
  by (rule worker_refines_contract [OF example_started_reachable example_send])

text \<open>C3: Destroyed handles never become valid again: after a successful destroy, whatever runs in between,
  every call that names the handle fails.\<close>

theorem destroyed_handle_stays_invalid:
  assumes w: "ffi_reachable A w" and d: "ffi_call A E t (Meta_destroy_v1 i) w = (v, r)" "status r = META_OK"
    and run: "(ffi_step A)\<^sup>*\<^sup>* v w'" and c: "call_handle c = Some i" "available A c"
  shows "status (snd (ffi_call A E' t' c w')) = META_ERROR"
proof -
  have v: "ffi_reachable A v" using ffi_reachable_call [OF w, of "Meta_destroy_v1 i" E t] d(1) by simp
  have "contract_step (android A) (sizeof_hooks A) t (Meta_destroy_v1 i) (abs_world w) r (abs_world v)"
    using call_contract [OF w, of "Meta_destroy_v1 i" t E] d(1) by simp
  then have "live (abs_world v) i = None" "i < next_id w"
    using d(2) ffi_live_issued [OF w, of i] by (cases rule: contract_step.cases; auto simp: META_defs)+
  moreover have "next_id v = next_id w" using d(1) destroy_next_id [of E t i w] by simp
  ultimately have "retired i (abs_world v)" by (simp add: retired_def)
  then have "retired i (abs_world w')" using retired_run [OF v run] by blast
  then show ?thesis using contract_dead [OF call_contract [OF ffi_reachable_steps [OF v run] c(2)] c(1)] by (simp add: retired_def)
qed

theorem destroyed_handle_stays_invalid_witness:
  "status (snd (ffi_call example_api example_answers 5 (Meta_snapshot_v1 1 \<lparr>buffer = None, capacity = 0, out_length = Some 0\<rparr>)
     (fst (ffi_call example_api example_answers 0 example_create example_gone)))) = META_ERROR"
proof (rule destroyed_handle_stays_invalid [OF example_world_reachable example_destroy_call])
  show "(ffi_step example_api)\<^sup>*\<^sup>* example_gone (fst (ffi_call example_api example_answers 0 example_create example_gone))"
    by (rule r_into_rtranclp, rule ffi_step.Call) (simp add: example_create_def)
qed simp_all

text \<open>C20: Starting is allowed once: after a start that succeeded, whatever runs in between, starting the
  same handle again fails.\<close>

theorem start_succeeds_once:
  assumes w: "ffi_reachable A w" and s: "ffi_call A E t (Meta_start_v1 i) w = (v, r)" "status r = META_OK"
    and run: "(ffi_step A)\<^sup>*\<^sup>* v w'"
  shows "status (snd (ffi_call A E' t' (Meta_start_v1 i) w')) = META_ERROR"
proof -
  have v: "ffi_reachable A v" using ffi_reachable_call [OF w, of "Meta_start_v1 i" E t] s(1) by simp
  have "contract_step (android A) (sizeof_hooks A) t (Meta_start_v1 i) (abs_world w) r (abs_world v)"
    using call_contract [OF w, of "Meta_start_v1 i" t E] s(1) by simp
  then have "used i (abs_world v)" using s(2) ffi_live_issued [OF w, of i]
    by (cases rule: contract_step.cases) (auto simp: META_defs used_def)
  then have "used i (abs_world w')" using used_run [OF v run] by blast
  with call_contract [OF ffi_reachable_steps [OF v run], of "Meta_start_v1 i" t' E'] show ?thesis
    using contract_no_restart by fastforce
qed

theorem start_succeeds_once_witness:
  "status (snd (ffi_call example_api example_answers 3 (Meta_start_v1 1)
     (fst (ffi_call example_api example_answers 0 (Meta_stop_v1 1) example_started)))) = META_ERROR"
proof (rule start_succeeds_once [OF example_world_reachable example_start_call])
  show "(ffi_step example_api)\<^sup>*\<^sup>* example_started (fst (ffi_call example_api example_answers 0 (Meta_stop_v1 1) example_started))"
    by (rule r_into_rtranclp, rule ffi_step.Call) simp
qed simp

text \<open>C22: No lifecycle function runs inside a callback: called on a thread that is in a callback of the host,
  create, start, stop, destroy, network-changed and set-fd report an error and change nothing but the
  error text of that thread.\<close>

theorem lifecycle_in_callback_refused:
  assumes "lifecycle_call c" and "callback w t"
  shows "\<exists>e r. ffi_call A E t c w = (set_error t e w, r) \<and> status r = META_ERROR"
  using lifecycle_refused [OF assms] .

theorem lifecycle_in_callback_refused_witness:
  "\<exists>e r. ffi_call example_api example_answers 7 (Meta_stop_v1 1) (fst (scope_enter 7 example_started))
     = (set_error 7 e (fst (scope_enter 7 example_started)), r) \<and> status r = META_ERROR"
  by (rule lifecycle_in_callback_refused) (simp_all add: scope_enter_def)

subsection \<open>Reading packets\<close>

lemma read_queue_head:
  assumes "abs_queue h = p # ps"
  obtains h' where "read_queue h = Ok (Some (h', p))" "abs_queue h' = p # ps" "abs_queue (h'\<lparr>pending := None\<rparr>) = ps"
    "packet_queue_enabled h' = packet_queue_enabled h" "channel_open h' = channel_open h"
proof (cases "pending h")
  case None
  then have "receiver h = p # ps" using assms by (simp add: abs_queue_def)
  then show thesis using None that [of "h\<lparr>pending := Some p, receiver := ps\<rparr>"] by (simp add: read_queue_def abs_queue_def)
next
  case (Some q)
  then show thesis using assms that [of h] by (simp add: read_queue_def abs_queue_def)
qed

text \<open>What the host finds in its buffer after a call.\<close>

definition received :: "meta_reply \<Rightarrow> bytes" where
  "received r = (case out r of None \<Rightarrow> [] | Some b \<Rightarrow> (case buffer b of None \<Rightarrow> [] | Some m \<Rightarrow> take (the (out_length b)) m))"

lemma read_head:
  assumes h: "handles w i = Some h" "\<not> poisoned w" "packet_queue_enabled h" "abs_queue h = p # ps"
    and b: "buffer b = Some m" "out_length b \<noteq> None" "length p \<le> capacity b"
  obtains h' r where "meta_read_packet_v1 t i b w = (put_handle i h' w, r)" "status r = META_OK" "received r = p"
    "abs_queue h' = ps" "packet_queue_enabled h'" "channel_open h' = channel_open h"
proof -
  obtain h' where h': "read_queue h = Ok (Some (h', p))" "abs_queue (h'\<lparr>pending := None\<rparr>) = ps"
    "packet_queue_enabled h'" "channel_open h' = channel_open h"
    using read_queue_head [OF h(4)] h(3) by metis
  obtain b' where "ffi_output p (b\<lparr>out_length := Some 0\<rparr>) = (b', Inr META_OK)"
    "buffer b' = Some (p @ drop (length p) m)" "out_length b' = Some (length p)"
    using b by (auto simp: ffi_output_def Let_def)
  then show thesis
    using that [of "h'\<lparr>pending := None\<rparr>" "\<lparr>status = META_OK, out_handle = None, out = Some b'\<rparr>"] h h' b
    by (simp add: meta_read_packet_v1_def handle_of_def check_packet_queue_def buffer_reply_def received_def)
qed

lemma read_small:
  assumes h: "handles w i = Some h" "\<not> poisoned w" "packet_queue_enabled h" "abs_queue h = p # ps"
    and b: "out_length b \<noteq> None" "capacity b < length p"
  obtains h' where "meta_read_packet_v1 t i b w
      = (put_handle i h' w, \<lparr>status = META_BUFFER_TOO_SMALL, out_handle = None, out = Some (b\<lparr>out_length := Some (length p)\<rparr>)\<rparr>)"
    "abs_queue h' = p # ps" "packet_queue_enabled h'"
proof -
  obtain h' where h': "read_queue h = Ok (Some (h', p))" "abs_queue h' = p # ps" "packet_queue_enabled h'"
    using read_queue_head [OF h(4)] h(3) by metis
  then show thesis
    using that [of h'] h b by (simp add: meta_read_packet_v1_def handle_of_def check_packet_queue_def buffer_reply_def ffi_output_def META_defs)
qed

lemma read_none:
  assumes "handles w i = Some h" "\<not> poisoned w" "packet_queue_enabled h" "channel_open h" "abs_queue h = []" "out_length b \<noteq> None"
  shows "meta_read_packet_v1 t i b w = (w, \<lparr>status = META_WOULD_BLOCK, out_handle = None, out = Some (b\<lparr>out_length := Some 0\<rparr>)\<rparr>)"
  using assms by (auto simp: meta_read_packet_v1_def handle_of_def check_packet_queue_def buffer_reply_def read_queue_def abs_queue_def split: option.splits)

text \<open>The loop of a host after \<^verbatim>\<open>packet_ready\<close>: read until nothing is queued.\<close>

fun host_drain :: "nat \<Rightarrow> thread \<Rightarrow> meta_handle \<Rightarrow> out_buffer \<Rightarrow> ('r, 'x) world \<Rightarrow> (('r, 'x) world \<times> bytes list) option" where
  "host_drain 0 t i b w = None"
| "host_drain (Suc n) t i b w =
     (let (w', r) = meta_read_packet_v1 t i b w
      in if status r = META_WOULD_BLOCK then Some (w', [])
         else if status r = META_OK then map_option (\<lambda>(v, ps). (v, received r # ps)) (host_drain n t i b w')
         else None)"

lemma put_handle_twice [simp]: "put_handle i h (put_handle i h' w) = put_handle i h w"
  by (simp add: put_handle_def)

lemma put_handle_poisoned [simp]: "poisoned (put_handle i h w) = poisoned w"
  by (simp add: put_handle_def)

lemma drain_queue:
  assumes "handles w i = Some h" "\<not> poisoned w" "packet_queue_enabled h" "channel_open h"
    and "buffer b = Some m" "out_length b \<noteq> None" "\<forall>p\<in>set (abs_queue h). length p \<le> capacity b"
  shows "\<exists>h'. host_drain (Suc (length (abs_queue h))) t i b w = Some (put_handle i h' w, abs_queue h) \<and> abs_queue h' = []"
  using assms
proof (induction "abs_queue h" arbitrary: h w)
  case Nil
  then show ?case using read_none [of w i h b t] put_handle_same [of w i h] by (intro exI [of _ h]) (simp add: META_defs)
next
  case (Cons p ps)
  obtain h' r where r: "meta_read_packet_v1 t i b w = (put_handle i h' w, r)" "status r = META_OK" "received r = p"
    "abs_queue h' = ps" "packet_queue_enabled h'" "channel_open h' = channel_open h"
  proof (rule read_head [OF Cons.prems(1-3) Cons.hyps(2) [symmetric] Cons.prems(5,6)])
    show "length p \<le> capacity b" using Cons.prems(7) Cons.hyps(2) [symmetric] by simp
  qed
  then have "\<exists>h''. host_drain (Suc (length ps)) t i b (put_handle i h' w) = Some (put_handle i h'' (put_handle i h' w), ps) \<and> abs_queue h'' = []"
    using Cons.hyps(1) [of h' "put_handle i h' w"] Cons.prems Cons.hyps(2) [symmetric] by simp
  then show ?case using r Cons.hyps(2) [symmetric] by (auto simp: META_defs simp del: host_drain.simps(2) simp: host_drain.simps(2) [of "Suc (length ps)"])
qed


lemma str_bytes_inject: "str_bytes a = str_bytes b \<longleftrightarrow> a = b"
proof -
  have "c = d" if "word_of_nat (of_char c) = (word_of_nat (of_char d) :: 8 word)" for c d :: char
  proof -
    have "unat (word_of_nat (of_char x) :: 8 word) = of_char x" for x :: char
      by (simp add: unat_of_nat take_bit_nat_def)
    then have "(of_char c :: nat) = of_char d" using that by metis
    then show ?thesis by simp
  qed
  then have "inj (\<lambda>c. word_of_nat (of_char c) :: 8 word)" by (auto intro: injI)
  then show ?thesis by (simp add: str_bytes_def inj_map_eq_map)
qed

lemma contract_errors:
  assumes "contract_step a z t c s r s'"
  shows "(\<forall>u. u \<noteq> t \<longrightarrow> errors s' u = errors s u) \<and> (status r \<noteq> META_ERROR \<longrightarrow> errors s' t = errors s t)"
  using assms by cases auto

text \<open>A handle whose packet calls were withdrawn, or that is gone, never gets them back.\<close>

definition no_packets :: "meta_handle \<Rightarrow> contract \<Rightarrow> bool" where
  "no_packets h s \<longleftrightarrow> h \<in> issued s \<and> (\<forall>x. live s h = Some x \<longrightarrow> \<not> packet_calls x)"

lemma no_packets_step:
  assumes "no_packets h s" and "contract_step a z t c s r s'"
  shows "no_packets h s'"
  using assms(2)
proof cases
  case (Error l' i' e)
  have "\<not> packet_calls x" if "l' h = Some x" for x
    using degraded [OF Error(4) that] assms(1) by (metis degrades_def no_packets_def)
  then show ?thesis unfolding Error(1) using Error(5) assms(1) by (auto simp: no_packets_def)
next
  case (ReadPacket i x p ps b' b)
  then show ?thesis using assms(1) by (cases "status r = META_OK") (auto simp: no_packets_def)
qed (use assms(1) in \<open>auto simp: no_packets_def\<close>)

lemma no_packets_env: "contract_env s s' \<Longrightarrow> no_packets h s \<Longrightarrow> no_packets h s'"
  by (cases rule: contract_env.cases) (auto simp: no_packets_def split: if_splits)

lemma no_packets_any: "no_packets h s \<Longrightarrow> contract_any a z s s' \<Longrightarrow> no_packets h s'"
  unfolding contract_any_def using no_packets_step no_packets_env by blast

lemma no_packets_run: "ffi_reachable A w \<Longrightarrow> (ffi_step A)\<^sup>*\<^sup>* w w' \<Longrightarrow> no_packets i (abs_world w) \<Longrightarrow> no_packets i (abs_world w')"
  by (rule ffi_stable [where P = "no_packets i"]) (rule no_packets_any)

lemma contract_packet_refused:
  assumes "contract_step a z t c s r s'" and "c = Meta_read_packet_v1 i b \<or> c = Meta_write_packet_v1 i d" and "no_packets i s"
  shows "status r = META_ERROR"
  using assms by (cases rule: contract_step.cases) (auto simp: no_packets_def)

lemma null_retired: "ffi_reachable A w \<Longrightarrow> retired 0 (abs_world w)"
proof -
  assume "ffi_reachable A w"
  then have "(ffi_step A)\<^sup>*\<^sup>* initial_world w" by (simp add: ffi_reachable_def)
  moreover have "ffi_reachable A initial_world" by (simp add: ffi_reachable_def)
  moreover have "retired 0 (abs_world initial_world)" by (simp add: retired_def initial_world_def)
  ultimately show ?thesis using retired_run by blast
qed

text \<open>C24: Errors are per thread. A call leaves the error text of every other thread alone, and changes that
  of its own thread only when it reports an error; \<^verbatim>\<open>meta_error_v1\<close> then gives the host the whole text,
  in a buffer that holds it, and changes nothing.\<close>

theorem errors_are_thread_local:
  assumes w: "ffi_reachable A w" "available A c" and c: "ffi_call A E t c w = (w', r)"
    and b: "buffer b = Some m" "out_length b \<noteq> None" "length (error_text w' t) \<le> capacity b"
  shows "(\<forall>u. u \<noteq> t \<longrightarrow> error_text w' u = error_text w u) \<and> (status r \<noteq> META_ERROR \<longrightarrow> error_text w' t = error_text w t)
    \<and> (\<exists>r'. meta_error_v1 t b w' = (w', r') \<and> status r' = META_OK \<and> received r' = str_bytes (error_text w' t))"
proof (intro conjI)
  have "contract_step (android A) (sizeof_hooks A) t c (abs_world w) r (abs_world w')"
    using call_contract [OF w, of t E] c by simp
  from contract_errors [OF this]
  show "\<forall>u. u \<noteq> t \<longrightarrow> error_text w' u = error_text w u" "status r \<noteq> META_ERROR \<longrightarrow> error_text w' t = error_text w t"
    by (simp_all add: str_bytes_inject)
  show "\<exists>r'. meta_error_v1 t b w' = (w', r') \<and> status r' = META_OK \<and> received r' = str_bytes (error_text w' t)"
    using b by (cases "error_text w' t") (auto simp: meta_error_v1_def buffer_reply_def ffi_output_def Let_def received_def str_bytes_def)
qed

theorem errors_are_thread_local_witness:
  "\<exists>r'. meta_error_v1 4 \<lparr>buffer = Some (replicate 64 0), capacity = 64, out_length = Some 0\<rparr> (set_error 4 ''invalid or destroyed core handle'' example_world)
      = (set_error 4 ''invalid or destroyed core handle'' example_world, r')
    \<and> status r' = META_OK \<and> received r' = str_bytes ''invalid or destroyed core handle''"
proof -
  have "ffi_call example_api example_answers 4 (Meta_start_v1 9) example_world
      = (set_error 4 ''invalid or destroyed core handle'' example_world, \<lparr>status = META_ERROR, out_handle = None, out = None\<rparr>)"
    by (simp add: meta_start_v1_def with_handle_def handle_of_def plain_reply_def ok_or_def)
  from errors_are_thread_local [OF example_world_reachable _ this, of "\<lparr>buffer = Some (replicate 64 0), capacity = 64, out_length = Some 0\<rparr>"]
  show ?thesis by (simp add: set_error_def)
qed

lemma example_queued_handle:
  "handles example_queued 1 = Some (example_handle\<lparr>core := example_core\<lparr>lifecycle := True\<rparr>, running := True, receiver := [[69, 0], [69, 1]]\<rparr>)"
  by (simp add: example_queued_def)

text \<open>C4: The host can drain the packets. With a buffer that holds every waiting packet, reading until
  \<^verbatim>\<open>META_WOULD_BLOCK\<close> ends after one read more than there are packets, hands over all of them in the
  order they were queued, and leaves the queue empty.\<close>

theorem drain_delivers_all:
  assumes "handles w i = Some h" "\<not> poisoned w" "packet_queue_enabled h" "channel_open h"
    and "buffer b = Some m" "out_length b \<noteq> None" "\<forall>p\<in>set (abs_queue h). length p \<le> capacity b"
  shows "\<exists>h'. host_drain (Suc (length (abs_queue h))) t i b w = Some (put_handle i h' w, abs_queue h) \<and> abs_queue h' = []"
  using drain_queue [OF assms] .

theorem drain_delivers_all_witness:
  "\<exists>h'. host_drain 3 0 1 \<lparr>buffer = Some (replicate 9 0), capacity = 9, out_length = Some 0\<rparr> example_queued
     = Some (put_handle 1 h' example_queued, [[69, 0], [69, 1]]) \<and> abs_queue h' = []"
  using drain_delivers_all [OF example_queued_handle, of "\<lparr>buffer = Some (replicate 9 0), capacity = 9, out_length = Some 0\<rparr>" "replicate 9 0" 0]
  by (simp add: abs_queue_def example_queued_def del: host_drain.simps add: eval_nat_numeral)

text \<open>C25: A size query loses nothing. Reading into a null buffer of no capacity reports the length of the
  oldest packet and keeps it; reading again with that capacity delivers it and takes it off the queue.\<close>

theorem size_query_then_read:
  assumes h: "handles w i = Some h" "\<not> poisoned w" "packet_queue_enabled h" "abs_queue h = p # ps" and p: "p \<noteq> []"
  shows "\<exists>w1 r1 h2 r2.
      meta_read_packet_v1 t i \<lparr>buffer = None, capacity = 0, out_length = Some n\<rparr> w = (w1, r1)
      \<and> status r1 = META_BUFFER_TOO_SMALL \<and> out r1 = Some \<lparr>buffer = None, capacity = 0, out_length = Some (length p)\<rparr>
      \<and> meta_read_packet_v1 t i \<lparr>buffer = Some m, capacity = length p, out_length = Some n\<rparr> w1 = (put_handle i h2 w, r2)
      \<and> status r2 = META_OK \<and> received r2 = p \<and> abs_queue h2 = ps"
proof -
  obtain h1 where 1: "meta_read_packet_v1 t i \<lparr>buffer = None, capacity = 0, out_length = Some n\<rparr> w
      = (put_handle i h1 w, \<lparr>status = META_BUFFER_TOO_SMALL, out_handle = None, out = Some \<lparr>buffer = None, capacity = 0, out_length = Some (length p)\<rparr>\<rparr>)"
    and h1: "abs_queue h1 = p # ps" "packet_queue_enabled h1"
    by (rule read_small [OF h, of "\<lparr>buffer = None, capacity = 0, out_length = Some n\<rparr>" t]) (use p in simp_all)
  obtain h2 r2 where "meta_read_packet_v1 t i \<lparr>buffer = Some m, capacity = length p, out_length = Some n\<rparr> (put_handle i h1 w) = (put_handle i h2 w, r2)"
    "status r2 = META_OK" "received r2 = p" "abs_queue h2 = ps"
    by (rule read_head [of "put_handle i h1 w" i h1 p ps "\<lparr>buffer = Some m, capacity = length p, out_length = Some n\<rparr>" m t]) (use h h1 in simp_all)
  with 1 show ?thesis by auto
qed

theorem size_query_then_read_witness:
  "\<exists>w1 r1 h2 r2.
      meta_read_packet_v1 0 1 \<lparr>buffer = None, capacity = 0, out_length = Some 0\<rparr> example_queued = (w1, r1)
      \<and> status r1 = META_BUFFER_TOO_SMALL \<and> out r1 = Some \<lparr>buffer = None, capacity = 0, out_length = Some (length [69, 0 :: 8 word])\<rparr>
      \<and> meta_read_packet_v1 0 1 \<lparr>buffer = Some [1, 2], capacity = length [69, 0 :: 8 word], out_length = Some 0\<rparr> w1 = (put_handle 1 h2 example_queued, r2)
      \<and> status r2 = META_OK \<and> received r2 = [69, 0] \<and> abs_queue h2 = [[69, 1]]"
  by (rule size_query_then_read [OF example_queued_handle]) (simp_all add: example_queued_def abs_queue_def)

text \<open>The example on Android, with hooks of the announced size.\<close>

definition example_android :: "(unit, unit, unit) api" where
  "example_android = example_api\<lparr>android := True\<rparr>"

definition example_hooks :: meta_hooks_v1 where
  "example_hooks = \<lparr>hooks_size = 32, version = 1, hooks_context = 0, protect_socket = Some 4096, packet_ready = Some 8192\<rparr>"

definition example_hooked :: "(unit, unit) handle" where
  "example_hooked = example_handle\<lparr>hooks := \<lparr>hook_context = 0, protect = Some 4096, notify = Some 8192\<rparr>\<rparr>"

definition example_hooked_world :: "(unit, unit) world" where
  "example_hooked_world = initial_world\<lparr>handles := [1 \<mapsto> example_hooked], next_id := 2\<rparr>"

lemma example_hooked_created:
  "ffi_call example_android example_answers 0 (Meta_create_v1 \<lparr>data = None, data_length = 0\<rparr> (Some example_hooks) (Some 0)) initial_world
     = (example_hooked_world, \<lparr>status = META_OK, out_handle = Some 1, out = None\<rparr>)"
proof -
  have "config_parse no_crates (no_libs\<lparr>yaml_config := \<lambda>_. Inr example_config\<rparr>) [] = Inr example_config"
    by (simp add: config_parse_def example_normal example_valid)
  then show ?thesis
    by (simp add: meta_create_v1_def create_body_def check_lifecycle_def initial_world_def ffi_input_def example_android_def
      example_api_def read_hooks_def host_hooks_new_def example_hooks_def handle_new_def example_core_new put_handle_def
      example_hooked_world_def example_hooked_def example_handle_def sizeof_hooks_def example_answers_def)
qed

lemma example_hooked_reachable: "ffi_reachable example_android example_hooked_world"
proof -
  have "ffi_reachable example_android initial_world" by (simp add: ffi_reachable_def)
  from ffi_reachable_call [OF this, of "Meta_create_v1 \<lparr>data = None, data_length = 0\<rparr> (Some example_hooks) (Some 0)" example_answers 0]
  show ?thesis by (simp only: example_hooked_created available.simps fst_conv simp_thms)
qed

lemma example_fd_call:
  "ffi_call example_android example_answers 0 (Meta_set_tun_fd_v1 1 5) example_hooked_world
     = (put_handle 1 (example_hooked\<lparr>packet_queue_enabled := False, channel_open := False\<rparr>) example_hooked_world,
        \<lparr>status = META_OK, out_handle = None, out = None\<rparr>)"
  by (simp add: meta_set_tun_fd_v1_def with_handle_def handle_of_def update_handle_def command_def check_lifecycle_def
    worker_set_fd_def plain_reply_def example_hooked_world_def example_hooked_def example_answers_def initial_world_def)

lemma create_failed:
  assumes "meta_create_v1 A E t b hk (Some h0) w = (v, r)" and "status r \<noteq> META_OK"
  shows "out_handle r = Some 0" "handles v = handles w"
proof -
  have *: "out_handle r = Some 0 \<and> handles v = handles w"
    if "create_body A E t b hk w = (u, x)" "\<forall>i. x \<noteq> Ok i" "handles u = handles w" for u x
    using that assms(1) by (cases x) (auto simp: meta_create_v1_def)
  have "out_handle r = Some 0 \<and> handles v = handles w"
  proof (cases rule: create_body_cases [of A E t b hk w])
    case (Refused x)
    then show ?thesis using * by blast
  next
    case (Failed x u)
    then show ?thesis using * by blast
  next
    case (Created cfg hh h)
    then show ?thesis using assms by (auto simp: meta_create_v1_def)
  qed
  then show "out_handle r = Some 0" "handles v = handles w" by simp_all
qed

text \<open>C21: A stopped handle is silent. After a successful stop, whatever runs in between, the worker of the
  handle stays joined, so none of its callbacks runs, its core stays stopped, and the packets that are
  left for the host are the last ones of those that waited at the stop: none is added.\<close>

theorem stop_silences_handle:
  assumes w: "ffi_reachable A w" and s: "ffi_call A E t (Meta_stop_v1 i) w = (v, r)" "status r = META_OK"
    and run: "(ffi_step A)\<^sup>*\<^sup>* v w'" and h: "handles v i = Some h" "handles w' i = Some h'"
  shows "\<not> worker h' \<and> \<not> running h' \<and> stop (core h') \<and> (\<exists>ps. abs_queue h = ps @ abs_queue h')"
proof -
  let ?Q = "{q. \<exists>ps. abs_queue h = ps @ q}"
  have v: "ffi_reachable A v" using ffi_reachable_call [OF w, of "Meta_stop_v1 i" E t] s(1) by simp
  have "contract_step (android A) (sizeof_hooks A) t (Meta_stop_v1 i) (abs_world w) r (abs_world v)"
    using call_contract [OF w, of "Meta_stop_v1 i" t E] s(1) by simp
  then have "\<forall>x. live (abs_world v) i = Some x \<longrightarrow> quiet x" using s(2) by (cases rule: contract_step.cases) (auto simp: META_defs)
  then have "quiet (abs_handle h)" using h(1) by simp
  then have "drained i ?Q (abs_world v)" using ffi_live_issued [OF v h(1)] h(1) by (simp add: drained_def abs_handle_def)
  then have "drained i ?Q (abs_world w')" by (rule drained_run [OF v run, rotated]) auto
  then have "quiet (abs_handle h')" "packets (abs_handle h') \<in> ?Q" using h(2) by (simp_all add: drained_def)
  then have "\<not> worker h'" "\<exists>ps. abs_queue h = ps @ abs_queue h'" by (simp_all add: abs_handle_def)
  moreover have "handle_ok A h'" using world_ok_handle [OF ffi_reachable_ok [OF ffi_reachable_steps [OF v run]] h(2)] .
  ultimately show ?thesis by (simp add: handle_ok_def)
qed

theorem stop_silences_handle_witness:
  "\<exists>h'. handles example_stopped 1 = Some h' \<and> \<not> worker h' \<and> \<not> running h' \<and> stop (core h') \<and> (\<exists>ps. [] = ps @ abs_queue h')"
proof -
  obtain h where h: "handles example_stopped 1 = Some h" "abs_queue h = []" by (simp add: example_stopped_def abs_queue_def)
  from stop_silences_handle [OF example_world_reachable example_stop_call [of 0] _ rtranclp.rtrancl_refl h(1) h(1)] h show ?thesis by simp
qed

text \<open>After a TUN descriptor was set on a handle, packet calls on it fail for good.\<close>

theorem tun_fd_ends_packet_calls:
  assumes w: "ffi_reachable A w" "android A" and s: "ffi_call A E t (Meta_set_tun_fd_v1 i fd) w = (v, r)" "status r = META_OK"
    and run: "(ffi_step A)\<^sup>*\<^sup>* v w'" and c: "c = Meta_read_packet_v1 i b \<or> c = Meta_write_packet_v1 i d"
  shows "status (snd (ffi_call A E' t' c w')) = META_ERROR"
proof -
  have v: "ffi_reachable A v" using ffi_reachable_call [OF w(1), of "Meta_set_tun_fd_v1 i fd" E t] s(1) w(2) by simp
  have "contract_step (android A) (sizeof_hooks A) t (Meta_set_tun_fd_v1 i fd) (abs_world w) r (abs_world v)"
    using call_contract [OF w(1), of "Meta_set_tun_fd_v1 i fd" t E] s(1) w(2) by simp
  then have "no_packets i (abs_world v)" using s(2) ffi_live_issued [OF w(1), of i]
    by (cases rule: contract_step.cases) (auto simp: META_defs no_packets_def)
  then have "no_packets i (abs_world w')" by (rule no_packets_run [OF v run])
  moreover have "available A c" using c by auto
  ultimately show ?thesis
    using contract_packet_refused [OF call_contract [OF ffi_reachable_steps [OF v run]] c] by blast
qed

theorem tun_fd_ends_packet_calls_witness:
  "status (snd (ffi_call example_android example_answers 0 (Meta_read_packet_v1 1 \<lparr>buffer = Some [0], capacity = 1, out_length = Some 0\<rparr>)
     (put_handle 1 (example_hooked\<lparr>packet_queue_enabled := False, channel_open := False\<rparr>) example_hooked_world))) = META_ERROR"
  by (rule tun_fd_ends_packet_calls [OF example_hooked_reachable _ example_fd_call _ rtranclp.rtrancl_refl])
    (simp_all add: example_android_def)

text \<open>A failed create yields no usable handle: the handle cell holds zero, no handle comes alive, and a
  call that names the handle zero fails in every reachable state.\<close>

theorem failed_create_gives_null:
  assumes w: "ffi_reachable A w" and c: "ffi_call A E t (Meta_create_v1 cfg hk (Some h0)) w = (v, r)" "status r \<noteq> META_OK"
  shows "out_handle r = Some 0 \<and> handles v = handles w
    \<and> (\<forall>E' t' c. call_handle c = Some 0 \<longrightarrow> available A c \<longrightarrow> status (snd (ffi_call A E' t' c v)) = META_ERROR)"
proof (intro conjI allI impI)
  show "out_handle r = Some 0" "handles v = handles w" using create_failed c by simp_all
  fix E' t' c assume "call_handle c = Some 0" "available A c"
  moreover have v: "ffi_reachable A v" using ffi_reachable_call [OF w, of "Meta_create_v1 cfg hk (Some h0)" E t] assms(2) by simp
  ultimately show "status (snd (ffi_call A E' t' c v)) = META_ERROR"
    using contract_dead [OF call_contract] null_retired [OF v] by (metis retired_def)
qed

theorem failed_create_gives_null_witness:
  "status (snd (ffi_call example_api example_answers 3 (Meta_start_v1 0) (set_error 0 ''invalid input buffer'' example_world))) = META_ERROR"
proof -
  have "ffi_call example_api example_answers 0 (Meta_create_v1 \<lparr>data = None, data_length = 5\<rparr> None (Some 7)) example_world
      = (set_error 0 ''invalid input buffer'' example_world, \<lparr>status = META_ERROR, out_handle = Some 0, out = None\<rparr>)"
    by (simp add: meta_create_v1_def create_body_def check_lifecycle_def ffi_input_def)
  from failed_create_gives_null [OF example_world_reachable this] show ?thesis
    by (auto simp: META_defs simp del: ffi_call.simps)
qed

text \<open>C23: The interface is bounded. In every reachable state there are at most sixteen handles, each numbered
  below the counter and none zero, each queue between a handle and its worker holds at most 256 packets,
  and the core of each handle is one the core operations can produce.\<close>

theorem interface_bounded:
  assumes "ffi_reachable A w"
  shows "finite (dom (handles w)) \<and> card (dom (handles w)) \<le> 16
    \<and> (\<forall>i h. handles w i = Some h \<longrightarrow>
         0 < i \<and> i < next_id w \<and> length (receiver h) \<le> 256 \<and> length (abs_queue h) \<le> 257
         \<and> (case packet_input h of None \<Rightarrow> True | Some q \<Rightarrow> length q \<le> 256)
         \<and> core_reachable (crates_of A) (libs_of A) (core h))"
proof (intro conjI allI impI)
  note ok = ffi_reachable_ok [OF assms]
  show "finite (dom (handles w))" "card (dom (handles w)) \<le> 16" using ok by (simp_all add: world_ok_def)
  fix i h assume h: "handles w i = Some h"
  have "handle_ok A h" by (rule world_ok_handle [OF ok h])
  then show "length (receiver h) \<le> 256" "case packet_input h of None \<Rightarrow> True | Some q \<Rightarrow> length q \<le> 256"
    "core_reachable (crates_of A) (libs_of A) (core h)" "length (abs_queue h) \<le> 257"
    by (simp_all add: handle_ok_def abs_queue_def split: option.splits)
  show "i < next_id w" by (rule ffi_live_issued [OF assms h])
  have "i \<noteq> 0" using null_retired [OF assms] h by (auto simp: retired_def)
  then show "0 < i" by (simp add: word_neq_0_conv)
qed

theorem interface_bounded_witness: "card (dom (handles example_queued)) \<le> 16"
  using interface_bounded [OF example_queued_reachable] by blast

end
