(* ===== verification/Framing.thy ===== *)
theory Framing
  imports Text
begin

text \<open>
  What the stream transports share: the answers of a poll, the socket below as the pieces it will deliver,
  and messages that are cut out of a buffer of received bytes.
\<close>

section \<open>Polls\<close>

datatype 'a poll = Pending | Failed error | Ready 'a

text \<open>
  The pieces a socket is going to deliver; an empty piece is the end of the stream. A read takes at most as
  many bytes as its buffer holds, and has to wait when nothing has arrived.
\<close>

definition chunk_read :: "nat \<Rightarrow> bytes list \<Rightarrow> bytes poll \<times> bytes list" where
  "chunk_read n cs =
     (case cs of
        [] \<Rightarrow> (Pending, [])
      | c # cs \<Rightarrow> (Ready (take n c), if n < length c then drop n c # cs else cs))"

definition chunk_size :: "bytes list \<Rightarrow> nat" where
  "chunk_size cs = length (concat cs) + length cs"

lemma chunk_read_size: "chunk_read n cs = (Ready b, cs') \<Longrightarrow> 0 < n \<Longrightarrow> chunk_size cs' < chunk_size cs"
  by (auto simp: chunk_read_def chunk_size_def split: list.splits if_splits)

lemma chunk_read_cases:
  obtains "cs = []" and "chunk_read n cs = (Pending, [])"
  | b cs' where "chunk_read n cs = (Ready b, cs')" and "concat cs = b @ concat cs'" and "cs \<noteq> []"
proof (cases cs)
  case (Cons c ds)
  then have "chunk_read n cs = (Ready (take n c), if n < length c then drop n c # ds else ds)" by (simp add: chunk_read_def)
  moreover have "concat cs = take n c @ concat (if n < length c then drop n c # ds else ds)" by (simp add: Cons)
  ultimately show ?thesis using that(2) Cons by blast
qed (use that in \<open>simp add: chunk_read_def\<close>)

text \<open>The bytes a read delivered.\<close>

fun poll_bytes :: "bytes poll \<Rightarrow> bytes" where
  "poll_bytes (Ready bs) = bs"
| "poll_bytes _ = []"

section \<open>Messages in a buffer\<close>

datatype 'm parsed = Incomplete | Malformed error | Message 'm bytes

text \<open>
  A parser reads a complete message at the front of the buffer and leaves the rest, and waits as long as
  only a part of it has arrived.
\<close>

locale framing =
  fixes enc :: "'e \<Rightarrow> bytes" and parse :: "bytes \<Rightarrow> 'm parsed" and msg :: "'e \<Rightarrow> 'm" and valid :: "'e \<Rightarrow> bool"
  assumes parse_enc: "valid e \<Longrightarrow> parse (enc e @ r) = Message (msg e) r"
    and parse_part: "valid e \<Longrightarrow> strict_prefix p (enc e) \<Longrightarrow> parse p = Incomplete"
    and enc_nonempty: "valid e \<Longrightarrow> enc e \<noteq> []"
begin

lemma parse_nil: "valid e \<Longrightarrow> parse [] = Incomplete"
  using parse_part [of e "[]"] enc_nonempty [of e] by (simp add: strict_prefix_def)

text \<open>The beginning of an encoding, as it is left over when a stream is cut anywhere.\<close>

definition torn :: "bytes \<Rightarrow> bool" where
  "torn part \<longleftrightarrow> part = [] \<or> (\<exists>e. valid e \<and> strict_prefix part (enc e))"

lemma parse_buffer:
  assumes "list_all valid es" and "buf @ later = concat (map enc es) @ part" and "torn part" and "parse [] = Incomplete"
  obtains "parse buf = Incomplete" and "es = [] \<or> strict_prefix buf (enc (hd es))"
  | e es' rest where "es = e # es'" and "parse buf = Message (msg e) rest" and "buf = enc e @ rest"
      and "rest @ later = concat (map enc es') @ part"
proof (cases es)
  case Nil
  then have p: "prefix buf part" using assms(2) by (metis append_Nil concat.simps(1) list.simps(8) prefixI)
  have "parse buf = Incomplete"
  proof (cases "part = []")
    case False
    then obtain e where "valid e" "strict_prefix part (enc e)" using assms(3) by (auto simp: torn_def)
    then show ?thesis using parse_part p by (metis prefix_order.le_less_trans)
  qed (use p assms(4) in simp)
  then show ?thesis using Nil that(1) by simp
next
  case (Cons e es')
  let ?t = "concat (map enc es') @ part"
  have v: "valid e" and eq: "buf @ later = enc e @ ?t" using assms(1,2) Cons by simp_all
  from eq obtain us where us: "buf = enc e @ us \<and> us @ later = ?t \<or> buf @ us = enc e \<and> later = us @ ?t"
    unfolding append_eq_append_conv2 by blast
  consider rest where "buf = enc e @ rest" "rest @ later = ?t" | us where "enc e = buf @ us" "us \<noteq> []"
  proof (cases "us = []")
    case True
    then show ?thesis using us that(1) [of "[]"] by auto
  next
    case False
    then show ?thesis using us that by metis
  qed
  then show ?thesis
  proof cases
    case 1
    then show ?thesis using that(2) Cons v parse_enc by blast
  next
    case 2
    then have "strict_prefix buf (enc e)" by (auto simp: strict_prefix_def)
    then show ?thesis using that(1) Cons v parse_part by auto
  qed
qed

text \<open>When everything has arrived and the buffer holds no complete message, no message is left.\<close>

lemma incomplete_done:
  assumes "buf = concat (map enc es) @ part" and "es = [] \<or> strict_prefix buf (enc (hd es))"
  shows "es = []"
  using assms prefix_length_less by (cases es) fastforce+

end

end
