(* ===== verification/Grpc.thy ===== *)
theory Grpc
  imports Config Framing
begin

text \<open>
  The gRPC transport (\<^verbatim>\<open>crates/protocol/src/grpc.rs\<close>): the variable-length integers and frames of the Gun protocol,
  and the stream above an HTTP/2 body. The HTTP/2 library is an argument: what it answers to each poll.
\<close>

unbundle bit_operations_syntax

section \<open>Definitions\<close>

subsection \<open>Frames\<close>

text \<open>A \<^verbatim>\<open>usize\<close> is a natural number below \<open>2 ^ 64\<close>; the decoder shifts into a 64-bit word.\<close>

function varint :: "nat \<Rightarrow> bytes" where
  "varint v =
     (let b = word_of_nat (v mod 128); v = v div 128
      in if v \<noteq> 0 then (b OR 0x80) # varint v else [b])"
  by pat_completeness auto
termination
  by (relation "measure id") auto

declare varint.simps [simp del]

fun decode_loop :: "nat \<Rightarrow> u64 \<Rightarrow> bytes \<Rightarrow> (u64 \<times> nat) option" where
  "decode_loop i v [] = None"
| "decode_loop i v (b # bs) =
     (let v = v OR push_bit (i * 7) (ucast (b AND 0x7f))
      in if b AND 0x80 = 0 then Some (v, i + 1) else decode_loop (i + 1) v bs)"

definition decode_varint :: "bytes \<Rightarrow> (u64 \<times> nat) option" where
  "decode_varint bs = decode_loop 0 0 (take 10 bs)"

definition gun_frame :: "bytes \<Rightarrow> bytes" where
  "gun_frame bs =
     (let proto = [0x0a] @ varint (length bs) @ bs
      in [0] @ be_bytes 4 (length proto) @ proto)"

definition parse_gun :: "bytes \<Rightarrow> bytes parsed" where
  "parse_gun b =
     (if length b < 5 then Incomplete
      else if b ! 0 \<noteq> 0 then Malformed ''compressed gRPC messages are unsupported''
      else
        let len = be_val (take 4 (drop 1 b))
        in if 16 * 1024 * 1024 < len then Malformed ''oversized gRPC message''
           else if length b < 5 + len then Incomplete
           else
             let proto = take len (drop 5 b)
             in if proto = [] \<or> hd proto \<noteq> 0x0a then Malformed ''invalid Gun protobuf message''
                else
                  (case decode_varint (tl proto) of
                     None \<Rightarrow> Malformed ''invalid Gun protobuf length''
                   | Some (n, k) \<Rightarrow>
                       if size_add (1 + k) (unat n) \<noteq> length proto then Malformed ''invalid Gun protobuf payload''
                       else Message (drop (1 + k) proto) (drop (5 + len) b)))"

subsection \<open>The stream\<close>

record grpc_stream =
  has_body :: bool
  g_incoming :: bytes
  g_payload :: bytes
  g_payload_at :: nat
  g_closed :: bool

definition grpc_new :: grpc_stream where
  "grpc_new = \<lparr>has_body = False, g_incoming = [], g_payload = [], g_payload_at = 0, g_closed = False\<rparr>"

text \<open>
  What the library answers: the response (nothing yet, an error or a status), and the data that has arrived,
  where \<open>None\<close> is the end of the body.
\<close>

type_synonym body = "(error + bytes option) list"

definition g_deliver :: "nat \<Rightarrow> grpc_stream \<Rightarrow> bytes poll \<times> grpc_stream" where
  "g_deliver n g =
     (let k = min n (length (g_payload g) - g_payload_at g)
      in (Ready (take k (drop (g_payload_at g) (g_payload g))), g\<lparr>g_payload_at := g_payload_at g + k\<rparr>))"

lemma parse_gun_size: "parse_gun b = Message m r \<Longrightarrow> length r < length b"
  by (auto simp: parse_gun_def Let_def split: if_splits option.splits)

function grpc_read :: "nat \<Rightarrow> (error + nat) option \<Rightarrow> body \<Rightarrow> grpc_stream \<Rightarrow> bytes poll \<times> body \<times> grpc_stream" where
  "grpc_read n resp ds g =
     (if g_payload_at g < length (g_payload g) then let (p, g) = g_deliver n g in (p, ds, g)
      else
        (case parse_gun (g_incoming g) of
           Malformed e \<Rightarrow> (Failed e, ds, g)
         | Message m r \<Rightarrow> grpc_read n resp ds (g\<lparr>g_payload := m, g_payload_at := 0, g_incoming := r\<rparr>)
         | Incomplete \<Rightarrow>
             if g_closed g then (Ready [], ds, g)
             else if \<not> has_body g \<and> resp = None then (Pending, ds, g)
             else if \<not> has_body g \<and> isl (the resp) then (Failed (projl (the resp)), ds, g)
             else if \<not> has_body g \<and> \<not> (200 \<le> projr (the resp) \<and> projr (the resp) < 300) then (Failed ''gRPC transport rejected'', ds, g)
             else
               (case ds of
                  [] \<Rightarrow> (Pending, ds, g\<lparr>has_body := True\<rparr>)
                | Inl e # ds \<Rightarrow> (Failed e, ds, g\<lparr>has_body := True\<rparr>)
                | Inr None # ds \<Rightarrow> grpc_read n resp ds (g\<lparr>has_body := True, g_closed := True\<rparr>)
                | Inr (Some d) # ds \<Rightarrow> grpc_read n resp ds (g\<lparr>has_body := True, g_incoming := g_incoming g @ d\<rparr>))))"
  by pat_completeness auto
termination
  by (relation "measures [\<lambda>(n, resp, ds, g). length ds, \<lambda>(n, resp, ds, g). length (g_incoming g)]") (auto dest: parse_gun_size)

declare grpc_read.simps [simp del]

text \<open>
  A write hands one frame to the library when it has the capacity for it: the capacity at first, and what the
  polls for more of it answer (nothing when the stream is gone), each with the capacity after it.
\<close>

fun capacity_loop :: "nat \<Rightarrow> nat \<Rightarrow> (error + nat) option list \<Rightarrow> unit poll" where
  "capacity_loop cap need [] = (if need \<le> cap then Ready () else Pending)"
| "capacity_loop cap need (c # cs) =
     (if need \<le> cap then Ready ()
      else (case c of
              None \<Rightarrow> Failed ''broken pipe''
            | Some (Inl e) \<Rightarrow> Failed e
            | Some (Inr cap) \<Rightarrow> capacity_loop cap need cs))"

definition grpc_write :: "nat \<Rightarrow> (error + nat) option list \<Rightarrow> unit result \<Rightarrow> bytes \<Rightarrow> nat poll \<times> bytes" where
  "grpc_write cap cs sent bs =
     (if bs = [] then (Ready 0, [])
      else
        let n = min (length bs) (16 * 1024); frame = gun_frame (take n bs)
        in (case capacity_loop cap (length frame) cs of
              Pending \<Rightarrow> (Pending, [])
            | Failed e \<Rightarrow> (Failed e, [])
            | Ready _ \<Rightarrow> (case sent of Inl e \<Rightarrow> (Failed e, []) | Inr _ \<Rightarrow> (Ready n, frame))))"

text \<open>Closing sends an empty last piece.\<close>

definition grpc_shutdown :: "unit result \<Rightarrow> unit poll" where
  "grpc_shutdown sent = (case sent of Inl e \<Rightarrow> Failed e | Inr _ \<Rightarrow> Ready ())"

section \<open>Frames are read back\<close>

lemma septet_bits:
  assumes "n < 128"
  shows "unat ((word_of_nat n OR 0x80 :: u8) AND 0x7f) = n" "(word_of_nat n OR 0x80 :: u8) AND 0x80 \<noteq> 0"
    "unat ((word_of_nat n :: u8) AND 0x7f) = n" "(word_of_nat n :: u8) AND 0x80 = 0"
proof -
  have "list_all (\<lambda>n. unat ((word_of_nat n OR 0x80 :: u8) AND 0x7f) = n \<and> (word_of_nat n OR 0x80 :: u8) AND 0x80 \<noteq> 0 \<and>
      unat ((word_of_nat n :: u8) AND 0x7f) = n \<and> (word_of_nat n :: u8) AND 0x80 = 0) [0..<128]"
    by code_simp
  then show "unat ((word_of_nat n OR 0x80 :: u8) AND 0x7f) = n" "(word_of_nat n OR 0x80 :: u8) AND 0x80 \<noteq> 0"
      "unat ((word_of_nat n :: u8) AND 0x7f) = n" "(word_of_nat n :: u8) AND 0x80 = 0"
    using assms by (auto simp: list_all_iff)
qed

lemma unat_septet_or:
  fixes acc :: u64
  assumes "unat acc < 2 ^ m" and "n < 128" and "n * 2 ^ m + unat acc < 2 ^ 64" and "unat (b AND 0x7f :: u8) = n"
  shows "unat (acc OR push_bit m (ucast (b AND 0x7f))) = n * 2 ^ m + unat acc"
proof -
  have u: "unat (ucast (b AND 0x7f) :: u64) = n" using unat_ucast_up [where 'k = 8 and 'l = 64, of "b AND 0x7f"] assms(4) by simp
  show ?thesis
    using unat_push_or [of acc m "ucast (b AND 0x7f) :: u64"] assms(1,3) u by (simp add: or.commute)
qed

lemma varint_nonempty: "varint v \<noteq> []"
  by (simp add: varint.simps [of v] Let_def)

lemma decode_loop_varint:
  assumes "unat acc < 2 ^ (i * 7)" and "v * 2 ^ (i * 7) + unat acc < 2 ^ 64"
  shows "\<exists>w. decode_loop i acc (varint v @ r) = Some (w, i + length (varint v)) \<and> unat w = v * 2 ^ (i * 7) + unat acc"
  using assms
proof (induction v arbitrary: i acc rule: varint.induct)
  case (1 v)
  let ?n = "v mod 128" and ?q = "v div 128"
  have v: "v * 2 ^ (i * 7) = ?q * 2 ^ ((i + 1) * 7) + ?n * 2 ^ (i * 7)"
  proof -
    have "v * 2 ^ (i * 7) = (?q * 128 + ?n) * 2 ^ (i * 7)" by simp
    then show ?thesis by (simp only: distrib_right) (simp add: power_add)
  qed
  have n: "?n * 2 ^ (i * 7) + unat acc < 2 ^ 64" using 1(3) v by linarith
  have lim: "?n * 2 ^ (i * 7) + unat acc < 2 ^ ((i + 1) * 7)"
  proof -
    have "(?n + 1) * 2 ^ (i * 7) \<le> 128 * 2 ^ (i * 7)" by (intro mult_right_mono) auto
    moreover have "(?n + 1) * 2 ^ (i * 7) = ?n * 2 ^ (i * 7) + 2 ^ (i * 7)" by simp
    moreover have "128 * 2 ^ (i * 7) = (2 :: nat) ^ ((i + 1) * 7)" by (simp add: power_add)
    ultimately show ?thesis using 1(2) by linarith
  qed
  show ?case
  proof (cases "?q = 0")
    case True
    let ?b = "word_of_nat ?n :: u8"
    have e: "varint v = [?b]" using True by (simp add: varint.simps [of v] Let_def)
    have "unat (acc OR push_bit (i * 7) (ucast (?b AND 0x7f))) = ?n * 2 ^ (i * 7) + unat acc"
      by (rule unat_septet_or [OF 1(2) _ n]) (simp_all add: septet_bits)
    moreover have "v * 2 ^ (i * 7) = ?n * 2 ^ (i * 7)" using v by (simp only: True mult_zero_left add_0)
    moreover have "?b AND 0x80 = 0" by (rule septet_bits) simp
    ultimately show ?thesis
      unfolding e by (intro exI [of _ "acc OR push_bit (i * 7) (ucast (?b AND 0x7f))"]) (simp only: append_Cons decode_loop.simps Let_def, simp)
  next
    case False
    let ?b = "word_of_nat ?n OR 0x80 :: u8"
    let ?acc = "acc OR push_bit (i * 7) (ucast (?b AND 0x7f))"
    have e: "varint v = ?b # varint ?q" using False by (simp add: varint.simps [of v] Let_def)
    have a: "unat ?acc = ?n * 2 ^ (i * 7) + unat acc"
      by (rule unat_septet_or [OF 1(2) _ n]) (simp_all add: septet_bits)
    have "unat ?acc < 2 ^ ((i + 1) * 7)" using lim a by simp
    moreover have "?q * 2 ^ ((i + 1) * 7) + unat ?acc < 2 ^ 64" using 1(3) v a by linarith
    ultimately obtain w where "decode_loop (i + 1) ?acc (varint ?q @ r) = Some (w, i + 1 + length (varint ?q))"
        "unat w = ?q * 2 ^ ((i + 1) * 7) + unat ?acc"
      using 1(1) [OF refl refl False] by blast
    then show ?thesis using septet_bits(2) [of ?n] v a unfolding e by (intro exI [of _ w]) (simp add: Let_def)
  qed
qed

lemma length_varint: "v < 2 ^ (7 * n) \<Longrightarrow> 0 < n \<Longrightarrow> length (varint v) \<le> n"
proof (induction n arbitrary: v)
  case (Suc n)
  then show ?case
  proof (cases "v div 128 = 0")
    case False
    then have "v div 128 < 2 ^ (7 * n)" "0 < n" using Suc.prems(1) by (auto simp: power_add less_mult_imp_div_less intro: ccontr)
    then show ?thesis using Suc.IH [of "v div 128"] False by (simp add: varint.simps [of v] Let_def)
  qed (simp add: varint.simps [of v] Let_def)
qed simp

lemma decode_varint_varint:
  assumes "v < 2 ^ 64"
  shows "\<exists>w. decode_varint (varint v @ r) = Some (w, length (varint v)) \<and> unat w = v"
proof -
  have "length (varint v) \<le> 10" using assms by (intro length_varint) auto
  then have "take 10 (varint v @ r) = varint v @ take (10 - length (varint v)) r" by simp
  then show ?thesis using decode_loop_varint [of 0 0 v] assms by (simp add: decode_varint_def)
qed

definition gun_proto :: "bytes \<Rightarrow> bytes" where
  "gun_proto m = [0x0a] @ varint (length m) @ m"

text \<open>Messages below the limit of the parser.\<close>

definition gun_ok :: "bytes \<Rightarrow> bool" where
  "gun_ok m \<longleftrightarrow> length (gun_proto m) \<le> 16 * 1024 * 1024"

lemma gun_frame_proto: "gun_frame m = 0 # be_bytes 4 (length (gun_proto m)) @ gun_proto m"
  by (simp add: gun_frame_def gun_proto_def)

lemma gun_length: "gun_ok m \<Longrightarrow> be_val (be_bytes 4 (length (gun_proto m))) = length (gun_proto m)"
  by (simp add: gun_ok_def)

lemma parse_gun_frame:
  assumes "gun_ok m"
  shows "parse_gun (gun_frame m @ r) = Message m r"
proof -
  let ?p = "gun_proto m"
  have len: "length m < 2 ^ 64" using assms by (simp add: gun_ok_def gun_proto_def)
  obtain w where w: "decode_varint (varint (length m) @ m) = Some (w, length (varint (length m)))" "unat w = length m"
    using decode_varint_varint [OF len] by blast
  have v: "be_val (take 4 (drop 1 (gun_frame m @ r))) = length ?p" using gun_length [OF assms] by (simp add: gun_frame_proto)
  have d: "drop 5 (gun_frame m @ r) = ?p @ r" by (simp add: gun_frame_proto)
  have "drop (5 + length ?p) (gun_frame m @ r) = drop (length ?p) (drop 5 (gun_frame m @ r))" by (simp only: drop_drop add.commute)
  then have p: "take (length ?p) (drop 5 (gun_frame m @ r)) = ?p" "drop (5 + length ?p) (gun_frame m @ r) = r"
    "length (gun_frame m @ r) = 5 + length ?p + length r" "(gun_frame m @ r) ! 0 = 0"
    by (simp_all only: d) (simp_all add: gun_frame_proto)
  have "size_add (1 + length (varint (length m))) (unat w) = length ?p"
    using assms w(2) by (subst size_add_exact) (simp_all add: gun_ok_def gun_proto_def)
  moreover have "tl ?p = varint (length m) @ m" "hd ?p = 0x0a" "?p \<noteq> []" "drop (1 + length (varint (length m))) ?p = m"
    by (simp_all add: gun_proto_def)
  ultimately show ?thesis
    using v p w(1) assms by (simp add: parse_gun_def Let_def gun_ok_def)
qed

lemma parse_gun_part:
  assumes "gun_ok m" and "strict_prefix p (gun_frame m)"
  shows "parse_gun p = Incomplete"
proof -
  obtain q where q: "gun_frame m = p @ q" "q \<noteq> []" using assms(2) by (auto simp: strict_prefix_def prefix_def)
  show ?thesis
  proof (cases "length p < 5")
    case True
    then show ?thesis by (simp add: parse_gun_def)
  next
    case False
    have "length p < 5 + length (gun_proto m)"
    proof -
      have "length (gun_frame m) = length p + length q" by (simp add: q(1))
      then show ?thesis using q(2) by (cases q) (auto simp: gun_frame_proto)
    qed
    moreover have "take 5 (p @ q) = take 5 p" using False by simp
    then have "take 5 p = 0 # be_bytes 4 (length (gun_proto m))" by (simp add: gun_frame_proto flip: q(1))
    then have "p ! 0 = 0" "take 4 (drop 1 p) = be_bytes 4 (length (gun_proto m))"
      using nth_take [of 0 5 p] drop_take [of 1 5 p] by simp_all
    ultimately show ?thesis using False gun_length [OF assms(1)] assms(1) by (simp add: parse_gun_def gun_ok_def)
  qed
qed

interpretation gun: framing gun_frame parse_gun "\<lambda>m. m" gun_ok
  by unfold_locales (auto simp: parse_gun_frame parse_gun_part, simp add: gun_frame_proto)

section \<open>Reading messages\<close>

text \<open>A body without errors: pieces of data, and at most the end at its end.\<close>

fun body_ok :: "body \<Rightarrow> bool" where
  "body_ok [] = True"
| "body_ok (Inl e # ds) = False"
| "body_ok (Inr None # ds) = (ds = [])"
| "body_ok (Inr (Some d) # ds) = body_ok ds"

fun body_bytes :: "body \<Rightarrow> bytes" where
  "body_bytes [] = []"
| "body_bytes (Inr (Some d) # ds) = d @ body_bytes ds"
| "body_bytes (_ # ds) = body_bytes ds"

lemma body_bytes_append [simp]: "body_bytes (ds @ es) = body_bytes ds @ body_bytes es"
  by (induction ds rule: body_bytes.induct) auto

definition g_reading :: "grpc_stream \<Rightarrow> body \<Rightarrow> bytes \<Rightarrow> bool" where
  "g_reading g later out \<longleftrightarrow> g_payload_at g \<le> length (g_payload g) \<and> body_ok later \<and> (g_closed g \<longrightarrow> later = []) \<and>
     (\<not> has_body g \<longrightarrow> g_payload_at g = length (g_payload g) \<and> g_incoming g = [] \<and> \<not> g_closed g) \<and>
     (\<exists>ms part. list_all gun_ok ms \<and> gun.torn part \<and> g_incoming g @ body_bytes later = concat (map gun_frame ms) @ part \<and>
        out = drop (g_payload_at g) (g_payload g) @ concat ms)"

fun resp_success :: "(error + nat) option \<Rightarrow> bool" where
  "resp_success None = True"
| "resp_success (Some (Inl e)) = False"
| "resp_success (Some (Inr s)) = (200 \<le> s \<and> s < 300)"

text \<open>What a read may answer, given whether the response was there before it and what it finds of it.\<close>

definition g_result :: "bool \<Rightarrow> (error + nat) option \<Rightarrow> body \<Rightarrow> bytes \<Rightarrow> bytes poll \<times> body \<times> grpc_stream \<Rightarrow> bool" where
  "g_result b resp es out r \<longleftrightarrow>
     (case r of (p, ds, g) \<Rightarrow> (has_body g \<or> \<not> b \<and> resp = None) \<and> (\<exists>out'. g_reading g (ds @ es) out' \<and>
        (case p of
           Pending \<Rightarrow> out' = out \<and> (has_body g \<longrightarrow> ds = [] \<and> (es = [] \<longrightarrow> out = []))
         | Failed e \<Rightarrow> False
         | Ready bs \<Rightarrow> out = bs @ out' \<and> (bs = [] \<longrightarrow> out' = []))))"

lemma g_result_body: "g_result True resp es out r \<Longrightarrow> g_result b resp es out r"
  by (auto simp: g_result_def split: prod.splits)

lemma g_deliver_reading:
  assumes "g_reading g later out" and "g_payload_at g < length (g_payload g)" and "0 < n" and "g_deliver n g = (p, g')"
  shows "has_body g' \<and> (\<exists>bs out'. p = Ready bs \<and> bs \<noteq> [] \<and> out = bs @ out' \<and> g_reading g' later out')"
proof -
  let ?k = "min n (length (g_payload g) - g_payload_at g)" and ?d = "drop (g_payload_at g) (g_payload g)"
  have p: "p = Ready (take ?k ?d)" "g' = g\<lparr>g_payload_at := g_payload_at g + ?k\<rparr>" using assms(4) by (auto simp: g_deliver_def Let_def)
  obtain ms part where ms: "list_all gun_ok ms" "g_incoming g @ body_bytes later = concat (map gun_frame ms) @ part" "out = ?d @ concat ms"
    and torn: "gun.torn part"
    using assms(1) by (auto simp: g_reading_def)
  have "take ?k ?d \<noteq> []" using assms(2,3) by simp
  moreover have "?d = take ?k ?d @ drop (g_payload_at g + ?k) (g_payload g)" by (metis append_take_drop_id drop_drop add.commute)
  then have "out = take ?k ?d @ drop (g_payload_at g + ?k) (g_payload g) @ concat ms" using ms(3) by (metis append.assoc)
  moreover have "g_reading g' later (drop (g_payload_at g + ?k) (g_payload g) @ concat ms)"
    unfolding g_reading_def p(2) using assms(1,2) ms torn by (intro conjI exI [of _ ms] exI [of _ part]) (auto simp: g_reading_def)
  moreover have "has_body g'" using assms(1,2) p(2) by (auto simp: g_reading_def)
  ultimately show ?thesis using p(1) by blast
qed

lemma grpc_read_reading:
  assumes "g_reading g (ds @ es) out" and "0 < n" and "has_body g \<or> resp_success resp"
  shows "g_result (has_body g) resp es out (grpc_read n resp ds g)"
  using assms
proof (induction n resp ds g rule: grpc_read.induct)
  case (1 n resp ds g)
  show ?case
  proof (cases "g_payload_at g < length (g_payload g)")
    case True
    obtain p g' where d: "g_deliver n g = (p, g')" by fastforce
    have "grpc_read n resp ds g = (p, ds, g')" using True d by (simp add: grpc_read.simps [of n resp ds g])
    then show ?thesis using g_deliver_reading [OF 1(4) True 1(5) d] by (auto simp: g_result_def)
  next
    case at: False
    obtain ms part where ms: "list_all gun_ok ms" "g_incoming g @ body_bytes ds @ body_bytes es = concat (map gun_frame ms) @ part" "out = concat ms"
      and torn: "gun.torn part"
      using 1(4) at by (auto simp: g_reading_def)
    have nil: "parse_gun [] = Incomplete" by (simp add: parse_gun_def)
    show ?thesis
    proof (cases rule: gun.parse_buffer [OF ms(1,2) torn nil])
      case (2 m ms' rest)
      let ?g = "g\<lparr>g_payload := m, g_payload_at := 0, g_incoming := rest\<rparr>"
      have e: "grpc_read n resp ds g = grpc_read n resp ds ?g" using at 2(2) by (simp add: grpc_read.simps [of n resp ds g])
      have "has_body g" using 2(3) 1(4) by (auto simp: g_reading_def gun_frame_def)
      moreover have "g_reading ?g (ds @ es) out" using 2(1,4) ms(1,3) 1(4) torn calculation by (auto simp: g_reading_def)
      ultimately show ?thesis unfolding e using 1(3) [OF at 2(2)] 1(5,6) by simp
    next
      case a: 1
      have fin: "out = []" if "ds = []" "es = []"
        using gun.incomplete_done [OF _ a(2), of part] ms(2,3) that by simp
      show ?thesis
      proof (cases "g_closed g")
        case True
        then have "ds = []" "es = []" using 1(4) by (auto simp: g_reading_def)
        then have "out = []" by (rule fin)
        moreover have "grpc_read n resp ds g = (Ready [], ds, g)" using at a(1) True by (simp add: grpc_read.simps [of n resp ds g])
        ultimately show ?thesis using True 1(4) by (auto simp: g_result_def g_reading_def)
      next
        case op: False
        show ?thesis
        proof (cases "has_body g \<or> resp \<noteq> None")
          case False
          then have "grpc_read n resp ds g = (Pending, ds, g)" using at a(1) op by (subst grpc_read.simps) simp
          then show ?thesis using 1(4) False by (simp add: g_result_def)
        next
          case b: True
          then have b: "\<not> (\<not> has_body g \<and> resp = None)" "\<not> (\<not> has_body g \<and> isl (the resp))"
              "\<not> (\<not> has_body g \<and> \<not> (200 \<le> projr (the resp) \<and> projr (the resp) < 300))"
            using 1(6) by (cases resp rule: resp_success.cases; auto)+
          let ?g = "g\<lparr>has_body := True\<rparr>"
          have e: "grpc_read n resp ds g =
               (case ds of
                  [] \<Rightarrow> (Pending, ds, ?g)
                | Inl e # ds \<Rightarrow> (Failed e, ds, ?g)
                | Inr None # ds \<Rightarrow> grpc_read n resp ds (?g\<lparr>g_closed := True\<rparr>)
                | Inr (Some d) # ds \<Rightarrow> grpc_read n resp ds (?g\<lparr>g_incoming := g_incoming g @ d\<rparr>))"
            by (subst grpc_read.simps) (simp only: at a(1) op b parsed.case if_False grpc_stream.simps)
          show ?thesis
          proof (cases ds)
            case Nil
            then show ?thesis using e 1(4) fin by (auto simp: g_result_def g_reading_def)
          next
            case (Cons x ds')
            then have "x \<noteq> Inl e" for e using 1(4) by (auto simp: g_reading_def)
            then obtain b where x: "x = Inr b" by (cases x) auto
            show ?thesis
            proof (cases b)
              case None
              then have "ds' @ es = []" using 1(4) Cons x by (simp add: g_reading_def)
              then have "g_reading (?g\<lparr>g_closed := True\<rparr>) (ds' @ es) out" using 1(4) Cons x None by (simp add: g_reading_def)
              then have "g_result True resp es out (grpc_read n resp ds' (?g\<lparr>g_closed := True\<rparr>))"
                using 1(1) [OF at a(1) op b Cons x None] 1(5) by simp
              then show ?thesis unfolding e using Cons x None by (simp add: g_result_body)
            next
              case (Some d)
              let ?h = "?g\<lparr>g_incoming := g_incoming g @ d\<rparr>"
              have "g_reading ?h (ds' @ es) out" using 1(4) op Cons x Some by (simp add: g_reading_def)
              then have "g_result True resp es out (grpc_read n resp ds' ?h)" using 1(2) [OF at a(1) op b Cons x Some] 1(5) by simp
              then show ?thesis unfolding e using Cons x Some by (simp add: g_result_body)
            qed
          qed
        qed
      qed
    qed
  qed
qed

text \<open>Reads one after another; before each of them the response and more of its body may have arrived.\<close>

fun grpc_run :: "(nat \<times> (error + nat) option \<times> body) list \<Rightarrow> body \<Rightarrow> grpc_stream \<Rightarrow> bytes poll list \<times> body \<times> grpc_stream" where
  "grpc_run [] ds g = ([], ds, g)"
| "grpc_run ((n, resp, as) # ps) ds g =
     (let (p, ds, g) = grpc_read n resp (ds @ as) g; (rs, ds, g) = grpc_run ps ds g in (p # rs, ds, g))"

definition read_ok :: "nat \<times> (error + nat) option \<times> body \<Rightarrow> bool" where
  "read_ok q \<longleftrightarrow> (case q of (n, resp, as) \<Rightarrow> 0 < n \<and> resp_success resp)"

definition arriving :: "(nat \<times> (error + nat) option \<times> body) list \<Rightarrow> body" where
  "arriving ps = concat (map (\<lambda>(n, resp, as). as) ps)"

lemma arriving_simps [simp]: "arriving [] = []" "arriving ((n, resp, as) # ps) = as @ arriving ps"
  by (simp_all add: arriving_def)

lemma grpc_run_reading:
  assumes "g_reading g (ds @ arriving ps) out" and "list_all read_ok ps" and "grpc_run ps ds g = (rs, ds', g')"
  shows "(has_body g' \<or> \<not> has_body g \<and> (\<forall>q \<in> set ps. fst (snd q) = None)) \<and>
    (\<exists>out'. g_reading g' ds' out' \<and> out = concat (map poll_bytes rs) @ out' \<and> (Ready [] \<in> set rs \<longrightarrow> out' = []) \<and>
      (\<forall>e. Failed e \<notin> set rs) \<and> (rs \<noteq> [] \<and> last rs = Pending \<and> has_body g' \<longrightarrow> ds' = [] \<and> out' = []))"
  using assms
proof (induction ps arbitrary: ds g out rs)
  case Nil
  then show ?case by auto
next
  case (Cons q ps)
  obtain n resp as where q: "q = (n, resp, as)" by (metis prod_cases3)
  obtain p ds1 g1 where 1: "grpc_read n resp (ds @ as) g = (p, ds1, g1)" by (metis prod_cases3)
  obtain rs2 where 2: "grpc_run ps ds1 g1 = (rs2, ds', g')" "rs = p # rs2" using Cons.prems(3) q 1 by (auto split: prod.splits)
  have "g_result (has_body g) resp (arriving ps) out (p, ds1, g1)"
    using grpc_read_reading [of g "ds @ as" "arriving ps" out n resp] Cons.prems(1,2) q 1 by (simp add: read_ok_def)
  then obtain out1 where o1: "g_reading g1 (ds1 @ arriving ps) out1" "out = poll_bytes p @ out1"
      "p = Ready [] \<longrightarrow> out1 = []" "\<forall>e. p \<noteq> Failed e"
      "p = Pending \<and> has_body g1 \<longrightarrow> ds1 = [] \<and> (arriving ps = [] \<longrightarrow> out1 = [])"
    and b1: "has_body g1 \<or> \<not> has_body g \<and> resp = None"
    by (cases p) (auto simp: g_result_def)
  obtain out2 where o2: "g_reading g' ds' out2" "out1 = concat (map poll_bytes rs2) @ out2" "Ready [] \<in> set rs2 \<longrightarrow> out2 = []"
      "\<forall>e. Failed e \<notin> set rs2" "rs2 \<noteq> [] \<and> last rs2 = Pending \<and> has_body g' \<longrightarrow> ds' = [] \<and> out2 = []"
    and b2: "has_body g' \<or> \<not> has_body g1 \<and> (\<forall>q \<in> set ps. fst (snd q) = None)"
    using Cons.IH [OF o1(1) _ 2(1)] Cons.prems(2) by auto
  have "rs \<noteq> [] \<and> last rs = Pending \<and> has_body g' \<longrightarrow> ds' = [] \<and> out2 = []"
  proof (cases "rs2 = []")
    case True
    then have "ps = []" using 2(1) by (cases ps) (auto split: prod.splits)
    then show ?thesis using 2 o1(5) o2(2) True by auto
  qed (use o2(5) 2(2) in simp)
  then show ?case using o1 o2 b1 b2 2(2) q by (intro conjI exI [of _ out2]) auto
qed

text \<open>C10: A server that answers with success and sends Gun messages is read correctly, however HTTP/2 cuts the body
  into pieces and whenever they and the response arrive; the last message may still be incomplete. The reads deliver
  the payloads in order, empty messages included. They never fail, and an answer without data reports the end only
  after all the payloads, so that every other answer that is ready makes progress. A read waits only while no response
  has arrived, or when every piece that has arrived is used up and every complete message has been delivered.\<close>

theorem grpc_delivers_messages:
  assumes "list_all gun_ok ms" and "body_bytes (arriving ps) = concat (map gun_frame ms) @ part"
    and "part = [] \<or> (\<exists>m. gun_ok m \<and> strict_prefix part (gun_frame m))" and "body_ok (arriving ps)"
    and "list_all read_ok ps" and "grpc_run ps [] grpc_new = (rs, ds, g)"
  shows "\<exists>later. concat ms = concat (map poll_bytes rs) @ later \<and> (Ready [] \<in> set rs \<longrightarrow> later = []) \<and>
    (\<forall>e. Failed e \<notin> set rs) \<and>
    (rs \<noteq> [] \<and> last rs = Pending \<longrightarrow> (\<forall>(n, resp, as) \<in> set ps. resp = None) \<or> ds = [] \<and> later = [])"
proof -
  have "gun.torn part" using assms(3) by (auto simp: gun.torn_def)
  then have "g_reading grpc_new ([] @ arriving ps) (concat ms)" using assms(1,2,4) by (auto simp: g_reading_def grpc_new_def)
  from grpc_run_reading [OF this assms(5,6)] show ?thesis by (fastforce simp: split_beta)
qed

theorem grpc_delivers_messages_witness:
  "\<exists>rs ds g later. grpc_run [(4, None, []), (4, Some (Inr 200), [Inr (Some [0, 0, 0, 0])]), (2, None, [Inr (Some [5, 10, 3, 7, 8, 9]), Inr (Some [0, 0])]), (4, None, []), (4, None, [])]
      [] grpc_new = (rs, ds, g) \<and> [7, 8, 9] = concat (map poll_bytes rs) @ later \<and> (\<forall>e. Failed e \<notin> set rs)"
proof -
  let ?ps = "[(4, None, []), (4, Some (Inr 200), [Inr (Some [0, 0, 0, 0])]), (2, None, [Inr (Some [5, 10, 3, 7, 8, 9]), Inr (Some [0, 0])]), (4, None, []), (4, None, [])]
    :: (nat \<times> (error + nat) option \<times> body) list"
  obtain rs ds g where r: "grpc_run ?ps [] grpc_new = (rs, ds, g)" by (metis prod_cases3)
  have v: "varint (Suc (Suc (Suc 0))) = [3]" by code_simp
  have m: "list_all gun_ok [[7, 8, 9]]" by (simp add: gun_ok_def gun_proto_def v)
  have "be_bytes 4 (Suc (Suc (Suc (Suc (Suc 0))))) = [0, 0, 0, 5]" by code_simp
  then have f: "gun_frame [7, 8, 9] = [0, 0, 0, 0, 5, 10, 3, 7, 8, 9]" by (simp add: gun_frame_def v)
  then have b: "body_bytes (arriving ?ps) = concat (map gun_frame [[7, 8, 9]]) @ [0, 0]" by simp
  have "gun_ok [7, 8, 9] \<and> strict_prefix [0, 0] (gun_frame [7, 8, 9])" using m unfolding f by simp
  then have t: "[0, 0] = [] \<or> (\<exists>m. gun_ok m \<and> strict_prefix [0, 0] (gun_frame m))" by blast
  have "body_ok (arriving ?ps)" "list_all read_ok ?ps" by (simp_all add: read_ok_def)
  from grpc_delivers_messages [OF m b t this r] show ?thesis using r by auto
qed

section \<open>Writing messages\<close>

text \<open>A sequence of writes: the bytes they accepted and the bytes they handed to the library.\<close>

fun grpc_writes :: "(nat \<times> (error + nat) option list \<times> unit result \<times> bytes) list \<Rightarrow> bytes \<times> bytes" where
  "grpc_writes [] = ([], [])"
| "grpc_writes ((cap, cs, sent, bs) # ws) =
     (let (p, f) = grpc_write cap cs sent bs; (acc, fs) = grpc_writes ws
      in ((case p of Ready n \<Rightarrow> take n bs | _ \<Rightarrow> []) @ acc, f @ fs))"

lemma grpc_write_cases:
  obtains n where "grpc_write cap cs sent bs = (Ready n, gun_frame (take n bs))" "0 < n" "n \<le> 16 * 1024" "n \<le> length bs"
  | p where "grpc_write cap cs sent bs = (p, [])" "\<forall>n. p = Ready n \<longrightarrow> bs = [] \<and> n = 0"
proof (cases "bs = []")
  case True
  then show ?thesis using that(2) by (simp add: grpc_write_def)
next
  case False
  let ?n = "min (length bs) (16 * 1024)"
  have w: "grpc_write cap cs sent bs =
      (case capacity_loop cap (length (gun_frame (take ?n bs))) cs of
         Pending \<Rightarrow> (Pending, []) | Failed e \<Rightarrow> (Failed e, [])
       | Ready _ \<Rightarrow> (case sent of Inl e \<Rightarrow> (Failed e, []) | Inr _ \<Rightarrow> (Ready ?n, gun_frame (take ?n bs))))"
    using False by (simp only: grpc_write_def Let_def if_False)
  have n: "0 < ?n" "?n \<le> 16 * 1024" "?n \<le> length bs" using False by auto
  show ?thesis
  proof (cases "capacity_loop cap (length (gun_frame (take ?n bs))) cs")
    case (Ready u)
    then show ?thesis
    proof (cases sent)
      case (Inr v)
      then show ?thesis using that(1) [OF _ n] w Ready by simp
    qed (use that(2) w Ready in simp)
  qed (use that(2) w in simp_all)
qed

lemma varint_length: "length (varint n) \<le> n div 128 + 1"
proof (induction n rule: varint.induct)
  case (1 v)
  have "length (varint v) = (if 0 < v div 128 then Suc (length (varint (v div 128))) else 1)"
    by (subst varint.simps) (simp add: Let_def)
  moreover have "0 < v div 128 \<Longrightarrow> length (varint (v div 128)) \<le> v div 128 div 128 + 1" using 1 by blast
  moreover have "0 < w \<Longrightarrow> w div 128 + 1 \<le> w" for w :: nat by linarith
  ultimately show ?case by (smt (verit) Suc_eq_plus1 add_mono_thms_linordered_semiring(3) le_add2 order_trans)
qed

lemma gun_ok_small: "length m \<le> 16 * 1024 \<Longrightarrow> gun_ok m"
  using varint_length [of "length m"] by (simp add: gun_ok_def gun_proto_def)

text \<open>C14: Whatever writes are made and whatever the library answers, errors and missing capacity included, it is handed
  a sequence of Gun frames whose payloads are exactly the bytes the writes accepted, in order, and each of them is
  within the limit the reader enforces.\<close>

theorem grpc_writes_frames:
  "\<exists>ms. list_all gun_ok ms \<and> grpc_writes ws = (concat ms, concat (map gun_frame ms))"
proof (induction ws)
  case Nil
  then show ?case by (rule exI [of _ "[]"]) simp
next
  case (Cons w ws)
  obtain cap cs sent bs where w: "w = (cap, cs, sent, bs)" by (metis prod_cases4)
  obtain ms where ms: "list_all gun_ok ms" "grpc_writes ws = (concat ms, concat (map gun_frame ms))" using Cons by blast
  show ?case
  proof (cases rule: grpc_write_cases [of cap cs sent bs])
    case (1 n)
    then have "gun_ok (take n bs)" by (intro gun_ok_small) simp
    then show ?thesis using ms w 1(1) by (intro exI [of _ "take n bs # ms"]) simp
  next
    case (2 p)
    then have "(case p of Ready n \<Rightarrow> take n bs | _ \<Rightarrow> []) = []" by (cases p) auto
    then show ?thesis using ms w 2(1) by (intro exI [of _ ms]) simp
  qed
qed

end
