(* ===== verification/GrpcPool.thy ===== *)
theory GrpcPool
  imports Config
begin

text \<open>
  The pool of HTTP/2 connections of the gRPC transport (\<^verbatim>\<open>crates/protocol/src/grpc.rs\<close>). Streams share physical
  connections; each connection counts the streams that use it, and a call of \<^verbatim>\<open>connect\<close> chooses the least loaded one
  or opens a new one. Calls run concurrently and are cut into the steps between their suspension points; the counters
  are shared, so a connection carries the address of its counter.
\<close>

section \<open>Definitions\<close>

record physical =
  phys_id :: u64
  load_at :: nat

text \<open>
  A call of \<^verbatim>\<open>connect\<close>, then the stream it returned: waiting for the lock of its key, at the head of the loop, with
  the connection that was chosen, with its lease while the connection becomes ready, in the handshake of a new
  connection, with the lease on that one, sending its request with the lock released, and open.
\<close>

datatype call_phase =
    Waiting str grpc_options
  | Locked str grpc_options
  | Chosen str grpc_options physical
  | Sharing str grpc_options physical
  | Creating str grpc_options
  | Confirming str grpc_options nat
  | Requesting nat
  | Streaming nat
  | Finished

record grpc_pool =
  physicals :: "str \<rightharpoonup> physical list"
  counters :: "u64 list"
  next_physical :: u64
  calls :: "call_phase list"

definition pool_empty :: grpc_pool where
  "pool_empty = \<lparr>physicals = Map.empty, counters = [], next_physical = 1, calls = []\<rparr>"

definition reuse_least_loaded :: "u64 \<Rightarrow> nat \<Rightarrow> grpc_options \<Rightarrow> bool" where
  "reuse_least_loaded load n opts =
     (if load = 0 then True
      else if 0 < max_connections opts then unat (max_connections opts) \<le> n \<or> load < min_streams opts
      else max_streams opts = 0 \<or> load < max_streams opts)"

fun min_by_key :: "('a \<Rightarrow> u64) \<Rightarrow> 'a list \<Rightarrow> 'a option" where
  "min_by_key f [] = None"
| "min_by_key f (x # xs) = Some (foldl (\<lambda>m y. if f y < f m then y else m) x xs)"

definition pooled :: "str \<Rightarrow> grpc_options \<Rightarrow> grpc_pool \<Rightarrow> physical option" where
  "pooled k opts s =
     (case physicals s k of
        None \<Rightarrow> None
      | Some es \<Rightarrow>
          (case min_by_key (\<lambda>e. counters s ! load_at e) es of
             None \<Rightarrow> None
           | Some e \<Rightarrow> if reuse_least_loaded (counters s ! load_at e) (length es) opts then Some e else None))"

definition remove_physical :: "str \<Rightarrow> u64 \<Rightarrow> grpc_pool \<Rightarrow> grpc_pool" where
  "remove_physical k i s =
     (case physicals s k of
        None \<Rightarrow> s
      | Some es \<Rightarrow>
          let es = filter (\<lambda>e. phys_id e \<noteq> i) es
          in s\<lparr>physicals := (physicals s)(k := if es = [] then None else Some es)\<rparr>)"

definition add_physical :: "str \<Rightarrow> grpc_pool \<Rightarrow> nat \<times> grpc_pool" where
  "add_physical k s =
     (let a = length (counters s); e = \<lparr>phys_id = next_physical s, load_at = a\<rparr>;
          es = (case physicals s k of None \<Rightarrow> [] | Some es \<Rightarrow> es)
      in (a, s\<lparr>physicals := (physicals s)(k \<mapsto> es @ [e]), counters := counters s @ [0], next_physical := next_physical s + 1\<rparr>))"

definition take_lease :: "nat \<Rightarrow> grpc_pool \<Rightarrow> grpc_pool" where
  "take_lease a s = s\<lparr>counters := (counters s)[a := counters s ! a + 1]\<rparr>"

definition drop_lease :: "nat \<Rightarrow> grpc_pool \<Rightarrow> grpc_pool" where
  "drop_lease a s = s\<lparr>counters := (counters s)[a := counters s ! a - 1]\<rparr>"

text \<open>
  The keys share 64 locks; \<open>lane\<close> is the hash of a key modulo 64. A call holds the lock from \<^verbatim>\<open>connect_lock\<close> to the end
  of the loop, or to its return.
\<close>

fun holds :: "call_phase \<Rightarrow> str option" where
  "holds (Locked k opts) = Some k"
| "holds (Chosen k opts e) = Some k"
| "holds (Sharing k opts e) = Some k"
| "holds (Creating k opts) = Some k"
| "holds (Confirming k opts a) = Some k"
| "holds _ = None"

definition lock_free :: "(str \<Rightarrow> nat) \<Rightarrow> str \<Rightarrow> grpc_pool \<Rightarrow> bool" where
  "lock_free lane k s = list_all (\<lambda>p. case holds p of None \<Rightarrow> True | Some k' \<Rightarrow> lane k' \<noteq> lane k) (calls s)"

text \<open>
  What lets a call go on: its next step, the answer of the library it waits for (accepted or failed), or that its
  future, or later its stream, is dropped.
\<close>

datatype call_event = Proceed | Accepted | Refused | Dropped

fun call_step :: "(str \<Rightarrow> nat) \<Rightarrow> call_event \<Rightarrow> call_phase \<Rightarrow> grpc_pool \<Rightarrow> (call_phase \<times> grpc_pool) option" where
  "call_step lane Proceed (Waiting k opts) s = (if lock_free lane k s then Some (Locked k opts, s) else None)"
| "call_step lane Proceed (Locked k opts) s =
     Some (case pooled k opts s of Some e \<Rightarrow> Chosen k opts e | None \<Rightarrow> Creating k opts, s)"
| "call_step lane Proceed (Chosen k opts e) s = Some (Sharing k opts e, take_lease (load_at e) s)"
| "call_step lane Accepted (Sharing k opts e) s = Some (Requesting (load_at e), s)"
| "call_step lane Refused (Sharing k opts e) s =
     Some (Locked k opts, drop_lease (load_at e) (remove_physical k (phys_id e) s))"
| "call_step lane Accepted (Creating k opts) s =
     (let (a, s) = add_physical k s in Some (Confirming k opts a, take_lease a s))"
| "call_step lane Refused (Creating k opts) s = Some (Finished, s)"
| "call_step lane Accepted (Confirming k opts a) s = Some (Requesting a, s)"
| "call_step lane Refused (Confirming k opts a) s = Some (Finished, drop_lease a s)"
| "call_step lane Accepted (Requesting a) s = Some (Streaming a, s)"
| "call_step lane Refused (Requesting a) s = Some (Finished, drop_lease a s)"
| "call_step lane Dropped (Waiting k opts) s = Some (Finished, s)"
| "call_step lane Dropped (Sharing k opts e) s = Some (Finished, drop_lease (load_at e) s)"
| "call_step lane Dropped (Creating k opts) s = Some (Finished, s)"
| "call_step lane Dropped (Confirming k opts a) s = Some (Finished, drop_lease a s)"
| "call_step lane Dropped (Streaming a) s = Some (Finished, drop_lease a s)"
| "call_step lane _ _ s = None"

text \<open>The pool changes by a new call, a step of a call, or the end of a connection.\<close>

datatype pool_event = Connect str grpc_options | Call nat call_event | Ended str u64

fun pool_step :: "(str \<Rightarrow> nat) \<Rightarrow> pool_event \<Rightarrow> grpc_pool \<Rightarrow> grpc_pool option" where
  "pool_step lane (Connect k opts) s = Some (s\<lparr>calls := calls s @ [Waiting k opts]\<rparr>)"
| "pool_step lane (Call i e) s =
     (if i < length (calls s) then
        (case call_step lane e (calls s ! i) s of None \<Rightarrow> None | Some (p, s) \<Rightarrow> Some (s\<lparr>calls := (calls s)[i := p]\<rparr>))
      else None)"
| "pool_step lane (Ended k i) s = Some (remove_physical k i s)"

fun pool_run :: "(str \<Rightarrow> nat) \<Rightarrow> pool_event list \<Rightarrow> grpc_pool \<Rightarrow> grpc_pool option" where
  "pool_run lane [] s = Some s"
| "pool_run lane (e # es) s = (case pool_step lane e s of None \<Rightarrow> None | Some s \<Rightarrow> pool_run lane es s)"

section \<open>The counters count the users\<close>

fun leased :: "call_phase \<Rightarrow> nat option" where
  "leased (Sharing k opts e) = Some (load_at e)"
| "leased (Confirming k opts a) = Some a"
| "leased (Requesting a) = Some a"
| "leased (Streaming a) = Some a"
| "leased _ = None"

definition users :: "nat \<Rightarrow> call_phase list \<Rightarrow> nat" where
  "users a ps = length (filter (\<lambda>p. leased p = Some a) ps)"

definition counter :: "nat \<Rightarrow> grpc_pool \<Rightarrow> u64" where
  "counter a s = (if a < length (counters s) then counters s ! a else 0)"

text \<open>The address of a counter a phase refers to, with the key when it holds the lock.\<close>

fun refers :: "call_phase \<Rightarrow> nat option" where
  "refers (Chosen k opts e) = Some (load_at e)"
| "refers p = leased p"

definition addresses_ok :: "grpc_pool \<Rightarrow> bool" where
  "addresses_ok s \<longleftrightarrow> (\<forall>p \<in> set (calls s). \<forall>a. refers p = Some a \<longrightarrow> a < length (counters s)) \<and>
     (\<forall>k es. physicals s k = Some es \<longrightarrow> (\<forall>e \<in> set es. load_at e < length (counters s)))"

definition counts_ok :: "grpc_pool \<Rightarrow> bool" where
  "counts_ok s \<longleftrightarrow> addresses_ok s \<and> (\<forall>a. counter a s = word_of_nat (users a (calls s)))"

lemma users_append [simp]: "users a (ps @ [p]) = users a ps + of_bool (leased p = Some a)"
  by (simp add: users_def)

lemma users_nil [simp]: "users a [] = 0"
  by (simp add: users_def)

lemma users_update:
  assumes "i < length ps"
  shows "users a (ps[i := p]) + of_bool (leased (ps ! i) = Some a) = users a ps + of_bool (leased p = Some a)"
proof -
  have "users a ps = users a (take i ps @ ps ! i # drop (Suc i) ps)" using assms by (metis id_take_nth_drop)
  then have "users a ps = users a (take i ps) + of_bool (leased (ps ! i) = Some a) + users a (drop (Suc i) ps)"
    by (simp add: users_def)
  moreover have "users a (ps[i := p]) = users a (take i ps) + of_bool (leased p = Some a) + users a (drop (Suc i) ps)"
    using assms by (simp add: users_def upd_conv_take_nth_drop)
  ultimately show ?thesis by simp
qed

lemma counter_calls [simp]: "counter a (s\<lparr>calls := ps\<rparr>) = counter a s"
  by (simp add: counter_def)

lemma remove_physical_simps [simp]:
  "counters (remove_physical k i s) = counters s" "calls (remove_physical k i s) = calls s"
  "counter a (remove_physical k i s) = counter a s"
  by (simp_all add: remove_physical_def counter_def Let_def split: option.splits)

lemma take_lease_simps [simp]:
  "physicals (take_lease a s) = physicals s" "length (counters (take_lease a s)) = length (counters s)" "calls (take_lease a s) = calls s"
  "a < length (counters s) \<Longrightarrow> counter b (take_lease a s) = counter b s + of_bool (a = b)"
  by (simp_all add: take_lease_def counter_def nth_list_update)

lemma drop_lease_simps [simp]:
  "physicals (drop_lease a s) = physicals s" "length (counters (drop_lease a s)) = length (counters s)" "calls (drop_lease a s) = calls s"
  "a < length (counters s) \<Longrightarrow> counter b (drop_lease a s) = counter b s - of_bool (a = b)"
  by (simp_all add: drop_lease_def counter_def nth_list_update)

lemma remove_physical_entries:
  "physicals (remove_physical k i s) k' = Some es \<Longrightarrow> \<exists>es'. physicals s k' = Some es' \<and> set es \<subseteq> set es' \<and> length es \<le> length es'"
  by (auto simp: remove_physical_def Let_def split: option.splits if_splits)

lemma min_by_key_in: "min_by_key f xs = Some x \<Longrightarrow> x \<in> set xs"
proof (induction f xs rule: min_by_key.induct)
  case (2 f x xs)
  have "foldl (\<lambda>m y. if f y < f m then y else m) x xs \<in> set (x # xs)" by (induction xs arbitrary: x) (auto split: if_splits)
  then show ?case using 2 by auto
qed simp

lemma min_by_key_least: "min_by_key f xs = Some x \<Longrightarrow> y \<in> set xs \<Longrightarrow> f x \<le> f y"
proof (induction f xs rule: min_by_key.induct)
  case (2 f z xs)
  have "\<forall>y \<in> set (z # xs). f (foldl (\<lambda>m y. if f y < f m then y else m) z xs) \<le> f y"
  proof (induction xs arbitrary: z)
    case (Cons w xs)
    let ?m = "if f w < f z then w else z"
    have "\<forall>y \<in> set (?m # xs). f (foldl (\<lambda>m y. if f y < f m then y else m) ?m xs) \<le> f y" by (rule Cons)
    moreover have "f ?m \<le> f z" "f ?m \<le> f w" by auto
    ultimately show ?case by (auto intro: order_trans)
  qed simp
  then show ?case using 2 by auto
qed simp

lemma pooled_cases:
  assumes "pooled k opts s = Some e"
  obtains es where "physicals s k = Some es" "e \<in> set es" "reuse_least_loaded (counters s ! load_at e) (length es) opts"
  using assms that by (auto simp: pooled_def dest: min_by_key_in split: option.splits if_splits)

text \<open>The change of the counters in a step of a call.\<close>

definition step_moves :: "call_phase \<Rightarrow> grpc_pool \<Rightarrow> call_phase \<Rightarrow> grpc_pool \<Rightarrow> bool" where
  "step_moves p s p' s' \<longleftrightarrow> calls s' = calls s \<and> length (counters s) \<le> length (counters s') \<and>
     (\<forall>a. counter a s' + of_bool (leased p = Some a) = counter a s + of_bool (leased p' = Some a)) \<and>
     (\<forall>a. refers p' = Some a \<longrightarrow> a < length (counters s')) \<and>
     (\<forall>k es. physicals s' k = Some es \<longrightarrow> (\<forall>e \<in> set es. load_at e < length (counters s')))"

lemma call_step_moves:
  assumes "call_step lane e p s = Some (p', s')" and "addresses_ok s" and "p \<in> set (calls s)"
  shows "step_moves p s p' s'"
proof -
  have p: "\<forall>a. refers p = Some a \<longrightarrow> a < length (counters s)" and es: "\<forall>k es. physicals s k = Some es \<longrightarrow> (\<forall>e \<in> set es. load_at e < length (counters s))"
    using assms(2,3) by (auto simp: addresses_ok_def)
  have r: "\<forall>e \<in> set es. load_at e < length (counters s)" if "physicals (remove_physical k i s) k' = Some es" for k i k' es
    using remove_physical_entries [OF that] es by blast
  have e: "physicals s k = Some es \<Longrightarrow> e \<in> set es \<Longrightarrow> load_at e < length (counters s)" for k es e using es by blast
  show ?thesis using assms(1) p e
  proof (cases rule: call_step.cases [of "(lane, e, p, s)"])
    case (2 l k opts s1)
    then show ?thesis using assms(1) p es by (auto simp: step_moves_def elim!: pooled_cases split: option.splits)
  next
    case (6 l k opts s1)
    obtain a s2 where a: "add_physical k s = (a, s2)" by fastforce
    then have "a = length (counters s)" "counters s2 = counters s @ [0]" "calls s2 = calls s"
        "\<And>k es. physicals s2 k = Some es \<Longrightarrow> \<forall>e \<in> set es. load_at e < length (counters s2)"
      using es by (auto simp: add_physical_def Let_def less_Suc_eq split: if_splits option.splits)
    moreover have "p' = Confirming k opts a" "s' = take_lease a s2" using assms(1) 6 a by simp_all
    ultimately show ?thesis using 6 by (auto simp: step_moves_def counter_def nth_append take_lease_def)
  qed (auto simp: step_moves_def split: if_splits dest!: r)
qed


lemma counts_step:
  assumes "pool_step lane e s = Some s'" and "counts_ok s"
  shows "counts_ok s'"
proof (cases e)
  case (Connect k opts)
  then show ?thesis using assms by (auto simp: counts_ok_def addresses_ok_def)
next
  case (Ended k i)
  then have "s' = remove_physical k i s" using assms(1) by simp
  then show ?thesis using assms(2) by (auto simp: counts_ok_def addresses_ok_def dest!: remove_physical_entries)
next
  case (Call i c)
  then obtain p t where t: "i < length (calls s)" "call_step lane c (calls s ! i) s = Some (p, t)" "s' = t\<lparr>calls := (calls t)[i := p]\<rparr>"
    using assms(1) by (auto split: if_splits option.splits)
  have m: "step_moves (calls s ! i) s p t" using call_step_moves [OF t(2)] assms(2) t(1) by (simp add: counts_ok_def)
  have a: "refers q = Some a \<Longrightarrow> a < length (counters t)" if "q \<in> set ((calls s)[i := p])" for q a
    using that m assms(2) set_update_subset_insert [of "calls s" i p] by (fastforce simp: step_moves_def counts_ok_def addresses_ok_def)
  have "counter a s' = word_of_nat (users a (calls s'))" for a
  proof -
    have "counter a s' + of_bool (leased (calls s ! i) = Some a) = word_of_nat (users a (calls s)) + of_bool (leased p = Some a)"
      using m assms(2) by (simp add: t(3) step_moves_def counts_ok_def)
    also have "\<dots> = word_of_nat (users a (calls s')) + of_bool (leased (calls s ! i) = Some a)"
      using arg_cong [OF users_update [OF t(1), of a p], of "word_of_nat :: nat \<Rightarrow> u64"] m by (simp add: t(3) step_moves_def)
    finally show ?thesis by simp
  qed
  then show ?thesis using a m by (simp add: counts_ok_def addresses_ok_def t(3) step_moves_def)
qed

lemma calls_step: "pool_step lane e s = Some s' \<Longrightarrow> addresses_ok s \<Longrightarrow> length (calls s') \<le> Suc (length (calls s))"
  by (cases e) (auto simp: step_moves_def dest!: call_step_moves split: if_splits option.splits)

lemma counts_run:
  assumes "pool_run lane es s = Some s'" and "counts_ok s"
  shows "counts_ok s' \<and> length (calls s') \<le> length (calls s) + length es"
  using assms
proof (induction es arbitrary: s)
  case (Cons e es)
  then obtain t where t: "pool_step lane e s = Some t" "pool_run lane es t = Some s'" by (auto split: option.splits)
  then show ?case using Cons.IH [OF t(2)] counts_step [OF t(1)] calls_step [OF t(1)] Cons.prems(2) by (auto simp: counts_ok_def)
qed simp

lemma pool_empty_counts [simp]: "counts_ok pool_empty"
  by (simp add: pool_empty_def counts_ok_def addresses_ok_def counter_def)

lemma counter_users:
  assumes "counts_ok s" and "length (calls s) < 2 ^ 64" and "a < length (counters s)"
  shows "unat (counters s ! a) = users a (calls s)"
proof -
  have "users a (calls s) \<le> length (calls s)" by (simp add: users_def)
  then have "users a (calls s) < 2 ^ 64" using assms(2) by linarith
  moreover have "counters s ! a = word_of_nat (users a (calls s))" using assms(1,3) by (metis counts_ok_def counter_def)
  ultimately show ?thesis by (simp add: unat_of_nat)
qed

text \<open>C12: However the calls, streams and connections interleave, with calls cancelled, refused and streams dropped at any
  point, the counter of a connection is the number of calls and streams that have a lease on it: no lease is lost,
  none is returned twice, and the decrement never goes below zero.\<close>

theorem grpc_pool_counts:
  assumes "pool_run lane es pool_empty = Some s" and "length es < 2 ^ 64" and "a < length (counters s)"
  shows "unat (counters s ! a) = users a (calls s)"
proof -
  have "counts_ok s" "length (calls s) \<le> length es" using counts_run [OF assms(1)] by (simp_all add: pool_empty_def [THEN arg_cong, of calls])
  then show ?thesis using counter_users assms(2,3) by simp
qed

definition example_options :: grpc_options where
  "example_options = grpc_options_default\<lparr>max_connections := 1\<rparr>"

definition example_run :: "pool_event list" where
  "example_run = [Connect ''k'' example_options, Connect ''k'' example_options, Call 0 Proceed, Call 0 Proceed, Call 0 Accepted, Call 0 Accepted,
     Call 1 Proceed, Call 1 Proceed, Call 1 Proceed, Call 1 Accepted, Call 0 Accepted]"

lemma example_run_value:
  "pool_run (\<lambda>k. 0) example_run pool_empty =
     Some \<lparr>physicals = [''k'' \<mapsto> [\<lparr>phys_id = 1, load_at = 0\<rparr>]], counters = [2], next_physical = 2, calls = [Streaming 0, Requesting 0]\<rparr>"
  by (simp add: example_run_def pool_empty_def lock_free_def pooled_def add_physical_def take_lease_def reuse_least_loaded_def example_options_def grpc_options_default_def)

theorem grpc_pool_counts_witness:
  "\<exists>s. pool_run (\<lambda>k. 0) example_run pool_empty = Some s \<and> unat (counters s ! 0) = users 0 (calls s) \<and> users 0 (calls s) = 2"
  using grpc_pool_counts [OF example_run_value, of 0] by (simp add: example_run_value) (simp add: example_run_def users_def)

section \<open>The limits\<close>

definition conns :: "str \<Rightarrow> grpc_pool \<Rightarrow> nat" where
  "conns k s = (case physicals s k of None \<Rightarrow> 0 | Some es \<Rightarrow> length es)"

fun options_of :: "call_phase \<Rightarrow> (str \<times> grpc_options) option" where
  "options_of (Waiting k opts) = Some (k, opts)"
| "options_of (Locked k opts) = Some (k, opts)"
| "options_of (Chosen k opts e) = Some (k, opts)"
| "options_of (Sharing k opts e) = Some (k, opts)"
| "options_of (Creating k opts) = Some (k, opts)"
| "options_of (Confirming k opts a) = Some (k, opts)"
| "options_of _ = None"

text \<open>At most one call holds each lock; the connections and the phases that hold a lock agree on the key of a counter.\<close>

definition exclusive :: "(str \<Rightarrow> nat) \<Rightarrow> call_phase list \<Rightarrow> bool" where
  "exclusive lane ps \<longleftrightarrow> (\<forall>i j k k'. i < length ps \<longrightarrow> j < length ps \<longrightarrow> holds (ps ! i) = Some k \<longrightarrow> holds (ps ! j) = Some k' \<longrightarrow>
     lane k = lane k' \<longrightarrow> i = j)"

definition owned :: "(nat \<Rightarrow> str) \<Rightarrow> grpc_pool \<Rightarrow> bool" where
  "owned own s \<longleftrightarrow> (\<forall>k es. physicals s k = Some es \<longrightarrow> (\<forall>e \<in> set es. own (load_at e) = k)) \<and>
     (\<forall>p \<in> set (calls s). \<forall>k opts e. p = Chosen k opts e \<longrightarrow> own (load_at e) = k)"

definition stream_limit :: "grpc_options \<Rightarrow> nat option" where
  "stream_limit opts = (if max_connections opts = 0 \<and> 0 < max_streams opts then Some (unat (max_streams opts)) else None)"

definition phase_ok :: "(str \<Rightarrow> grpc_options) \<Rightarrow> grpc_pool \<Rightarrow> call_phase \<Rightarrow> bool" where
  "phase_ok limits s p \<longleftrightarrow> (\<forall>k opts. options_of p = Some (k, opts) \<longrightarrow> opts = limits k) \<and>
     (\<forall>k opts. p = Creating k opts \<longrightarrow> 0 < max_connections opts \<longrightarrow> conns k s < unat (max_connections opts)) \<and>
     (\<forall>k opts e n. p = Chosen k opts e \<longrightarrow> stream_limit opts = Some n \<longrightarrow> users (load_at e) (calls s) < n)"

definition limits_ok :: "(str \<Rightarrow> nat) \<Rightarrow> (str \<Rightarrow> grpc_options) \<Rightarrow> (nat \<Rightarrow> str) \<Rightarrow> grpc_pool \<Rightarrow> bool" where
  "limits_ok lane limits own s \<longleftrightarrow> exclusive lane (calls s) \<and> owned own s \<and> (\<forall>p \<in> set (calls s). phase_ok limits s p) \<and>
     (\<forall>k. 0 < max_connections (limits k) \<longrightarrow> conns k s \<le> unat (max_connections (limits k))) \<and>
     (\<forall>a n. stream_limit (limits (own a)) = Some n \<longrightarrow> users a (calls s) \<le> n)"

lemma exclusive_update:
  assumes "exclusive lane ps" and "i < length ps"
    and "\<And>k. holds p = Some k \<Longrightarrow> holds (ps ! i) = Some k \<or> list_all (\<lambda>q. case holds q of None \<Rightarrow> True | Some k' \<Rightarrow> lane k' \<noteq> lane k) ps"
  shows "exclusive lane (ps[i := p])"
  unfolding exclusive_def
proof (intro allI impI)
  fix j l k k'
  assume jl: "j < length (ps[i := p])" "l < length (ps[i := p])" and h: "holds (ps[i := p] ! j) = Some k" "holds (ps[i := p] ! l) = Some k'" and eq: "lane k = lane k'"
  have other: "m = i" if "m < length ps" "holds (ps ! m) = Some k1" "holds p = Some k2" "lane k1 = lane k2" for m k1 k2
    using assms(3) [OF that(3)]
  proof
    assume "holds (ps ! i) = Some k2"
    then show ?thesis using assms(1,2) that by (metis exclusive_def)
  next
    assume "list_all (\<lambda>q. case holds q of None \<Rightarrow> True | Some k' \<Rightarrow> lane k' \<noteq> lane k2) ps"
    then have "case holds (ps ! m) of None \<Rightarrow> True | Some k' \<Rightarrow> lane k' \<noteq> lane k2" using that(1) by (metis list_all_length)
    then show ?thesis using that(2,4) by simp
  qed
  have len: "j < length ps" "l < length ps" using jl by simp_all
  consider "j = i" "l = i" | "j = i" "l \<noteq> i" | "j \<noteq> i" "l = i" | "j \<noteq> i" "l \<noteq> i" by blast
  then show "j = l"
  proof cases
    case 2
    then have "holds p = Some k" "holds (ps ! l) = Some k'" using h assms(2) by simp_all
    then show ?thesis using other [OF len(2) _ _ eq [symmetric]] 2 by blast
  next
    case 3
    then have "holds p = Some k'" "holds (ps ! j) = Some k" using h assms(2) by simp_all
    then show ?thesis using other [OF len(1) _ _ eq] 3 by blast
  next
    case 4
    then have "holds (ps ! j) = Some k" "holds (ps ! l) = Some k'" using h by simp_all
    then show ?thesis using assms(1) len eq unfolding exclusive_def by blast
  qed simp
qed

lemma call_step_holds:
  "call_step lane e p s = Some (p', s') \<Longrightarrow> holds p' = Some k \<Longrightarrow> holds p = Some k \<or> lock_free lane k s"
  by (cases rule: call_step.cases [of "(lane, e, p, s)"]) (auto split: if_splits option.splits prod.splits)

lemma users_grow:
  assumes "i < length ps"
  shows "users a (ps[i := p]) \<le> users a ps + of_bool (leased p = Some a \<and> leased (ps ! i) \<noteq> Some a)"
  using users_update [OF assms, of a p] by (cases "leased p = Some a"; cases "leased (ps ! i) = Some a") simp_all

lemma call_step_leased:
  assumes "call_step lane e p s = Some (p', s')" and "leased p' = Some a" and "\<And>k opts. p \<noteq> Creating k opts"
  shows "leased p = Some a \<or> (\<exists>k opts e. p = Chosen k opts e \<and> load_at e = a)"
  using assms by (cases rule: call_step.cases [of "(lane, e, p, s)"]) (auto split: if_splits option.splits)

lemma call_step_options:
  assumes "call_step lane e p s = Some (p', s')" and "options_of p' = Some (k, opts)"
  shows "options_of p = Some (k, opts)"
  using assms by (cases rule: call_step.cases [of "(lane, e, p, s)"]) (auto split: if_splits option.splits prod.splits)

definition shrinks :: "grpc_pool \<Rightarrow> grpc_pool \<Rightarrow> bool" where
  "shrinks s t \<longleftrightarrow> calls t = calls s \<and>
     (\<forall>k es. physicals t k = Some es \<longrightarrow> (\<exists>es'. physicals s k = Some es' \<and> set es \<subseteq> set es' \<and> length es \<le> length es'))"

lemma shrinks_refl [simp]: "shrinks s s"
  by (simp add: shrinks_def)

lemma shrinks_remove [simp]: "shrinks s (remove_physical k i s)"
  by (auto simp: shrinks_def dest: remove_physical_entries)

lemma shrinks_lease [simp]: "shrinks s (take_lease a t) \<longleftrightarrow> shrinks s t" "shrinks s (drop_lease a t) \<longleftrightarrow> shrinks s t"
  by (simp_all add: shrinks_def)

lemma shrinks_conns: "shrinks s t \<Longrightarrow> conns k t \<le> conns k s"
  by (fastforce simp: shrinks_def conns_def split: option.splits)

lemma call_step_shrinks:
  assumes "call_step lane e p s = Some (p', s')" and "\<And>k opts. p \<noteq> Creating k opts"
  shows "shrinks s s'"
  using assms by (cases rule: call_step.cases [of "(lane, e, p, s)"]) (auto split: if_splits option.splits)

lemma call_step_creating:
  assumes "call_step lane e p s = Some (Creating k opts, s')" and "0 < max_connections opts"
  shows "conns k s < unat (max_connections opts)"
proof (cases rule: call_step.cases [of "(lane, e, p, s)"])
  case (2 l k1 opts1 s1)
  then have n: "pooled k opts s = None" using assms(1) by (auto split: option.splits)
  have m: "0 < unat (max_connections opts)" using assms(2) by (simp add: unat_gt_0 word_neq_0_conv)
  show ?thesis
  proof (cases "physicals s k")
    case (Some es)
    then show ?thesis using n m assms(2) by (cases es) (auto simp: pooled_def conns_def reuse_least_loaded_def split: if_splits)
  qed (simp add: conns_def m)
qed (use assms in \<open>auto split: if_splits prod.splits\<close>)

lemma call_step_chosen:
  assumes "call_step lane e p s = Some (Chosen k opts c, s')" and "counts_ok s" and "length (calls s) < 2 ^ 64" and "stream_limit opts = Some n"
  shows "users (load_at c) (calls s) < n \<and> leased p = None \<and> (\<exists>es. physicals s k = Some es \<and> c \<in> set es)"
proof (cases rule: call_step.cases [of "(lane, e, p, s)"])
  case (2 l k1 opts1 s1)
  then have p: "pooled k opts s = Some c" "p = Locked k opts" using assms(1) by (auto split: option.splits)
  from p(1) obtain es where es: "physicals s k = Some es" "c \<in> set es" "reuse_least_loaded (counters s ! load_at c) (length es) opts" by (rule pooled_cases)
  have n: "max_connections opts = 0" "0 < max_streams opts" "n = unat (max_streams opts)" using assms(4) by (auto simp: stream_limit_def split: if_splits)
  have "load_at c < length (counters s)" using assms(2) es by (auto simp: counts_ok_def addresses_ok_def)
  from counter_users [OF assms(2,3) this] have u: "unat (counters s ! load_at c) = users (load_at c) (calls s)" .
  have "counters s ! load_at c < max_streams opts" using es(3) n(1,2) by (auto simp: reuse_least_loaded_def split: if_splits)
  then show ?thesis using u n(3) p(2) es(1,2) by (auto simp: word_less_nat_alt)
qed (use assms in \<open>auto split: if_splits prod.splits\<close>)

lemma owned_chosen: "owned own s \<Longrightarrow> Chosen k opts e \<in> set (calls s) \<Longrightarrow> own (load_at e) = k"
  by (auto simp: owned_def)

lemma exclusive_same:
  "exclusive lane ps \<Longrightarrow> i < length ps \<Longrightarrow> j < length ps \<Longrightarrow> holds (ps ! i) = Some k \<Longrightarrow> holds (ps ! j) = Some k \<Longrightarrow> i = j"
  unfolding exclusive_def by blast

lemma phase_ok_mono:
  assumes "phase_ok limits s p" and "\<And>k. conns k t \<le> conns k s" and "\<And>k opts e. p = Chosen k opts e \<Longrightarrow> users (load_at e) (calls t) \<le> users (load_at e) (calls s)"
  shows "phase_ok limits t p"
proof (cases p)
  case (Creating k opts)
  then show ?thesis using assms(1) le_less_trans [OF assms(2) [of k]] by (auto simp: phase_ok_def)
next
  case (Chosen k opts e)
  then show ?thesis using assms(1) le_less_trans [OF assms(3) [OF Chosen]] by (auto simp: phase_ok_def)
qed (use assms(1) in \<open>simp_all add: phase_ok_def\<close>)

lemma limits_shrink:
  assumes "limits_ok lane limits own s" and "shrinks s t"
  shows "limits_ok lane limits own t"
proof -
  have c: "calls t = calls s" using assms(2) by (simp add: shrinks_def)
  have "phase_ok limits t p" if "p \<in> set (calls s)" for p
    using assms(1) that shrinks_conns [OF assms(2)] c by (intro phase_ok_mono [of limits s p t]) (auto simp: limits_ok_def)
  moreover have "owned own t" using assms unfolding limits_ok_def owned_def shrinks_def by (metis subsetD)
  ultimately show ?thesis using assms(1) shrinks_conns [OF assms(2)] c unfolding limits_ok_def by (simp add: order_trans [OF shrinks_conns [OF assms(2)]])
qed

text \<open>A call whose new phase satisfies the invariant, and which takes only the lease it has chosen.\<close>

lemma limits_update:
  assumes "limits_ok lane limits own s" and "i < length (calls s)" and "exclusive lane ((calls s)[i := p])"
    and "phase_ok limits (s\<lparr>calls := (calls s)[i := p]\<rparr>) p" and "\<And>k opts e. p = Chosen k opts e \<Longrightarrow> own (load_at e) = k"
    and "\<And>a. leased p = Some a \<Longrightarrow> leased (calls s ! i) = Some a \<or> (\<exists>k opts e. calls s ! i = Chosen k opts e \<and> load_at e = a)"
  shows "limits_ok lane limits own (s\<lparr>calls := (calls s)[i := p]\<rparr>)"
proof -
  let ?ps = "(calls s)[i := p]"
  have inv: "exclusive lane (calls s)" "owned own s" "\<And>p. p \<in> set (calls s) \<Longrightarrow> phase_ok limits s p"
      "\<And>a n. stream_limit (limits (own a)) = Some n \<Longrightarrow> users a (calls s) \<le> n"
    using assms(1) by (auto simp: limits_ok_def)
  have mem: "calls s ! i \<in> set (calls s)" using assms(2) by simp
  have new: "users a ?ps \<le> users a (calls s) \<or> (\<exists>k opts e. calls s ! i = Chosen k opts e \<and> load_at e = a)" for a
    using users_grow [OF assms(2), of a p] assms(6) [of a] by (cases "leased p = Some a") auto
  have phases: "phase_ok limits (s\<lparr>calls := ?ps\<rparr>) q" if qin: "q \<in> set ?ps" for q
  proof -
    obtain j where j: "j < length (calls s)" "q = ?ps ! j" using qin by (metis in_set_conv_nth length_list_update)
    show ?thesis
    proof (cases "j = i")
      case True
      then show ?thesis using j assms(2,4) by simp
    next
      case False
      then have q: "q = calls s ! j" "q \<in> set (calls s)" using j by simp_all
      have u: "users (load_at e) ?ps \<le> users (load_at e) (calls s)" if "q = Chosen k opts e" for k opts e
      proof (rule ccontr)
        assume "\<not> ?thesis"
        then obtain k' opts' e' where c: "calls s ! i = Chosen k' opts' e'" "load_at e' = load_at e" using new by blast
        have "own (load_at e) = k" using q(2) that by (intro owned_chosen [OF inv(2)]) simp
        moreover have "own (load_at e') = k'" using mem c(1) by (intro owned_chosen [OF inv(2)]) simp
        ultimately have k: "k' = k" using c(2) by simp
        have "i = j" by (rule exclusive_same [OF inv(1) assms(2) j(1), of k]) (use c(1) k q(1) [symmetric] that in simp_all)
        then show False using False by simp
      qed
      show ?thesis by (rule phase_ok_mono [OF inv(3) [OF q(2)]]) (simp_all add: conns_def u)
    qed
  qed
  have "users a ?ps \<le> n" if n: "stream_limit (limits (own a)) = Some n" for a n
  proof (cases "users a ?ps \<le> users a (calls s)")
    case True
    then show ?thesis using inv(4) [OF n] by linarith
  next
    case False
    then obtain k opts e where c: "calls s ! i = Chosen k opts e" "load_at e = a" using new by blast
    then have k: "own a = k" using mem owned_chosen [OF inv(2), of k opts e] by simp
    have "opts = limits k" "\<forall>n. stream_limit opts = Some n \<longrightarrow> users a (calls s) < n"
      using inv(3) [OF mem] c by (auto simp: phase_ok_def)
    then have "users a (calls s) < n" using n k by simp
    moreover have "users a ?ps \<le> Suc (users a (calls s))" using users_grow [OF assms(2), of a p] by (cases "leased p = Some a \<and> leased (calls s ! i) \<noteq> Some a") auto
    ultimately show ?thesis by linarith
  qed
  moreover have "owned own (s\<lparr>calls := ?ps\<rparr>)" 
    unfolding owned_def
  proof (intro conjI allI impI ballI)
    fix q k opts e
    assume "q \<in> set (calls (s\<lparr>calls := ?ps\<rparr>))" and q: "q = Chosen k opts e"
    then have "q = p \<or> q \<in> set (calls s)" using set_update_subset_insert [of "calls s" i p] by auto
    then show "own (load_at e) = k" using assms(5) owned_chosen [OF inv(2), of k opts e] q by blast
  qed (use inv(2) in \<open>simp add: owned_def\<close>)
  ultimately show ?thesis using assms(1,3) phases by (simp add: limits_ok_def conns_def)
qed

lemma add_physical_facts:
  assumes "add_physical k s = (a, t)"
  shows "a = length (counters s)" "calls t = calls s" "conns k t = Suc (conns k s)" "k' \<noteq> k \<Longrightarrow> conns k' t = conns k' s"
    "physicals t k' = Some es \<Longrightarrow> e \<in> set es \<Longrightarrow> k' = k \<and> load_at e = a \<or> (\<exists>es'. physicals s k' = Some es' \<and> e \<in> set es')"
  using assms by (auto simp: add_physical_def conns_def Let_def split: option.splits if_splits)

lemma unused_address: "addresses_ok s \<Longrightarrow> users (length (counters s)) (calls s) = 0"
  by (fastforce simp: addresses_ok_def users_def filter_empty_conv elim: leased.elims)

lemma limits_create:
  assumes "limits_ok lane limits own s" and "addresses_ok s" and "i < length (calls s)" and "calls s ! i = Creating k opts"
    and "add_physical k s = (a, t)" and "u = (take_lease a t)\<lparr>calls := (calls s)[i := Confirming k opts a]\<rparr>"
  shows "limits_ok lane limits (own(a := k)) u"
proof -
  note f = add_physical_facts [OF assms(5)]
  have inv: "exclusive lane (calls s)" "owned own s" "\<And>p. p \<in> set (calls s) \<Longrightarrow> phase_ok limits s p"
    using assms(1) by (auto simp: limits_ok_def)
  have mem: "Creating k opts \<in> set (calls s)" using assms(3,4) nth_mem by metis
  have opts: "opts = limits k" "0 < max_connections opts \<longrightarrow> conns k s < unat (max_connections opts)"
    using inv(3) [OF mem] by (auto simp: phase_ok_def)
  have calls: "calls u = (calls s)[i := Confirming k opts a]" and conns: "conns k' u = conns k' t" "physicals u = physicals t" for k'
    using assms(6) by (simp_all add: conns_def)
  have users: "users b (calls u) = users b (calls s) + of_bool (b = a)" for b
    using users_update [OF assms(3), of b "Confirming k opts a"] assms(4) by (auto simp: calls)
  have old: "load_at e \<noteq> a" if "physicals s k' = Some es" "e \<in> set es" for k' es e
    using assms(2) that f(1) by (metis addresses_ok_def nat_neq_iff)
  have chosen: "load_at e \<noteq> a" if "Chosen k' opts' e \<in> set (calls s)" for k' opts' e
    using assms(2) that f(1) by (fastforce simp: addresses_ok_def)
  have mem_cases: "p = Confirming k opts a \<or> (\<exists>j < length (calls s). j \<noteq> i \<and> p = calls s ! j)" if "p \<in> set (calls u)" for p
    using that unfolding calls by (metis in_set_conv_nth length_list_update nth_list_update_eq nth_list_update_neq)
  have phases: "phase_ok limits u p" if "p \<in> set (calls u)" for p
    using mem_cases [OF that]
  proof (elim disjE exE conjE)
    fix j
    assume j: "j < length (calls s)" "j \<noteq> i" and p: "p = calls s ! j"
    then have pm: "p \<in> set (calls s)" by simp
    show ?thesis
    proof (cases p)
      case (Creating k' opts')
      have "k' \<noteq> k" using exclusive_same [OF inv(1) assms(3) j(1), of k] j(2) p [symmetric] Creating assms(4) by auto
      then show ?thesis using inv(3) [OF pm] Creating f(4) by (auto simp: phase_ok_def conns)
    next
      case (Chosen k' opts' e)
      then show ?thesis using inv(3) [OF pm] chosen [of k' opts' e] pm users by (auto simp: phase_ok_def)
    qed (use inv(3) [OF pm] in \<open>auto simp: phase_ok_def\<close>)
  qed (simp add: phase_ok_def opts)
  have "owned (own(a := k)) u"
    unfolding owned_def
  proof (intro conjI allI impI ballI)
    fix k' es e
    assume "physicals u k' = Some es" and e: "e \<in> set es"
    then have "physicals t k' = Some es" by (simp add: conns)
    from f(5) [OF this e] show "(own(a := k)) (load_at e) = k'" using inv(2) old by (fastforce simp: owned_def)
  next
    fix p k' opts' e
    assume "p \<in> set (calls u)" and "p = Chosen k' opts' e"
    then have "Chosen k' opts' e \<in> set (calls s)" using mem_cases by fastforce
    then show "(own(a := k)) (load_at e) = k'" using owned_chosen [OF inv(2)] chosen by auto
  qed
  moreover have "exclusive lane (calls u)"
    unfolding calls using assms(4) by (intro exclusive_update [OF inv(1) assms(3)]) simp
  moreover have "conns k' u \<le> unat (max_connections (limits k'))" if "0 < max_connections (limits k')" for k'
    using assms(1) that opts f(3,4) by (cases "k' = k") (auto simp: limits_ok_def conns)
  moreover have "users b (calls u) \<le> n" if n: "stream_limit (limits ((own(a := k)) b)) = Some n" for b n
  proof (cases "b = a")
    case True
    have "0 < n" using n by (auto simp: stream_limit_def unat_gt_0 word_neq_0_conv split: if_splits)
    then show ?thesis using True users unused_address [OF assms(2)] f(1) by simp
  next
    case False
    then show ?thesis using assms(1) n users by (auto simp: limits_ok_def)
  qed
  ultimately show ?thesis using phases by (simp add: limits_ok_def)
qed

lemma limits_call:
  assumes "limits_ok lane limits own s" and "counts_ok s" and "length (calls s) < 2 ^ 64" and "i < length (calls s)"
    and "call_step lane c (calls s ! i) s = Some (p, t)" and "\<And>k opts. calls s ! i \<noteq> Creating k opts"
  shows "limits_ok lane limits own (t\<lparr>calls := (calls t)[i := p]\<rparr>)"
proof -
  have inv: "exclusive lane (calls s)" "owned own s" "phase_ok limits s (calls s ! i)"
    using assms(1,4) by (auto simp: limits_ok_def)
  have sh: "shrinks s t" using call_step_shrinks [OF assms(5)] assms(6) by blast
  have l: "\<And>a. leased p = Some a \<Longrightarrow> leased (calls s ! i) = Some a \<or> (\<exists>k opts e. calls s ! i = Chosen k opts e \<and> load_at e = a)"
    using call_step_leased [OF assms(5)] assms(6) by blast
  have "exclusive lane ((calls s)[i := p])"
    using call_step_holds [OF assms(5)] by (intro exclusive_update [OF inv(1) assms(4)]) (auto simp: lock_free_def)
  moreover have "phase_ok limits (s\<lparr>calls := (calls s)[i := p]\<rparr>) p"
    unfolding phase_ok_def
  proof (intro conjI allI impI)
    fix k opts
    assume "options_of p = Some (k, opts)"
    from call_step_options [OF assms(5) this] show "opts = limits k" using inv(3) by (simp add: phase_ok_def)
  next
    fix k opts
    assume "p = Creating k opts" and "0 < max_connections opts"
    then show "conns k (s\<lparr>calls := (calls s)[i := p]\<rparr>) < unat (max_connections opts)"
      using call_step_creating [of lane c "calls s ! i" s k opts t] assms(5) by (simp add: conns_def)
  next
    fix k opts e n
    assume p: "p = Chosen k opts e" and n: "stream_limit opts = Some n"
    from call_step_chosen [OF assms(5) [unfolded p] assms(2,3) n]
    show "users (load_at e) (calls (s\<lparr>calls := (calls s)[i := p]\<rparr>)) < n"
      using users_update [OF assms(4), of "load_at e" p] p by simp
  qed
  moreover have "own (load_at e) = k" if "p = Chosen k opts e" for k opts e
  proof (cases rule: call_step.cases [of "(lane, c, calls s ! i, s)"])
    case (2 l k1 opts1 s1)
    then have "pooled k opts s = Some e" using assms(5) that by (auto split: option.splits)
    then obtain es where "physicals s k = Some es" "e \<in> set es" by (rule pooled_cases)
    then show ?thesis using inv(2) by (auto simp: owned_def)
  qed (use assms(5) that in \<open>auto split: if_splits prod.splits\<close>)
  ultimately have "limits_ok lane limits own (s\<lparr>calls := (calls s)[i := p]\<rparr>)" using limits_update [OF assms(1,4)] l by blast
  then show ?thesis using sh by (elim limits_shrink) (simp add: shrinks_def)
qed

lemma limits_step:
  assumes "pool_step lane e s = Some s'" and "limits_ok lane limits own s" and "counts_ok s" and "length (calls s) < 2 ^ 64"
    and "\<And>k opts. e = Connect k opts \<Longrightarrow> opts = limits k"
  shows "\<exists>own'. limits_ok lane limits own' s'"
proof (cases e)
  case (Ended k i)
  then have "s' = remove_physical k i s" using assms(1) by simp
  then show ?thesis using limits_shrink [OF assms(2) shrinks_remove] by blast
next
  case (Connect k opts)
  have x: "exclusive lane (calls s @ [Waiting k opts])"
    using assms(2) unfolding exclusive_def limits_ok_def by (auto simp: nth_append less_Suc_eq split: if_splits)
  have "s' = s\<lparr>calls := calls s @ [Waiting k opts]\<rparr>" using assms(1) Connect by simp
  moreover have "opts = limits k" using assms(5) Connect by simp
  ultimately have "limits_ok lane limits own s'"
    using assms(2) x by (auto simp: limits_ok_def owned_def phase_ok_def conns_def)
  then show ?thesis by blast
next
  case (Call i c)
  then obtain p t where t: "i < length (calls s)" "call_step lane c (calls s ! i) s = Some (p, t)" "s' = t\<lparr>calls := (calls t)[i := p]\<rparr>"
    using assms(1) by (auto split: if_splits option.splits)
  show ?thesis
  proof (cases "\<exists>k opts a u. calls s ! i = Creating k opts \<and> c = Accepted \<and> add_physical k s = (a, u)")
    case True
    then obtain k opts a u where cr: "calls s ! i = Creating k opts" "c = Accepted" "add_physical k s = (a, u)" by blast
    then have "s' = (take_lease a u)\<lparr>calls := (calls s)[i := Confirming k opts a]\<rparr>"
      using t(2,3) add_physical_facts(2) [OF cr(3)] by auto
    then show ?thesis using limits_create [OF assms(2) _ t(1) cr(1,3)] assms(3) by (auto simp: counts_ok_def)
  next
    case False
    show ?thesis
    proof (cases "\<exists>k opts. calls s ! i = Creating k opts")
      case True
      then have "p = Finished" "t = s" using False t(2) by (cases c; auto)+
      then show ?thesis using limits_update [OF assms(2) t(1), of Finished] t(3) exclusive_update [of lane "calls s" i Finished] assms(2) t(1)
        by (auto simp: phase_ok_def limits_ok_def)
    next
      case False
      then show ?thesis using limits_call [OF assms(2-4) t(1,2)] t(3) by blast
    qed
  qed
qed


lemma limits_run:
  assumes "pool_run lane es s = Some s'" and "limits_ok lane limits own s" and "counts_ok s" and "length (calls s) + length es < 2 ^ 64"
    and "\<And>k opts. Connect k opts \<in> set es \<Longrightarrow> opts = limits k"
  shows "\<exists>own'. limits_ok lane limits own' s'"
  using assms
proof (induction es arbitrary: s own)
  case (Cons e es)
  then obtain t where t: "pool_step lane e s = Some t" "pool_run lane es t = Some s'" by (auto split: option.splits)
  have a: "addresses_ok s" using Cons.prems(3) by (simp add: counts_ok_def)
  obtain own' where o: "limits_ok lane limits own' t" using limits_step [OF t(1) Cons.prems(2,3)] Cons.prems(4,5) by auto
  show ?case using Cons.IH [OF t(2) o counts_step [OF t(1) Cons.prems(3)]] calls_step [OF t(1) a] Cons.prems(4,5) by auto
qed auto

text \<open>C11: When every call for a key uses the same options, the pool keeps their limits under every interleaving: with
  \<^verbatim>\<open>max-connections\<close> set, a key never has more connections than that; with only \<^verbatim>\<open>max-streams\<close> set, no connection
  of the key is ever used by more streams and calls than that.\<close>

theorem grpc_pool_limits:
  assumes "pool_run lane es pool_empty = Some s" and "length es < 2 ^ 64" and "\<And>k opts. Connect k opts \<in> set es \<Longrightarrow> opts = limits k"
    and "physicals s k = Some cs"
  shows "(0 < max_connections (limits k) \<longrightarrow> length cs \<le> unat (max_connections (limits k))) \<and>
    (max_connections (limits k) = 0 \<and> 0 < max_streams (limits k) \<longrightarrow>
       (\<forall>c \<in> set cs. unat (counters s ! load_at c) \<le> unat (max_streams (limits k))))"
proof -
  have e: "limits_ok lane limits (\<lambda>a. []) pool_empty" "length (calls pool_empty) = 0"
    by (simp_all add: limits_ok_def exclusive_def owned_def conns_def pool_empty_def)
  from limits_run [OF assms(1) e(1) pool_empty_counts] obtain own where l: "limits_ok lane limits own s"
    using assms(2,3) e(2) by auto
  have c: "counts_ok s" "length (calls s) < 2 ^ 64" using counts_run [OF assms(1)] assms(2) by (auto simp: pool_empty_def [THEN arg_cong, of calls])
  have "unat (counters s ! load_at e) \<le> unat (max_streams (limits k))"
    if m: "max_connections (limits k) = 0" "0 < max_streams (limits k)" and e: "e \<in> set cs" for e
  proof -
    have "own (load_at e) = k" using l e assms(4) by (auto simp: limits_ok_def owned_def)
    then have "users (load_at e) (calls s) \<le> unat (max_streams (limits k))" using l m by (auto simp: limits_ok_def stream_limit_def)
    moreover have "load_at e < length (counters s)" using c(1) e assms(4) by (auto simp: counts_ok_def addresses_ok_def)
    ultimately show ?thesis using counter_users [OF c] by simp
  qed
  then show ?thesis using l assms(4) by (auto simp: limits_ok_def conns_def dest: spec [of _ k])
qed

theorem grpc_pool_limits_witness:
  "\<exists>s cs. pool_run (\<lambda>k. 0) example_run pool_empty = Some s \<and> physicals s ''k'' = Some cs \<and> length cs \<le> unat (max_connections example_options)"
proof -
  have "0 < max_connections example_options" by (simp add: example_options_def)
  then show ?thesis
    using grpc_pool_limits [OF example_run_value, of "\<lambda>k. example_options" "''k''"] by (simp add: example_run_value) (simp add: example_run_def)
qed

end
