(* ===== verification/Vision.thy ===== *)
theory Vision
  imports Text
begin

text \<open>
  The observation of the inner handshake in XTLS Vision (\<^verbatim>\<open>crates/protocol/src/vision.rs\<close>): an incremental
  parser of the TLS records that carry the server's answer, and what Vision remembers of both directions.
\<close>

section \<open>Observing the inner handshake\<close>

record tls_hello =
  hello_record :: bytes
  handshake :: bytes
  hello_done :: bool

function hello_extensions :: "bool option \<Rightarrow> bytes \<Rightarrow> bool option option" where
  "hello_extensions version bs =
     (if bs = [] then Some version
      else if length bs < 4 then None
      else
        let kind = be_val [bs ! 0, bs ! 1]; n = be_val [bs ! 2, bs ! 3]; rest = drop 4 bs
        in if length rest < n then None
           else if kind = 43 \<and> (version \<noteq> None \<or> n \<noteq> 2) then None
           else hello_extensions (if kind = 43 then Some (take n rest = [3, 4]) else version) (drop n rest))"
  by pat_completeness auto
termination
  by (relation "measure (\<lambda>(version, bs). length bs)") simp_all

declare hello_extensions.simps [simp del]

definition server_hello :: "bytes \<Rightarrow> bool option" where
  "server_hello bs =
     (if length bs < 38 \<or> take 2 bs \<noteq> [3, 3] then None
      else
        let session_len = unat (bs ! 34)
        in if 32 < session_len then None
           else
             let offset = 35 + session_len
             in if length bs < offset + 3 \<or> bs ! (offset + 2) \<noteq> 0 then None
                else
                  let suite = be_val [bs ! offset, bs ! (offset + 1)]
                  in if offset + 3 = length bs then Some False
                     else if length bs < offset + 5 then None
                     else
                       let len = be_val [bs ! (offset + 3), bs ! (offset + 4)]
                       in if offset + 5 + len \<noteq> length bs then None
                          else
                            (case hello_extensions None (drop (offset + 5) bs) of
                               None \<Rightarrow> None
                             | Some version \<Rightarrow> Some (version = Some True \<and> 0x1301 \<le> suite \<and> suite \<le> 0x1304)))"

definition record_need :: "bytes \<Rightarrow> nat" where
  "record_need r = (if length r < 5 then 5 else 5 + be_val [r ! 3, r ! 4])"

text \<open>What follows once the record has grown: \<open>Inl\<close> ends the observation, \<open>Inr\<close> goes on with the next bytes.\<close>

definition hello_step :: "tls_hello \<Rightarrow> (tls_hello \<times> bool option) + tls_hello" where
  "hello_step h =
     (let r = hello_record h
      in if length r < 5 then Inr h
         else if r ! 0 \<noteq> 22 \<or> r ! 1 \<noteq> 3 then Inl (h\<lparr>hello_done := True\<rparr>, None)
         else if length r < record_need r then Inr h
         else
           let hs = handshake h @ drop 5 r; h = h\<lparr>hello_record := [], handshake := hs\<rparr>
           in if 18432 < length hs then Inl (h\<lparr>hello_done := True\<rparr>, None)
              else if length hs < 4 then Inr h
              else if hs ! 0 \<noteq> 2 then Inl (h\<lparr>hello_done := True\<rparr>, None)
              else
                let len = be_val [0, hs ! 1, hs ! 2, hs ! 3]
                in if 18428 < len then Inl (h\<lparr>hello_done := True\<rparr>, None)
                   else if len + 4 \<le> length hs then Inl (h\<lparr>hello_done := True\<rparr>, server_hello (take len (drop 4 hs)))
                   else Inr h)"

text \<open>
  The loop over the bytes. The record is always shorter than it needs to be, so that every round takes
  at least one byte.
\<close>

function hello_observe :: "tls_hello \<Rightarrow> bytes \<Rightarrow> tls_hello \<times> bool option" where
  "hello_observe h bs =
     (if bs = [] \<or> hello_done h then (h, None)
      else if 18437 < record_need (hello_record h) then (h\<lparr>hello_done := True\<rparr>, None)
      else
        let count = min (length bs) (record_need (hello_record h) - length (hello_record h))
        in if count = 0 then (h, None)
           else
             (case hello_step (h\<lparr>hello_record := hello_record h @ take count bs\<rparr>) of
                Inl x \<Rightarrow> x
              | Inr h \<Rightarrow> hello_observe h (drop count bs)))"
  by pat_completeness auto
termination
  by (relation "measure (\<lambda>(h, bs). length bs)") simp_all

declare hello_observe.simps [simp del]

definition hello_new :: tls_hello where
  "hello_new = \<lparr>hello_record = [], handshake = [], hello_done = False\<rparr>"

record inner_tls =
  client :: bytes
  server :: tls_hello
  tls :: bool
  tls13 :: bool
  remaining :: nat

definition inner_observe :: "bytes \<Rightarrow> bool \<Rightarrow> inner_tls \<Rightarrow> inner_tls" where
  "inner_observe bs from_server s =
     (if remaining s = 0 \<or> tls13 s then s
      else
        let s = s\<lparr>remaining := remaining s - length bs\<rparr>
        in if from_server then
             (case hello_observe (server s) bs of
                (h, None) \<Rightarrow> s\<lparr>server := h\<rparr>
              | (h, Some v) \<Rightarrow> s\<lparr>server := h, tls := True, tls13 := v\<rparr>)
           else
             let c = client s @ take (8 - length (client s)) bs; s = s\<lparr>client := c\<rparr>
             in if 6 \<le> length c \<and> c ! 0 = 22 \<and> c ! 1 = 3 \<and> c ! 5 = 1 then s\<lparr>tls := True\<rparr> else s)"

section \<open>Chunks\<close>

text \<open>A parser between two reads: it has ended, or its record is incomplete and of the right kind.\<close>

definition hello_ok :: "tls_hello \<Rightarrow> bool" where
  "hello_ok h \<longleftrightarrow> hello_done h \<or>
     length (hello_record h) < record_need (hello_record h)
     \<and> (5 \<le> length (hello_record h) \<longrightarrow> hello_record h ! 0 = 22 \<and> hello_record h ! 1 = 3)"

lemma record_need_append: "5 \<le> length r \<Longrightarrow> record_need (r @ a) = record_need r"
  by (simp add: record_need_def nth_append)

lemma record_need_ge: "5 \<le> record_need r"
  by (simp add: record_need_def)

lemma observe_done: "hello_done h \<Longrightarrow> hello_observe h bs = (h, None)"
  by (simp add: hello_observe.simps)

lemma hello_step_done: "hello_step h = Inl x \<Longrightarrow> hello_done (fst x)"
  by (auto simp: hello_step_def Let_def split: if_splits)

lemma hello_step_partial:
  assumes "length (hello_record h) < record_need (hello_record h)" "5 \<le> length (hello_record h) \<longrightarrow> hello_record h ! 0 = 22 \<and> hello_record h ! 1 = 3"
  shows "hello_step h = Inr h"
  using assms by (auto simp: hello_step_def Let_def)

lemma hello_step_ok:
  assumes "hello_step h = Inr h'" and "length (hello_record h) \<le> record_need (hello_record h)"
  shows "hello_ok h'"
proof (cases "length (hello_record h) < 5")
  case True
  then show ?thesis using assms(1) by (simp add: hello_step_def hello_ok_def record_need_def Let_def)
next
  case False
  then show ?thesis using assms by (auto simp: hello_step_def hello_ok_def record_need_def [of "[]"] Let_def split: if_splits)
qed

lemma observe_round:
  assumes "bs \<noteq> []" "\<not> hello_done h" "record_need (hello_record h) \<le> 18437"
    and "min (length bs) (record_need (hello_record h) - length (hello_record h)) = n" "n \<noteq> 0"
    and "take n bs = x" "drop n bs = y"
  shows "hello_observe h bs = (case hello_step (h\<lparr>hello_record := hello_record h @ x\<rparr>) of Inl z \<Rightarrow> z | Inr h \<Rightarrow> hello_observe h y)"
  using assms(1-5) unfolding assms(6,7) [symmetric] by (simp add: hello_observe.simps [of h])

lemma observe_nil [simp]: "hello_observe h [] = (h, None)"
  by (simp add: hello_observe.simps)

text \<open>Bytes that do not complete the record are only appended to it.\<close>

lemma observe_feed:
  assumes "hello_ok h" "\<not> hello_done h" "record_need (hello_record h) \<le> 18437" "length a < record_need (hello_record h) - length (hello_record h)"
  shows "hello_observe h (a @ b) = hello_observe (h\<lparr>hello_record := hello_record h @ a\<rparr>) b"
proof -
  let ?r = "hello_record h" let ?h = "h\<lparr>hello_record := ?r @ a\<rparr>"
  have need: "record_need (?r @ a) = record_need ?r"
  proof (cases "length ?r < 5")
    case True
    then have "length (?r @ a) < 5" using assms(4) by (simp add: record_need_def)
    then show ?thesis using True by (simp add: record_need_def)
  qed (simp add: record_need_append)
  have short: "length (?r @ a) < record_need (?r @ a)" using need assms(4) by simp
  have kind: "5 \<le> length (?r @ a) \<longrightarrow> (?r @ a) ! 0 = 22 \<and> (?r @ a) ! 1 = 3"
  proof
    assume "5 \<le> length (?r @ a)"
    then have "5 \<le> length ?r" using assms(4) by (auto simp: record_need_def split: if_splits)
    then show "(?r @ a) ! 0 = 22 \<and> (?r @ a) ! 1 = 3" using assms(1,2) by (auto simp: hello_ok_def nth_append)
  qed
  show ?thesis
  proof (cases "b = []")
    case True
    have "hello_observe h a = (?h, None)" if "a \<noteq> []"
      using observe_round [of a h "length a" a "[]"] that assms hello_step_partial [of ?h] short kind by simp
    moreover have "?h = h" if "a = []" using that by simp
    ultimately show ?thesis using True by (cases "a = []") simp_all
  next
    case False
    let ?k = "min (length b) (record_need ?r - length (?r @ a))"
    have k: "?k \<noteq> 0" using False short need by simp
    have "hello_observe h (a @ b) = (case hello_step (h\<lparr>hello_record := ?r @ a @ take ?k b\<rparr>) of
        Inl x \<Rightarrow> x | Inr h \<Rightarrow> hello_observe h (drop ?k b))"
      by (rule observe_round [where n = "length a + ?k"]) (use False assms(2-4) k in simp_all)
    moreover have "hello_observe ?h b = (case hello_step (?h\<lparr>hello_record := (?r @ a) @ take ?k b\<rparr>) of
        Inl x \<Rightarrow> x | Inr h \<Rightarrow> hello_observe h (drop ?k b))"
      using observe_round [of b ?h ?k "take ?k b" "drop ?k b"] False assms(2,3) k need by simp
    ultimately show ?thesis by simp
  qed
qed

lemma record_filled:
  fixes bs r :: bytes
  defines "n \<equiv> min (length bs) (record_need r - length r)"
  assumes "length r < record_need r"
  shows "length (r @ take n bs) \<le> record_need (r @ take n bs)"
proof (cases "length r < 5")
  case True
  then have "length (r @ take n bs) \<le> 5" by (simp add: record_need_def n_def)
  then show ?thesis using record_need_ge [of "r @ take n bs"] by linarith
next
  case False
  then show ?thesis using assms(2) by (simp add: record_need_append n_def)
qed

lemma observe_append:
  "hello_ok h \<Longrightarrow>
     hello_observe h (a @ b) =
       (let (h1, r1) = hello_observe h a; (h2, r2) = hello_observe h1 b in (h2, if r1 = None then r2 else r1))"
proof (induction h a rule: hello_observe.induct)
  case (1 h a)
  let ?r = "hello_record h" let ?n = "record_need ?r - length ?r"
  show ?case
  proof (cases "a = [] \<or> hello_done h \<or> 18437 < record_need ?r")
    case True
    then consider "a = []" | "hello_done h" | "a \<noteq> []" "18437 < record_need ?r" by blast
    then show ?thesis
    proof cases
      case 3
      then show ?thesis by (cases "hello_done h") (simp_all add: hello_observe.simps [of h] observe_done)
    qed (simp_all add: observe_done split: prod.split)
  next
    case ok: False
    show ?thesis
    proof (cases "length a < ?n")
      case True
      have "hello_observe h a = (h\<lparr>hello_record := ?r @ a\<rparr>, None)"
        using observe_feed [of h a "[]"] 1(2) ok True by simp
      then show ?thesis using observe_feed [of h a b] 1(2) ok True by (simp split: prod.split)
    next
      case False
      have n: "0 < ?n" using 1(2) ok by (simp add: hello_ok_def)
      let ?h = "h\<lparr>hello_record := ?r @ take ?n a\<rparr>"
      have a: "hello_observe h a = (case hello_step ?h of Inl x \<Rightarrow> x | Inr h \<Rightarrow> hello_observe h (drop ?n a))"
        by (rule observe_round [where n = ?n]) (use ok False n in auto)
      have ab: "hello_observe h (a @ b) = (case hello_step ?h of Inl x \<Rightarrow> x | Inr h \<Rightarrow> hello_observe h (drop ?n a @ b))"
        by (rule observe_round [where n = ?n]) (use ok False n in auto)
      show ?thesis
      proof (cases "hello_step ?h")
        case (Inl x)
        then show ?thesis using hello_step_done [OF Inl] by (cases x) (simp add: a ab observe_done)
      next
        case (Inr h')
        have "length (?r @ take ?n a) \<le> record_need (?r @ take ?n a)" 
        proof -
          have "min (length a) ?n = ?n" using False by simp
          then show ?thesis using record_filled [of ?r a] n by (simp only: diff_is_0_eq zero_less_diff)
        qed
        then have "hello_ok h'" using hello_step_ok [OF Inr] by simp
        then show ?thesis using 1(1) [of ?n h'] ok False n Inr by (simp add: a ab min_def)
      qed
    qed
  qed
qed

text \<open>Reads one after another, as a stream delivers them; the first finding stands.\<close>

fun observe_chunks :: "tls_hello \<Rightarrow> bytes list \<Rightarrow> tls_hello \<times> bool option" where
  "observe_chunks h [] = (h, None)"
| "observe_chunks h (c # cs) =
     (let (h1, r1) = hello_observe h c; (h2, r2) = observe_chunks h1 cs in (h2, if r1 = None then r2 else r1))"

lemma observe_ok: "hello_ok h \<Longrightarrow> hello_ok (fst (hello_observe h bs))"
proof (induction h bs rule: hello_observe.induct)
  case (1 h bs)
  let ?n = "min (length bs) (record_need (hello_record h) - length (hello_record h))"
  let ?h = "h\<lparr>hello_record := hello_record h @ take ?n bs\<rparr>"
  show ?case
  proof (cases "bs = [] \<or> hello_done h \<or> 18437 < record_need (hello_record h) \<or> ?n = 0")
    case True
    then show ?thesis using 1(2) by (auto simp: hello_observe.simps [of h] hello_ok_def)
  next
    case ok: False
    then have e: "hello_observe h bs = (case hello_step ?h of Inl z \<Rightarrow> z | Inr h \<Rightarrow> hello_observe h (drop ?n bs))"
      by (intro observe_round) auto
    show ?thesis
    proof (cases "hello_step ?h")
      case (Inl x)
      then show ?thesis using hello_step_done e by (simp add: hello_ok_def)
    next
      case (Inr h')
      have "hello_ok h'" using hello_step_ok [OF Inr] record_filled [of "hello_record h" bs] 1(2) ok by (simp add: hello_ok_def)
      then show ?thesis using 1(1) [of ?n h'] ok Inr e by simp
    qed
  qed
qed

lemma observe_chunks_concat: "hello_ok h \<Longrightarrow> observe_chunks h cs = hello_observe h (concat cs)"
proof (induction cs arbitrary: h)
  case Nil
  then show ?case by simp
next
  case (Cons c cs)
  obtain h1 r1 where c: "hello_observe h c = (h1, r1)" by fastforce
  then have "hello_ok h1" using observe_ok [OF Cons.prems, of c] by simp
  then show ?case using Cons c by (simp add: observe_append)
qed

text \<open>C18: The detection of a TLS 1.3 server answer does not depend on how the stream is cut into reads: feeding
  the pieces one after the other gives the same answer, and leaves the same state, as feeding them at once.\<close>

theorem hello_chunks: "observe_chunks hello_new cs = hello_observe hello_new (concat cs)"
  by (rule observe_chunks_concat) (simp add: hello_ok_def hello_new_def record_need_def)

end
