(* ===== verification/VisionStream.thy ===== *)
theory VisionStream
  imports Framing Vision
begin

text \<open>
  The stream of XTLS Vision (\<^verbatim>\<open>VisionStream\<close> in \<^verbatim>\<open>crates/protocol/src/vision.rs\<close>) above the response header of
  VLESS (\<^verbatim>\<open>ResponseStream\<close> in \<^verbatim>\<open>vless.rs\<close>): frames with padding, and the switches from the outer TLS stream to
  direct input and output. The stream below is a list of bytes, each with the layer it travels in (\<open>True\<close>
  when it bypasses the outer TLS). How many bytes each read or write transfers, whether it has to wait, and
  the random padding are arguments.
\<close>

section \<open>Definitions\<close>

text \<open>
  The receiving end: the bytes that arrive with their layers, how many bytes the next reads may transfer
  (none left: the read has to wait), the layer that is read, and what was read of the response header.
\<close>

record source =
  incoming :: "(bool \<times> u8) list"
  arrivals :: "nat list"
  read_direct :: bool
  resp_header :: bytes
  discard :: nat
  resp_ready :: bool
  resp_failed :: bool

text \<open>
  A read of the record stream (\<^verbatim>\<open>RecordStream::poll_read\<close> in \<^verbatim>\<open>record.rs\<close>): the flag selects the outer TLS or the socket
  below it. The bytes that a read transfers belong to one layer; a read in the layer that the next byte does
  not belong to is an error.
\<close>

definition raw_read :: "nat \<Rightarrow> source \<Rightarrow> bytes poll \<times> source" where
  "raw_read n s =
     (case arrivals s of
        [] \<Rightarrow> (Pending, s)
      | k # ks \<Rightarrow>
          let bs = takeWhile (\<lambda>x. fst x = read_direct s) (take (min n (Suc k)) (incoming s))
          in if incoming s = [] then (Ready [], s\<lparr>arrivals := ks\<rparr>)
             else if bs = [] then (Failed ''record layer'', s\<lparr>arrivals := ks\<rparr>)
             else (Ready (map snd bs), s\<lparr>arrivals := ks, incoming := drop (length bs) (incoming s)\<rparr>))"

lemma raw_read_arrivals [simp]: "raw_read n s = (Ready bs, s') \<Longrightarrow> length (arrivals s') < length (arrivals s)"
  by (auto simp: raw_read_def Let_def split: list.splits if_splits)

function header_loop :: "source \<Rightarrow> bytes poll option \<times> source" where
  "header_loop s =
     (if \<not> length (resp_header s) < 2 then (None, s)
      else
        (case raw_read (2 - length (resp_header s)) s of
           (Pending, s) \<Rightarrow> (Some Pending, s)
         | (Failed e, s) \<Rightarrow> (Some (Failed e), s)
         | (Ready bs, s) \<Rightarrow>
             if bs = [] then (Some (Failed ''unexpected end of file''), s)
             else
               let s = s\<lparr>resp_header := resp_header s @ bs\<rparr>
               in if length (resp_header s) = 2 then
                    if resp_header s ! 0 \<noteq> 0 then (Some (Failed ''unsupported VLESS response version''), s\<lparr>resp_failed := True\<rparr>)
                    else header_loop (s\<lparr>discard := unat (resp_header s ! 1)\<rparr>)
                  else header_loop s))"
  by pat_completeness auto
termination
  by (relation "measure (\<lambda>s. length (arrivals s))") (auto dest!: raw_read_arrivals sym [of _ "raw_read _ _"])

function discard_loop :: "source \<Rightarrow> bytes poll option \<times> source" where
  "discard_loop s =
     (if resp_ready s \<or> discard s = 0 then (None, s)
      else
        (case raw_read (discard s) s of
           (Pending, s) \<Rightarrow> (Some Pending, s)
         | (Failed e, s) \<Rightarrow> (Some (Failed e), s)
         | (Ready bs, s) \<Rightarrow>
             if bs = [] then (Some (Failed ''unexpected end of file''), s)
             else discard_loop (s\<lparr>discard := discard s - length bs\<rparr>)))"
  by pat_completeness auto
termination
  by (relation "measure (\<lambda>s. length (arrivals s))") (auto dest!: raw_read_arrivals sym [of _ "raw_read _ _"])

declare header_loop.simps [simp del] discard_loop.simps [simp del]

definition response_read :: "nat \<Rightarrow> source \<Rightarrow> bytes poll \<times> source" where
  "response_read n s =
     (if n = 0 then (Ready [], s)
      else if resp_failed s then (Failed ''invalid VLESS response'', s)
      else
        (case header_loop s of
           (Some p, s) \<Rightarrow> (p, s)
         | (None, s) \<Rightarrow>
             (case discard_loop s of
                (Some p, s) \<Rightarrow> (p, s)
              | (None, s) \<Rightarrow> raw_read n (s\<lparr>resp_ready := True\<rparr>))))"

lemma raw_read_le: "length (arrivals (snd (raw_read n s))) \<le> length (arrivals s)"
  by (auto simp: raw_read_def Let_def split: list.splits)

lemma header_loop_arrivals: "length (arrivals (snd (header_loop s))) \<le> length (arrivals s)"
proof (induction s rule: header_loop.induct)
  case (1 s)
  obtain p s' where r: "raw_read (2 - length (resp_header s)) s = (p, s')" by fastforce
  then have le: "length (arrivals s') \<le> length (arrivals s)" using raw_read_le [of "2 - length (resp_header s)" s] by simp
  show ?case using 1 r le by (cases p) (auto simp: header_loop.simps [of s] Let_def intro!: order_trans [OF _ le])
qed

lemma header_loop_waits: "fst (header_loop s) \<noteq> Some (Ready bs)"
proof (induction s rule: header_loop.induct)
  case (1 s)
  obtain p s' where r: "raw_read (2 - length (resp_header s)) s = (p, s')" by fastforce
  then show ?case using 1 by (cases p) (auto simp: header_loop.simps [of s] Let_def)
qed

lemma discard_loop_arrivals: "length (arrivals (snd (discard_loop s))) \<le> length (arrivals s)"
proof (induction s rule: discard_loop.induct)
  case (1 s)
  obtain p s' where r: "raw_read (discard s) s = (p, s')" by fastforce
  then have le: "length (arrivals s') \<le> length (arrivals s)" using raw_read_le [of "discard s" s] by simp
  show ?case using 1 r le by (cases p) (auto simp: discard_loop.simps [of s] Let_def intro!: order_trans [OF _ le])
qed

lemma discard_loop_waits: "fst (discard_loop s) \<noteq> Some (Ready bs)"
proof (induction s rule: discard_loop.induct)
  case (1 s)
  obtain p s' where r: "raw_read (discard s) s = (p, s')" by fastforce
  then show ?case using 1 by (cases p) (auto simp: discard_loop.simps [of s] Let_def)
qed

lemma response_read_arrivals:
  assumes "response_read n s = (Ready bs, s')" and "n \<noteq> 0"
  shows "length (arrivals s') < length (arrivals s)"
proof -
  obtain p1 s1 where h: "header_loop s = (p1, s1)" by fastforce
  obtain p2 s2 where d: "discard_loop s1 = (p2, s2)" by fastforce
  have "p1 = None" "p2 = None" "raw_read n (s2\<lparr>resp_ready := True\<rparr>) = (Ready bs, s')"
    using assms h d header_loop_waits [of s bs] discard_loop_waits [of s1 bs]
    by (auto simp: response_read_def split: if_splits option.splits)
  then show ?thesis
    using raw_read_arrivals header_loop_arrivals [of s] discard_loop_arrivals [of s1] h d by fastforce
qed

text \<open>
  A Vision stream: the reading half above the response header, the writing half with its frame buffer, the
  bytes the stream below has taken with their layers, and the observation of both directions.
\<close>

record vision =
  below :: source
  v_id :: bytes
  read_header :: bytes
  read_first :: bool
  content :: nat
  padding :: nat
  v_command :: u8
  read_plain :: bool
  write_first :: bool
  write_plain :: bool
  frame_buffer :: bytes
  written :: nat
  switch_write :: bool
  v_sniff :: inner_tls
  v_failed :: bool
  v_closed :: bool
  write_direct :: bool
  sent :: "(bool \<times> u8) list"

definition source_new :: "(bool \<times> u8) list \<Rightarrow> source" where
  "source_new bs = \<lparr>incoming = bs, arrivals = [], read_direct = False, resp_header = [], discard = 0,
     resp_ready = False, resp_failed = False\<rparr>"

definition vision_framed :: "(bool \<times> u8) list \<Rightarrow> bytes \<Rightarrow> vision" where
  "vision_framed bs i = \<lparr>below = source_new bs, v_id = i, read_header = [], read_first = True, content = 0, padding = 0,
     v_command = 0, read_plain = False, write_first = True, write_plain = False, frame_buffer = [], written = 0,
     switch_write = False, v_sniff = \<lparr>client = [], server = hello_new, tls = False, tls13 = False, remaining = 65536\<rparr>,
     v_failed = False, v_closed = False, write_direct = False, sent = []\<rparr>"

definition vision_new :: "bool \<Rightarrow> (bool \<times> u8) list \<Rightarrow> bytes \<Rightarrow> vision result" where
  "vision_new outer_tls13 bs i = (if outer_tls13 then Inr (vision_framed bs i) else Inl ''Vision requires outer TLS 1.3'')"

subsection \<open>Writing\<close>

text \<open>What the stream below does with the writes of a call: how many bytes each takes, and whether a flush completes.\<close>

fun write_loop :: "nat list \<Rightarrow> vision \<Rightarrow> unit poll \<times> vision" where
  "write_loop [] v = (if written v < length (frame_buffer v) then (Pending, v) else (Ready (), v))"
| "write_loop (k # ks) v =
     (if written v < length (frame_buffer v) then
        let n = min k (length (frame_buffer v) - written v)
        in if n = 0 then (Failed ''write zero'', v)
           else write_loop ks (v\<lparr>written := written v + n,
             sent := sent v @ map (Pair (write_direct v)) (take n (drop (written v) (frame_buffer v)))\<rparr>)
      else (Ready (), v))"

definition flush_frame :: "nat list \<Rightarrow> bool \<Rightarrow> vision \<Rightarrow> unit poll \<times> vision" where
  "flush_frame ks flushed v =
     (case write_loop ks v of
        (Ready _, v) \<Rightarrow>
          if \<not> flushed then (Pending, v)
          else
            let v = v\<lparr>frame_buffer := [], written := 0\<rparr>
            in (Ready (), if switch_write v then v\<lparr>write_direct := True, switch_write := False\<rparr> else v)
      | (p, v) \<Rightarrow> (p, v))"

definition frame_command :: "bytes \<Rightarrow> inner_tls \<Rightarrow> u8" where
  "frame_command bs t =
     (if tls t \<and> take 3 bs = [0x17, 3, 3] then if tls13 t then 2 else 1
      else if remaining t = 0 \<or> \<not> tls t \<and> 8 \<le> length (client t) then 1
      else 0)"

definition frame_padding :: "nat \<Rightarrow> bytes \<Rightarrow> inner_tls \<Rightarrow> nat" where
  "frame_padding random bs t =
     (if 900 \<le> length bs then 0 else if tls t then 900 - length bs + random mod 500 else random mod 256)"

text \<open>The stream below takes \<open>direct\<close> bytes of a write that is passed through, or makes it wait.\<close>

definition poll_write :: "nat list \<Rightarrow> bool \<Rightarrow> nat option \<Rightarrow> nat \<Rightarrow> bytes \<Rightarrow> vision \<Rightarrow> nat poll \<times> vision" where
  "poll_write ks flushed taken random bs v =
     (case flush_frame ks flushed v of
        (Pending, v) \<Rightarrow> (Pending, v)
      | (Failed e, v) \<Rightarrow> (Failed e, v)
      | (Ready _, v) \<Rightarrow>
          if write_plain v then
            case taken of
              None \<Rightarrow> (Pending, v)
            | Some k \<Rightarrow>
                let n = min k (length bs)
                in (Ready n, v\<lparr>sent := sent v @ map (Pair (write_direct v)) (take n bs)\<rparr>)
          else if bs = [] then (Ready 0, v)
          else
            let bs = take (8192 - 21) bs;
                t = inner_observe bs False (v_sniff v);
                c = frame_command bs t;
                p = frame_padding random bs t
            in (Ready (length bs),
                v\<lparr>v_sniff := t,
                  frame_buffer := frame_buffer v @ (if write_first v then v_id v else []) @ [c] @
                    be_bytes 2 (length bs) @ be_bytes 2 p @ bs @ replicate p 0,
                  write_first := False,
                  write_plain := (c \<noteq> 0 \<or> write_plain v),
                  switch_write := (c = 2)\<rparr>))"

definition poll_flush :: "nat list \<Rightarrow> bool \<Rightarrow> vision \<Rightarrow> unit poll \<times> vision" where
  "poll_flush ks flushed v = flush_frame ks flushed v"

definition poll_shutdown :: "nat list \<Rightarrow> bool \<Rightarrow> bool \<Rightarrow> vision \<Rightarrow> unit poll \<times> vision" where
  "poll_shutdown ks flushed closed v =
     (case flush_frame ks flushed v of
        (Ready _, v) \<Rightarrow> if closed then (Ready (), v\<lparr>v_closed := True\<rparr>) else (Pending, v)
      | (p, v) \<Rightarrow> (p, v))"

subsection \<open>Reading\<close>

definition lift_read :: "nat \<Rightarrow> vision \<Rightarrow> bytes poll \<times> vision" where
  "lift_read n v = (case response_read n (below v) of (p, s) \<Rightarrow> (p, v\<lparr>below := s\<rparr>))"

lemma lift_read_arrivals: "lift_read n v = (Ready bs, v') \<Longrightarrow> n \<noteq> 0 \<Longrightarrow> length (arrivals (below v')) < length (arrivals (below v))"
  by (auto simp: lift_read_def split: prod.splits dest: response_read_arrivals)

function padding_loop :: "vision \<Rightarrow> bytes poll option \<times> vision" where
  "padding_loop v =
     (if padding v = 0 then (None, v)
      else
        (case lift_read (min (padding v) 2048) v of
           (Pending, v) \<Rightarrow> (Some Pending, v)
         | (Failed e, v) \<Rightarrow> (Some (Failed e), v)
         | (Ready bs, v) \<Rightarrow>
             if bs = [] then (Some (Failed ''unexpected end of file''), v)
             else padding_loop (v\<lparr>padding := padding v - length bs\<rparr>)))"
  by pat_completeness auto
termination
  by (relation "measure (\<lambda>v. length (arrivals (below v)))") (auto dest!: lift_read_arrivals sym [of _ "lift_read _ _"])

definition header_need :: "vision \<Rightarrow> nat" where
  "header_need v = (if read_first v then 21 else 5)"

function frame_header_loop :: "vision \<Rightarrow> bytes poll option \<times> vision" where
  "frame_header_loop v =
     (if \<not> length (read_header v) < header_need v then (None, v)
      else
        (case lift_read (header_need v - length (read_header v)) v of
           (Pending, v) \<Rightarrow> (Some Pending, v)
         | (Failed e, v) \<Rightarrow> (Some (Failed e), v)
         | (Ready bs, v) \<Rightarrow>
             if bs = [] then (Some (if read_header v = [] then Ready [] else Failed ''unexpected end of file''), v)
             else frame_header_loop (v\<lparr>read_header := read_header v @ bs\<rparr>)))"
  by pat_completeness auto
termination
  by (relation "measure (\<lambda>v. length (arrivals (below v)))") (auto dest!: lift_read_arrivals sym [of _ "lift_read _ _"])

declare padding_loop.simps [simp del] frame_header_loop.simps [simp del]

definition deliver_header :: "nat \<Rightarrow> vision \<Rightarrow> bytes poll \<times> vision" where
  "deliver_header n v =
     (let k = min (length (read_header v)) n
      in (Ready (take k (read_header v)), v\<lparr>read_header := drop k (read_header v)\<rparr>))"

definition plain_read :: "nat \<Rightarrow> vision \<Rightarrow> bytes poll \<times> vision" where
  "plain_read n v = (if read_header v \<noteq> [] then deliver_header n v else lift_read n v)"

definition content_read :: "nat \<Rightarrow> vision \<Rightarrow> bytes poll \<times> vision" where
  "content_read n v =
     (case lift_read (min n (content v)) v of
        (Ready bs, v) \<Rightarrow>
          if bs = [] then (Failed ''unexpected end of file'', v)
          else (Ready bs, v\<lparr>v_sniff := inner_observe bs True (v_sniff v), content := content v - length bs\<rparr>)
      | (p, v) \<Rightarrow> (p, v))"

text \<open>The frame after a complete header: \<open>Inl\<close> ends the call, \<open>Inr\<close> goes on with the frame.\<close>

definition frame_parse :: "nat \<Rightarrow> vision \<Rightarrow> (bytes poll \<times> vision) + vision" where
  "frame_parse n v =
     (if read_first v \<and> take 16 (read_header v) \<noteq> v_id v then
        Inl (deliver_header n (v\<lparr>read_first := False, read_plain := True\<rparr>))
      else
        let h = (if read_first v then drop 16 (read_header v) else read_header v);
            v = v\<lparr>read_first := False, v_command := h ! 0\<rparr>
        in if 2 < h ! 0 then Inl (Failed ''invalid Vision command'', v\<lparr>v_failed := True\<rparr>)
           else Inr (v\<lparr>content := be_val [h ! 1, h ! 2], padding := be_val [h ! 3, h ! 4], read_header := []\<rparr>))"

definition direct_switch :: "vision \<Rightarrow> vision" where
  "direct_switch v =
     (if v_command v = 2 then v\<lparr>below := (below v)\<lparr>read_direct := True\<rparr>, read_plain := True\<rparr> else v\<lparr>read_plain := True\<rparr>)"

text \<open>At most as many frame headers as the first argument are read in a call.\<close>

fun read_loop :: "nat \<Rightarrow> nat \<Rightarrow> vision \<Rightarrow> bytes poll \<times> vision" where
  "read_loop 0 n v = (Pending, v)"
| "read_loop (Suc m) n v =
     (if read_plain v then plain_read n v
      else if 0 < content v then content_read n v
      else
        (case padding_loop v of
           (Some p, v) \<Rightarrow> (p, v)
         | (None, v) \<Rightarrow>
             if v_command v \<noteq> 0 then plain_read n (direct_switch v)
             else
               (case frame_header_loop v of
                  (Some p, v) \<Rightarrow> (p, v)
                | (None, v) \<Rightarrow>
                    (case frame_parse n v of
                       Inl z \<Rightarrow> z
                     | Inr v \<Rightarrow> read_loop m n v))))"

definition poll_read :: "nat list \<Rightarrow> bool \<Rightarrow> nat \<Rightarrow> vision \<Rightarrow> bytes poll \<times> vision" where
  "poll_read ks flushed n v =
     (if n = 0 then (Ready [], v)
      else if v_failed v then (Failed ''invalid Vision stream'', v)
      else
        (case flush_frame ks flushed v of
           (Failed e, v) \<Rightarrow> (Failed e, v)
         | (_, v) \<Rightarrow> read_loop 64 n v))"

section \<open>The contract of a layer\<close>

text \<open>
  A layer delivers the bytes it holds in order, at least one for every successful read unless all are
  delivered. A read uses up what has arrived only if it gets ahead in the stream below.
\<close>

definition advances :: "source \<Rightarrow> source \<Rightarrow> bool" where
  "advances s s' \<longleftrightarrow> read_direct s' = read_direct s \<and>
     (length (incoming s') < length (incoming s) \<or> incoming s' = incoming s \<and> arrivals s' = arrivals s)"

definition stalls :: "source \<Rightarrow> source \<Rightarrow> bool" where
  "stalls s s' \<longleftrightarrow> read_direct s' = read_direct s \<and>
     (length (incoming s') < length (incoming s) \<or> incoming s' = incoming s \<and> arrivals s = [])"

lemma advances_refl [simp]: "advances s s"
  by (simp add: advances_def)

lemma advances_trans: "advances s s' \<Longrightarrow> advances s' s'' \<Longrightarrow> advances s s''"
  by (auto simp: advances_def)

lemma stalls_trans: "advances s s' \<Longrightarrow> stalls s' s'' \<Longrightarrow> stalls s s''"
  by (auto simp: advances_def stalls_def)

lemma advances_less: "read_direct s' = read_direct s \<Longrightarrow> length (incoming s') < length (incoming s) \<Longrightarrow> advances s s'"
  by (simp add: advances_def)

locale layer =
  fixes read :: "nat \<Rightarrow> source \<Rightarrow> bytes poll \<times> source"
    and holds :: "bool \<Rightarrow> source \<Rightarrow> bytes \<Rightarrow> (bool \<times> u8) list \<Rightarrow> bool"
  assumes read_holds:
    "\<lbrakk>holds b s ys zs; 0 < n; n \<le> length ys \<or> zs = []; read n s = (p, s')\<rbrakk>
     \<Longrightarrow> p = Pending \<and> holds b s' ys zs \<and> stalls s s'
       \<or> p = Ready [] \<and> ys = [] \<and> zs = [] \<and> holds True s' [] [] \<and> read_direct s' = read_direct s
       \<or> (\<exists>m. 0 < m \<and> m \<le> n \<and> m \<le> length ys \<and> p = Ready (take m ys) \<and> holds True s' (drop m ys) zs
            \<and> read_direct s' = read_direct s \<and> length (incoming s') < length (incoming s))"
begin

lemma read_cases:
  assumes "holds b s ys zs" and "0 < n" and "n \<le> length ys \<or> zs = []"
  obtains s' where "read n s = (Pending, s')" and "holds b s' ys zs" and "stalls s s'"
  | s' where "read n s = (Ready [], s')" and "ys = []" and "zs = []" and "holds True s' [] []"
      and "read_direct s' = read_direct s"
  | m s' where "read n s = (Ready (take m ys), s')" and "0 < m" and "m \<le> n" and "m \<le> length ys"
      and "holds True s' (drop m ys) zs" and "read_direct s' = read_direct s"
      and "length (incoming s') < length (incoming s)"
proof -
  obtain p s' where r: "read n s = (p, s')" by fastforce
  show ?thesis using read_holds [OF assms r] r that by blast
qed

lemma read_some:
  assumes "holds b s ys zs" and "0 < n" and "n \<le> length ys"
  obtains s' where "read n s = (Pending, s')" and "holds b s' ys zs" and "stalls s s'"
  | m s' where "read n s = (Ready (take m ys), s')" and "0 < m" and "m \<le> n" and "m \<le> length ys"
      and "holds True s' (drop m ys) zs" and "read_direct s' = read_direct s"
      and "length (incoming s') < length (incoming s)"
  using assms by (cases rule: read_cases [OF assms(1,2)]) auto

end

definition raw_holds :: "bool \<Rightarrow> source \<Rightarrow> bytes \<Rightarrow> (bool \<times> u8) list \<Rightarrow> bool" where
  "raw_holds b s ys zs \<longleftrightarrow> incoming s = map (Pair (read_direct s)) ys @ zs"

text \<open>The plain stream: a read changes nothing but what has arrived and what is still to come.\<close>

lemma raw_read_step:
  assumes "raw_holds b s ys zs" and "0 < n" and "n \<le> length ys \<or> zs = []"
  shows "arrivals s = [] \<and> raw_read n s = (Pending, s)
    \<or> ys = [] \<and> zs = [] \<and> raw_read n s = (Ready [], s\<lparr>arrivals := tl (arrivals s)\<rparr>)
    \<or> (\<exists>m. 0 < m \<and> m \<le> n \<and> m \<le> length ys \<and>
         raw_read n s = (Ready (take m ys), s\<lparr>arrivals := tl (arrivals s), incoming := map (Pair (read_direct s)) (drop m ys) @ zs\<rparr>))"
proof (cases "arrivals s")
  case Nil
  then show ?thesis by (simp add: raw_read_def)
next
  case (Cons k ks)
  let ?m = "min (length ys) (min n (Suc k))"
  have i: "incoming s = map (Pair (read_direct s)) ys @ zs" using assms(1) by (simp add: raw_holds_def)
  show ?thesis
  proof (cases "ys = []")
    case True
    then have "zs = []" using assms by auto
    then show ?thesis using True i Cons by (simp add: raw_read_def)
  next
    case False
    have t: "take (min n (Suc k)) (incoming s) = map (Pair (read_direct s)) (take ?m ys)"
      using assms(3) by (auto simp: i take_map min_def)
    have w: "takeWhile (\<lambda>x. fst x = read_direct s) (map (Pair (read_direct s)) (take ?m ys)) = map (Pair (read_direct s)) (take ?m ys)"
      by (simp add: takeWhile_eq_all_conv)
    have "0 < ?m" using False assms(2) by simp
    moreover have "incoming s \<noteq> []" using False i by simp
    then have "raw_read n s = (Ready (take ?m ys), s\<lparr>arrivals := ks, incoming := drop (length (take ?m ys)) (incoming s)\<rparr>)"
      using False assms(2) by (simp only: raw_read_def Cons t w Let_def list.case) (simp add: o_def)
    moreover have "drop (length (take ?m ys)) (incoming s) = map (Pair (read_direct s)) (drop ?m ys) @ zs"
      by (simp add: i drop_map)
    ultimately show ?thesis using Cons by (intro disjI2 exI [of _ ?m]) simp
  qed
qed

interpretation raw: layer raw_read raw_holds
proof
  fix b s ys zs n p s'
  assume a: "raw_holds b s ys zs" "0 < n" "n \<le> length ys \<or> zs = []" "raw_read n s = (p, s')"
  show "p = Pending \<and> raw_holds b s' ys zs \<and> stalls s s'
       \<or> p = Ready [] \<and> ys = [] \<and> zs = [] \<and> raw_holds True s' [] [] \<and> read_direct s' = read_direct s
       \<or> (\<exists>m. 0 < m \<and> m \<le> n \<and> m \<le> length ys \<and> p = Ready (take m ys) \<and> raw_holds True s' (drop m ys) zs
            \<and> read_direct s' = read_direct s \<and> length (incoming s') < length (incoming s))"
    using raw_read_step [OF a(1-3)] a(1,4) by (auto simp: raw_holds_def stalls_def)
qed

section \<open>The response header\<close>

text \<open>What is still to be read of the response: two bytes, and as many more as the second one says.\<close>

definition resp_ok :: "source \<Rightarrow> bytes \<Rightarrow> bool" where
  "resp_ok s rs \<longleftrightarrow> \<not> resp_failed s \<and> length (resp_header s) \<le> 2 \<and>
     (if resp_ready s then length (resp_header s) = 2 \<and> rs = []
      else if length (resp_header s) = 2 then length rs = discard s
      else \<exists>k addon. resp_header s @ rs = 0 # k # addon \<and> length addon = unat k)"

definition resp_holds :: "bool \<Rightarrow> source \<Rightarrow> bytes \<Rightarrow> (bool \<times> u8) list \<Rightarrow> bool" where
  "resp_holds b s ys zs \<longleftrightarrow> (\<exists>rs. resp_ok s rs \<and> raw_holds b s (rs @ ys) zs \<and> (b \<longrightarrow> resp_ready s))"

lemma resp_ok_upd [simp]:
  "resp_ok (s\<lparr>arrivals := a\<rparr>) rs = resp_ok s rs"
  "resp_ok (s\<lparr>incoming := i\<rparr>) rs = resp_ok s rs"
  by (simp_all add: resp_ok_def)

lemma header_loop_done: "\<not> length (resp_header s) < 2 \<Longrightarrow> header_loop s = (None, s)"
  by (simp add: header_loop.simps [of s])

lemma header_loop_step:
  assumes "resp_ok s rs" and "raw_holds b s (rs @ ys) zs"
  shows "\<exists>q s' rs'. header_loop s = (q, s') \<and> resp_ok s' rs' \<and> raw_holds b s' (rs' @ ys) zs \<and> resp_ready s' = resp_ready s \<and>
    (q = None \<and> length (resp_header s') = 2 \<and> advances s s' \<or> q = Some Pending \<and> stalls s s')"
  using assms
proof (induction s arbitrary: rs rule: header_loop.induct)
  case (1 s)
  let ?n = "2 - length (resp_header s)"
  show ?case
  proof (cases "length (resp_header s) < 2")
    case False
    then have "length (resp_header s) = 2" "header_loop s = (None, s)" using 1(3) by (auto simp: header_loop.simps [of s] resp_ok_def)
    then show ?thesis using 1(3,4) by auto
  next
    case True
    then obtain k addon where h: "resp_header s @ rs = 0 # k # addon" "length addon = unat k" and nr: "\<not> resp_ready s"
      using 1(3) by (auto simp: resp_ok_def split: if_splits)
    then have l: "length (resp_header s) + length rs = 2 + unat k" by (metis add_2_eq_Suc length_Cons length_append)
    have n: "0 < ?n" "?n \<le> length (rs @ ys) \<or> zs = []" using True l by auto
    consider "arrivals s = []" "raw_read ?n s = (Pending, s)"
      | m where "0 < m" "m \<le> ?n" "raw_read ?n s = (Ready (take m rs), s\<lparr>arrivals := tl (arrivals s),
          incoming := map (Pair (read_direct s)) (drop m rs @ ys) @ zs\<rparr>)"
      using raw_read_step [OF 1(4) n] l True by fastforce
    then show ?thesis
    proof cases
      case 1
      then show ?thesis using True \<open>resp_ok s rs\<close> \<open>raw_holds b s (rs @ ys) zs\<close> by (auto simp: header_loop.simps [of s] stalls_def)
    next
      case (2 m)
      let ?s = "s\<lparr>arrivals := tl (arrivals s), incoming := map (Pair (read_direct s)) (drop m rs @ ys) @ zs\<rparr>"
      let ?t = "?s\<lparr>resp_header := resp_header s @ take m rs\<rparr>"
      have m: "m \<le> length rs" using 2(2) l by simp
      have i: "raw_holds b ?t (drop m rs @ ys) zs" by (simp add: raw_holds_def)
      have adv: "advances s ?t" using 1(4) 2(1) m by (intro advances_less) (auto simp: raw_holds_def)
      have ne: "take m rs \<noteq> []" using 2(1) m by auto
      show ?thesis
      proof (cases "m = ?n")
        case m2: True
        have "take 2 (resp_header s @ rs) = [0, k]" "drop 2 (resp_header s @ rs) = addon" by (simp_all add: h(1))
        then have two: "resp_header s @ take m rs = [0, k]" "drop m rs = addon" using m2 True by simp_all
        then have "length (resp_header s) + min (length rs) m = 2" using m2 True m by simp
        then have "header_loop s = (None, ?t\<lparr>discard := unat k\<rparr>)"
          using True 2(3) ne two by (simp add: header_loop.simps [of s] header_loop_done Let_def)
        moreover have "resp_ok (?t\<lparr>discard := unat k\<rparr>) (drop m rs)"
          using 1(3) two h(2) nr by (simp add: resp_ok_def)
        moreover have "raw_holds b (?t\<lparr>discard := unat k\<rparr>) (drop m rs @ ys) zs" using i by (simp add: raw_holds_def)
        moreover have "advances s (?t\<lparr>discard := unat k\<rparr>)" using adv by (simp add: advances_def)
        ultimately show ?thesis using two by (intro exI [of _ None] exI [of _ "?t\<lparr>discard := unat k\<rparr>"] exI [of _ "drop m rs"]) simp
      next
        case False
        then have less: "length (resp_header s @ take m rs) < 2" using 2(2) m by simp
        have "resp_ok ?t (drop m rs)" using 1(3) less h nr by (auto simp: resp_ok_def)
        moreover have "header_loop s = header_loop ?t" using True 2(3) ne less by (simp add: header_loop.simps [of s] Let_def)
        moreover have "\<exists>q s' rs'. header_loop ?t = (q, s') \<and> resp_ok s' rs' \<and> raw_holds b s' (rs' @ ys) zs \<and> resp_ready s' = resp_ready ?t \<and>
            (q = None \<and> length (resp_header s') = 2 \<and> advances ?t s' \<or> q = Some Pending \<and> stalls ?t s')"
          if "resp_ok ?t (drop m rs)"
          using 1(2) [of "Ready (take m rs)" ?s "take m rs"] True 2(3) ne less i that by simp
        ultimately show ?thesis using advances_trans [OF adv] stalls_trans [OF adv] by fastforce
      qed
    qed
  qed
qed

lemma discard_loop_step:
  assumes "resp_ok s rs" and "raw_holds b s (rs @ ys) zs" and "length (resp_header s) = 2"
  shows "\<exists>q s' rs'. discard_loop s = (q, s') \<and> resp_ok s' rs' \<and> raw_holds b s' (rs' @ ys) zs \<and> resp_ready s' = resp_ready s \<and>
    length (resp_header s') = 2 \<and> (q = None \<and> rs' = [] \<and> advances s s' \<or> q = Some Pending \<and> stalls s s')"
  using assms
proof (induction s arbitrary: rs rule: discard_loop.induct)
  case (1 s)
  show ?case
  proof (cases "resp_ready s \<or> discard s = 0")
    case True
    then have "rs = []" "discard_loop s = (None, s)" using 1(2,4) by (auto simp: resp_ok_def discard_loop.simps [of s] split: if_splits)
    then show ?thesis using 1(2-4) by auto
  next
    case False
    then have l: "length rs = discard s" using 1(2,4) by (simp add: resp_ok_def)
    have n: "0 < discard s" "discard s \<le> length (rs @ ys) \<or> zs = []" using False l by auto
    consider "arrivals s = []" "raw_read (discard s) s = (Pending, s)"
      | m where "0 < m" "m \<le> discard s" "raw_read (discard s) s = (Ready (take m rs), s\<lparr>arrivals := tl (arrivals s),
          incoming := map (Pair (read_direct s)) (drop m rs @ ys) @ zs\<rparr>)"
      using raw_read_step [OF 1(3) n] l n by (elim disjE exE conjE) auto
    then show ?thesis
    proof cases
      case 1
      then show ?thesis using False \<open>resp_ok s rs\<close> \<open>raw_holds b s (rs @ ys) zs\<close> \<open>length (resp_header s) = 2\<close>
        by (auto simp: discard_loop.simps [of s] stalls_def)
    next
      case (2 m)
      let ?s = "s\<lparr>arrivals := tl (arrivals s), incoming := map (Pair (read_direct s)) (drop m rs @ ys) @ zs\<rparr>"
      let ?t = "?s\<lparr>discard := discard s - m\<rparr>"
      have m: "m \<le> length rs" using 2(2) l by simp
      have i: "raw_holds b ?t (drop m rs @ ys) zs" by (simp add: raw_holds_def)
      have adv: "advances s ?t" using 1(3) 2(1) m by (intro advances_less) (auto simp: raw_holds_def)
      have ne: "take m rs \<noteq> []" using 2(1) m by auto
      have t: "resp_ok ?t (drop m rs)" using 1(2,4) l False by (simp add: resp_ok_def)
      have mm: "min (length rs) m = m" using m by simp
      have "\<exists>q s' rs'. discard_loop ?t = (q, s') \<and> resp_ok s' rs' \<and> raw_holds b s' (rs' @ ys) zs \<and> resp_ready s' = resp_ready ?t \<and>
          length (resp_header s') = 2 \<and> (q = None \<and> rs' = [] \<and> advances ?t s' \<or> q = Some Pending \<and> stalls ?t s')"
        using 1(1) [of "Ready (take m rs)" ?s "take m rs" "drop m rs"] False 2(3) ne i t 1(4) mm by simp
      moreover have "discard_loop s = discard_loop ?t" using False 2(3) ne mm by (simp add: discard_loop.simps [of s])
      ultimately show ?thesis using advances_trans [OF adv] stalls_trans [OF adv] by fastforce
    qed
  qed
qed

lemma response_read_step:
  assumes "resp_holds b s ys zs" and "0 < n" and "n \<le> length ys \<or> zs = []" and "response_read n s = (p, s')"
  shows "p = Pending \<and> resp_holds b s' ys zs \<and> stalls s s'
    \<or> p = Ready [] \<and> ys = [] \<and> zs = [] \<and> resp_holds True s' [] [] \<and> read_direct s' = read_direct s
    \<or> (\<exists>m. 0 < m \<and> m \<le> n \<and> m \<le> length ys \<and> p = Ready (take m ys) \<and> resp_holds True s' (drop m ys) zs
         \<and> read_direct s' = read_direct s \<and> length (incoming s') < length (incoming s))"
proof -
  obtain rs where rs: "resp_ok s rs" "raw_holds b s (rs @ ys) zs" "b \<longrightarrow> resp_ready s" using assms(1) by (auto simp: resp_holds_def)
  obtain q1 s1 rs1 where h: "header_loop s = (q1, s1)" "resp_ok s1 rs1" "raw_holds b s1 (rs1 @ ys) zs" "resp_ready s1 = resp_ready s"
      "q1 = None \<and> length (resp_header s1) = 2 \<and> advances s s1 \<or> q1 = Some Pending \<and> stalls s s1"
    using header_loop_step [OF rs(1,2)] by auto
  have nf: "\<not> resp_failed s" using rs(1) by (simp add: resp_ok_def)
  show ?thesis
  proof (cases q1)
    case (Some x)
    then show ?thesis using assms(2,4) h nf rs(3) by (auto simp: response_read_def resp_holds_def)
  next
    case None
    then have l: "length (resp_header s1) = 2" and a1: "advances s s1" using h(5) by auto
    obtain q2 s2 rs2 where d: "discard_loop s1 = (q2, s2)" "resp_ok s2 rs2" "raw_holds b s2 (rs2 @ ys) zs" "resp_ready s2 = resp_ready s1"
        "length (resp_header s2) = 2" "q2 = None \<and> rs2 = [] \<and> advances s1 s2 \<or> q2 = Some Pending \<and> stalls s1 s2"
      using discard_loop_step [OF h(2,3) l] by blast
    show ?thesis
    proof (cases q2)
      case (Some x)
      then show ?thesis using assms(2,4) h(1,4) None d nf rs(3) stalls_trans [OF a1] by (auto simp: response_read_def resp_holds_def)
    next
      case n2: None
      let ?t = "s2\<lparr>resp_ready := True\<rparr>"
      have r: "raw_read n ?t = (p, s')" using assms(2,4) h(1) None d(1) n2 nf by (simp add: response_read_def)
      have a: "advances s ?t" using advances_trans [OF a1, of s2] d(6) n2 by (auto simp: advances_def)
      have t: "raw_holds b ?t ys zs" "resp_ok ?t []" "rs2 = []" using d n2 by (auto simp: raw_holds_def resp_ok_def)
      from raw_read_step [OF t(1) assms(2,3)] show ?thesis
      proof (elim disjE exE conjE)
        assume "arrivals ?t = []" and "raw_read n ?t = (Pending, ?t)"
        then have "p = Pending" "s' = ?t" and "stalls ?t ?t" using r by (auto simp: stalls_def)
        moreover have "stalls s ?t" using stalls_trans [OF a \<open>stalls ?t ?t\<close>] .
        moreover have "resp_holds b ?t ys zs" using t unfolding resp_holds_def by (intro exI [of _ "[]"]) simp
        ultimately show ?thesis by simp
      next
        assume "ys = []" and "zs = []" and "raw_read n ?t = (Ready [], ?t\<lparr>arrivals := tl (arrivals ?t)\<rparr>)"
        moreover from this have "resp_holds True s' [] []"
          using t r unfolding resp_holds_def by (intro exI [of _ "[]"]) (auto simp: raw_holds_def)
        ultimately show ?thesis using r a by (auto simp: advances_def)
      next
        fix m
        assume m: "0 < m" "m \<le> n" "m \<le> length ys" and "raw_read n ?t = (Ready (take m ys), ?t\<lparr>arrivals := tl (arrivals ?t),
          incoming := map (Pair (read_direct ?t)) (drop m ys) @ zs\<rparr>)"
        then have p: "p = Ready (take m ys)" and s': "s' = ?t\<lparr>arrivals := tl (arrivals ?t), incoming := map (Pair (read_direct ?t)) (drop m ys) @ zs\<rparr>"
          using r by simp_all
        have "resp_holds True s' (drop m ys) zs" using t(2) unfolding resp_holds_def s' by (intro exI [of _ "[]"]) (simp add: raw_holds_def)
        moreover have "length (incoming s') < length (incoming ?t)" using m t(1) by (simp add: s' raw_holds_def)
        then have "length (incoming s') < length (incoming s) \<and> read_direct s' = read_direct s"
          using a by (auto simp: advances_def s')
        ultimately show ?thesis using m p by blast
      qed
    qed
  qed
qed

interpretation response: layer response_read resp_holds
  by unfold_locales (rule response_read_step)

lemma response_open:
  "resp_holds True s [] zs \<Longrightarrow> zs = map (Pair d) ys \<Longrightarrow> resp_holds True (s\<lparr>read_direct := d\<rparr>) ys []"
  by (auto simp: resp_holds_def raw_holds_def resp_ok_def)

section \<open>Frames\<close>

record frame =
  f_command :: u8
  f_content :: bytes
  f_padding :: bytes

definition frame_bytes :: "frame \<Rightarrow> bytes" where
  "frame_bytes f = f_command f # be_bytes 2 (length (f_content f)) @ be_bytes 2 (length (f_padding f)) @ f_content f @ f_padding f"

definition frame_ok :: "frame \<Rightarrow> bool" where
  "frame_ok f \<longleftrightarrow> f_command f \<le> 2 \<and> length (f_content f) < 2 ^ 16 \<and> length (f_padding f) < 2 ^ 16"

text \<open>Every frame but the last continues; what follows a last frame that ends the framing is passed through.\<close>

fun frames_ok :: "frame list \<Rightarrow> bytes \<Rightarrow> bool" where
  "frames_ok [] rest = (rest = [])"
| "frames_ok (f # fs) rest = (frame_ok f \<and> (if f_command f = 0 then frames_ok fs rest else fs = []))"

definition goes_direct :: "frame list \<Rightarrow> bool" where
  "goes_direct fs \<longleftrightarrow> fs \<noteq> [] \<and> f_command (last fs) = 2"

definition frames_bytes :: "frame list \<Rightarrow> bytes" where
  "frames_bytes fs = concat (map frame_bytes fs)"

definition payload :: "frame list \<Rightarrow> bytes \<Rightarrow> bytes" where
  "payload fs rest = concat (map f_content fs) @ rest"

text \<open>What travels: the identifier and the frames inside the outer TLS stream, the rest in either layer.\<close>

definition vision_bytes :: "bytes \<Rightarrow> frame list \<Rightarrow> bytes \<Rightarrow> (bool \<times> u8) list" where
  "vision_bytes i fs rest = map (Pair False) ((if fs = [] then [] else i) @ frames_bytes fs) @ map (Pair (goes_direct fs)) rest"

lemma frames_bytes_simps [simp]:
  "frames_bytes [] = []" "frames_bytes (f # fs) = frame_bytes f @ frames_bytes fs"
  "frames_bytes (fs @ gs) = frames_bytes fs @ frames_bytes gs"
  by (simp_all add: frames_bytes_def)

lemma payload_simps [simp]:
  "payload [] rest = rest" "payload (f # fs) rest = f_content f @ payload fs rest"
  by (simp_all add: payload_def)

section \<open>Reading frames\<close>

text \<open>
  Inside the framing: \<open>xs\<close> and \<open>ps\<close> are the content and padding that are left of the current frame, \<open>fs\<close> the
  frames that follow and \<open>rest\<close> what is passed through; \<open>ys\<close> is what the layer still holds of them.
\<close>

definition reading :: "vision \<Rightarrow> bool \<Rightarrow> bytes \<Rightarrow> bytes \<Rightarrow> bytes \<Rightarrow> frame list \<Rightarrow> bytes \<Rightarrow> bool" where
  "reading v b ys xs ps fs rest \<longleftrightarrow>
     \<not> v_failed v \<and> \<not> read_plain v \<and> \<not> read_direct (below v) \<and> length (v_id v) = 16 \<and>
     resp_holds b (below v) ys (map (Pair (v_command v = 2 \<or> goes_direct fs)) rest) \<and>
     length xs = content v \<and> length ps = padding v \<and> v_command v \<le> 2 \<and>
     (if v_command v = 0 then frames_ok fs rest else fs = []) \<and>
     (xs @ ps \<noteq> [] \<or> v_command v \<noteq> 0 \<longrightarrow> read_header v = [] \<and> \<not> read_first v) \<and> (b \<or> read_first v \<and> read_header v = []) \<and>
     read_header v @ ys = xs @ ps @ (if read_first v \<and> fs \<noteq> [] then v_id v else []) @ frames_bytes fs"

definition passing :: "vision \<Rightarrow> bytes \<Rightarrow> bool" where
  "passing v out \<longleftrightarrow> \<not> v_failed v \<and> read_plain v \<and> read_header v = [] \<and> resp_holds True (below v) out []"

definition reader_ok :: "vision \<Rightarrow> bytes \<Rightarrow> bool" where
  "reader_ok v out \<longleftrightarrow> passing v out \<or>
     (\<exists>b ys xs ps fs rest. reading v b ys xs ps fs rest \<and> length (read_header v) < header_need v \<and> out = xs @ payload fs rest)"

definition blocked :: "source \<Rightarrow> source \<Rightarrow> bool" where
  "blocked s s' \<longleftrightarrow> length (incoming s') < length (incoming s) \<or> incoming s' = incoming s \<and> arrivals s = []"

definition read_result :: "vision \<Rightarrow> bytes \<Rightarrow> bytes poll \<times> vision \<Rightarrow> bool" where
  "read_result v out r \<longleftrightarrow>
     (case r of
        (Pending, v') \<Rightarrow> reader_ok v' out \<and> blocked (below v) (below v')
      | (Failed e, v') \<Rightarrow> False
      | (Ready bs, v') \<Rightarrow>
          (if bs = [] then out = [] \<and> reader_ok v' []
           else \<exists>out'. out = bs @ out' \<and> reader_ok v' out' \<and> length (incoming (below v')) < length (incoming (below v))))"

lemma lift_read_eq: "response_read n (below v) = (p, s) \<Longrightarrow> lift_read n v = (p, v\<lparr>below := s\<rparr>)"
  by (simp add: lift_read_def)

lemma stalls_blocked [simp]: "stalls s s' \<Longrightarrow> blocked s s'"
  by (auto simp: stalls_def blocked_def)

lemma read_result_some:
  assumes "0 < m" and "m \<le> length out" and "reader_ok v' (drop m out)" and "length (incoming (below v')) < length (incoming (below v))"
  shows "read_result v out (Ready (take m out), v')"
proof -
  have "take m out \<noteq> []" and "out = take m out @ drop m out" using assms(1,2) by auto
  then show ?thesis unfolding read_result_def using assms(3,4) by (simp del: append_take_drop_id take_eq_Nil) blast
qed

lemma plain_read_result:
  assumes "passing v out" and "0 < n"
  shows "read_result v out (plain_read n v)"
proof -
  have h: "resp_holds True (below v) out []" and p: "plain_read n v = lift_read n v"
    and v: "\<not> v_failed v" "read_plain v" "read_header v = []"
    using assms(1) by (auto simp: passing_def plain_read_def)
  have ok: "reader_ok (v\<lparr>below := s\<rparr>) ys" if "resp_holds True s ys []" for s ys
    using that v by (simp add: reader_ok_def passing_def)
  show ?thesis
  proof (cases rule: response.read_cases [OF h assms(2) disjI2 [OF refl]])
    case (3 m s')
    then show ?thesis using ok by (simp add: p lift_read_def read_result_some)
  qed (simp_all add: p lift_read_def ok read_result_def)
qed

lemma content_read_result:
  assumes "reading v b ys xs ps fs rest" and "0 < content v" and "0 < n"
  shows "read_result v (xs @ payload fs rest) (content_read n v)"
proof -
  note r = assms(1) [unfolded reading_def]
  have xs: "xs \<noteq> []" "read_header v = []" "\<not> read_first v" "b" and ys: "ys = xs @ ps @ frames_bytes fs"
    and h: "resp_holds b (below v) ys (map (Pair (v_command v = 2 \<or> goes_direct fs)) rest)"
    using r assms(2) by (auto split: if_splits)
  have n: "0 < min n (content v)" "min n (content v) \<le> length ys" using assms(2,3) r ys by auto
  show ?thesis
  proof (cases rule: response.read_some [OF h n])
    case (1 s')
    then have "reading (v\<lparr>below := s'\<rparr>) b ys xs ps fs rest" using r by (simp add: reading_def stalls_def)
    then have "reader_ok (v\<lparr>below := s'\<rparr>) (xs @ payload fs rest)" unfolding reader_ok_def using xs by (force simp: header_need_def)
    then show ?thesis using 1 by (simp add: content_read_def lift_read_def read_result_def)
  next
    case (2 m s')
    let ?v = "v\<lparr>below := s', v_sniff := inner_observe (take m xs) True (v_sniff v), content := content v - m\<rparr>"
    have m: "m \<le> length xs" using 2(3) r by simp
    have t: "take m ys = take m xs" "drop m ys = drop m xs @ ps @ frames_bytes fs" using m ys by simp_all
    have "reading ?v True (drop m ys) (drop m xs) ps fs rest"
      using r 2(5,6) xs t m by (auto simp: reading_def)
    then have "reader_ok ?v (drop m (xs @ payload fs rest))" unfolding reader_ok_def using xs m by (force simp: header_need_def)
    then have "read_result v (xs @ payload fs rest) (Ready (take m (xs @ payload fs rest)), ?v)"
      using 2(2,7) m by (intro read_result_some) simp_all
    moreover have "content_read n v = (Ready (take m (xs @ payload fs rest)), ?v)"
      using 2(1,2) m xs by (simp add: content_read_def lift_read_def t)
    ultimately show ?thesis by simp
  qed
qed

lemma padding_loop_step:
  assumes "reading v b ys [] ps fs rest"
  shows "\<exists>q v' ys' ps'. padding_loop v = (q, v') \<and> reading v' b ys' [] ps' fs rest \<and>
    read_header v' = read_header v \<and> read_first v' = read_first v \<and> v_command v' = v_command v \<and> content v' = content v \<and>
    (q = None \<and> ps' = [] \<and> advances (below v) (below v') \<or> q = Some Pending \<and> stalls (below v) (below v'))"
  using assms
proof (induction v arbitrary: ys ps rule: padding_loop.induct)
  case (1 v)
  note r = 1(2) [unfolded reading_def]
  show ?case
  proof (cases "padding v = 0")
    case True
    then have "padding_loop v = (None, v)" "ps = []" using r by (auto simp: padding_loop.simps [of v])
    then show ?thesis using 1(2) by auto
  next
    case False
    then have b: "b" "read_header v = []" "\<not> read_first v" and ys: "ys = ps @ frames_bytes fs"
      and h: "resp_holds b (below v) ys (map (Pair (v_command v = 2 \<or> goes_direct fs)) rest)"
      using r by (auto split: if_splits)
    have n: "0 < min (padding v) 2048" "min (padding v) 2048 \<le> length ys" using False r ys by auto
    show ?thesis
    proof (cases rule: response.read_some [OF h n])
      case (1 s')
      then have "reading (v\<lparr>below := s'\<rparr>) b ys [] ps fs rest" using r by (simp add: reading_def stalls_def)
      moreover have "padding_loop v = (Some Pending, v\<lparr>below := s'\<rparr>)" using 1 False by (simp add: padding_loop.simps [of v] lift_read_def)
      ultimately show ?thesis using 1 by force
    next
      case (2 m s')
      let ?v = "v\<lparr>below := s', padding := padding v - m\<rparr>"
      have m: "m \<le> length ps" using 2(3) r by simp
      have t: "take m ys = take m ps" "drop m ys = drop m ps @ frames_bytes fs" using m ys by simp_all
      have ne: "ps \<noteq> []" "m \<noteq> 0" "min (length ps) m = m" using 2(2) m by auto
      have rd: "reading ?v b (drop m ys) [] (drop m ps) fs rest" using r 2(5,6) b t m by (auto simp: reading_def)
      have l: "lift_read (min (padding v) 2048) v = (Ready (take m ps), v\<lparr>below := s'\<rparr>)" using 2(1) by (simp add: lift_read_def t)
      have e: "padding_loop v = padding_loop ?v" using l False ne by (simp add: padding_loop.simps [of v])
      have adv: "advances (below v) (below ?v)" using 2(6,7) by (simp add: advances_less)
      show ?thesis
        using 1(1) [of "Ready (take m ps)" "v\<lparr>below := s'\<rparr>" "take m ps" "drop m ys" "drop m ps"] False l ne rd e
          advances_trans [OF adv] stalls_trans [OF adv] by fastforce
    qed
  qed
qed

lemma header_need_pos [simp]: "0 < header_need v"
  by (simp add: header_need_def)

lemma length_frame_bytes: "length (frame_bytes f) = 5 + length (f_content f) + length (f_padding f)"
  by (simp add: frame_bytes_def)

lemma reading_enough:
  assumes "reading v b ys [] [] fs rest" and "fs \<noteq> []"
  shows "header_need v \<le> length (read_header v) + length ys"
proof -
  have "read_header v @ ys = (if read_first v then v_id v else []) @ frames_bytes fs" and "length (v_id v) = 16"
    using assms by (auto simp: reading_def)
  moreover obtain f gs where "fs = f # gs" using assms(2) by (cases fs) auto
  ultimately have "length (read_header v @ ys) \<ge> header_need v" by (simp add: header_need_def length_frame_bytes)
  then show ?thesis by simp
qed

lemma frame_header_loop_step:
  assumes "reading v b ys [] [] fs rest" and "v_command v = 0" and "length (read_header v) \<le> header_need v"
  shows "\<exists>q v' b' ys'. frame_header_loop v = (q, v') \<and> reading v' b' ys' [] [] fs rest \<and>
    v_command v' = v_command v \<and> content v' = content v \<and>
    (q = None \<and> length (read_header v') = header_need v' \<and> fs \<noteq> [] \<and>
       (length (read_header v) < header_need v \<longrightarrow> length (incoming (below v')) < length (incoming (below v)))
     \<or> q = Some Pending \<and> length (read_header v') < header_need v' \<and> stalls (below v) (below v')
     \<or> q = Some (Ready []) \<and> length (read_header v') < header_need v' \<and> fs = [] \<and> rest = [])"
  using assms
proof (induction v arbitrary: b ys rule: frame_header_loop.induct)
  case (1 v)
  note r = 1(2) [unfolded reading_def]
  show ?case
  proof (cases "length (read_header v) < header_need v")
    case False
    then have "frame_header_loop v = (None, v)" "length (read_header v) = header_need v"
      using 1(4) by (auto simp: frame_header_loop.simps [of v])
    moreover from this(2) have "read_header v \<noteq> []" using header_need_pos [of v] by (metis length_0_conv less_irrefl)
    then have "fs \<noteq> []" using r by auto
    ultimately show ?thesis using 1(2) by auto
  next
    case True
    let ?n = "header_need v - length (read_header v)"
    have h: "resp_holds b (below v) ys (map (Pair (v_command v = 2 \<or> goes_direct fs)) rest)" using r by simp
    have n: "0 < ?n" "?n \<le> length ys \<or> map (Pair (v_command v = 2 \<or> goes_direct fs)) rest = []"
      using True reading_enough [OF 1(2)] r 1(3) by (cases fs; auto)+
    show ?thesis
    proof (cases rule: response.read_cases [OF h n])
      case (1 s')
      then have "reading (v\<lparr>below := s'\<rparr>) b ys [] [] fs rest" using r by (simp add: reading_def stalls_def)
      moreover have "frame_header_loop v = (Some Pending, v\<lparr>below := s'\<rparr>)"
        using 1 True by (simp add: frame_header_loop.simps [of v] lift_read_def)
      ultimately show ?thesis using 1 True by (force simp: header_need_def)
    next
      case (2 s')
      have fs: "fs = []" using reading_enough [OF 1(2)] True 2(2) by auto
      then have e: "read_header v = []" "rest = []" using r 2(2,3) by auto
      have "frame_header_loop v = (Some (Ready []), v\<lparr>below := s'\<rparr>)"
        using 2(1) True e by (simp add: frame_header_loop.simps [of v] lift_read_def)
      moreover have "reading (v\<lparr>below := s'\<rparr>) True [] [] [] fs rest" using r 2 fs e by (auto simp: reading_def)
      ultimately show ?thesis using fs e by force
    next
      case (3 m s')
      let ?v = "v\<lparr>below := s', read_header := read_header v @ take m ys\<rparr>"
      have ne: "ys \<noteq> []" "m \<noteq> 0" "min (length ys) m = m" using 3 by auto
      have fs: "fs \<noteq> []" using ne r by auto
      have rd: "reading ?v True (drop m ys) [] [] fs rest" using r 3(5,6) by (auto simp: reading_def)
      have l: "lift_read ?n v = (Ready (take m ys), v\<lparr>below := s'\<rparr>)" using 3(1) by (simp add: lift_read_def)
      have e: "frame_header_loop v = frame_header_loop ?v" using l True ne by (simp add: frame_header_loop.simps [of v])
      have adv: "advances (below v) (below ?v)" using 3(6,7) by (simp add: advances_less)
      have le: "length (read_header ?v) \<le> header_need ?v" using 3(3) True ne by (simp add: header_need_def split: if_splits)
      obtain q v' b' ys' where ih: "frame_header_loop ?v = (q, v')" "reading v' b' ys' [] [] fs rest"
          "v_command v' = v_command ?v" "content v' = content ?v"
          "q = None \<and> length (read_header v') = header_need v' \<and> fs \<noteq> [] \<and>
             (length (read_header ?v) < header_need ?v \<longrightarrow> length (incoming (below v')) < length (incoming (below ?v)))
           \<or> q = Some Pending \<and> length (read_header v') < header_need v' \<and> stalls (below ?v) (below v')
           \<or> q = Some (Ready []) \<and> length (read_header v') < header_need v' \<and> fs = [] \<and> rest = []"
        using 1(1) [of "Ready (take m ys)" "v\<lparr>below := s'\<rparr>" "take m ys" True "drop m ys"] True l ne rd le 1(3) by auto
      have "length (incoming (below v')) < length (incoming (below v))" if "q = None"
      proof (cases "length (read_header ?v) < header_need ?v")
        case True
        then show ?thesis using ih(5) 3(7) that by simp
      next
        case False
        then have "v' = ?v" using ih(1) that by (simp add: frame_header_loop.simps [of ?v])
        then show ?thesis using 3(7) by simp
      qed
      then show ?thesis using ih e stalls_trans [OF adv] by auto
    qed
  qed
qed

lemma be_val_two:
  assumes "n < 2 ^ 16"
  shows "be_val [be_bytes 2 n ! 0, be_bytes 2 n ! 1] = n"
proof -
  have "[be_bytes 2 n ! 0, be_bytes 2 n ! 1] = be_bytes 2 n" by (rule nth_equalityI) (auto simp: less_Suc_eq nth_Cons')
  then show ?thesis using assms by simp
qed

lemma frame_parse_step:
  assumes "reading v b ys [] [] (f # fs) rest" and "v_command v = 0" and "length (read_header v) = header_need v"
  shows "\<exists>v'. frame_parse n v = Inr v' \<and> below v' = below v \<and> read_header v' = [] \<and> reading v' True ys (f_content f) (f_padding f) fs rest"
proof -
  note r = assms(1) [unfolded reading_def]
  let ?i = "if read_first v then v_id v else []"
  let ?h = "f_command f # be_bytes 2 (length (f_content f)) @ be_bytes 2 (length (f_padding f))"
  have all: "read_header v @ ys = (?i @ ?h) @ f_content f @ f_padding f @ frames_bytes fs"
    and b: "b" using r assms(3) by (auto simp: frame_bytes_def header_need_def split: if_splits)
  have "length (read_header v) = length (?i @ ?h)" using assms(3) r by (simp add: header_need_def)
  from iffD1 [OF append_eq_append_conv [OF disjI1 [OF this]] all]
  have h: "read_header v = ?i @ ?h" and ys: "ys = f_content f @ f_padding f @ frames_bytes fs" by simp_all
  have f: "frame_ok f" and fs: "if f_command f = 0 then frames_ok fs rest else fs = []" using r assms(2) by (auto split: if_splits)
  have d: "goes_direct (f # fs) = (f_command f = 2 \<or> goes_direct fs)" using fs by (auto simp: goes_direct_def split: if_splits)
  let ?v = "v\<lparr>read_first := False, v_command := f_command f, content := length (f_content f), padding := length (f_padding f), read_header := []\<rparr>"
  have c: "be_val [?h ! 1, ?h ! 2] = length (f_content f)" "be_val [?h ! 3, ?h ! 4] = length (f_padding f)"
    using f be_val_two [of "length (f_content f)"] be_val_two [of "length (f_padding f)"] by (simp_all add: frame_ok_def nth_append)
  have "(if read_first v then drop 16 (read_header v) else read_header v) = ?h" using h r by auto
  moreover have "\<not> (read_first v \<and> take 16 (read_header v) \<noteq> v_id v)" using h r by auto
  moreover have "\<not> 2 < ?h ! 0" using f by (simp add: frame_ok_def not_less)
  ultimately have "frame_parse n v = Inr ?v"
    unfolding frame_parse_def Let_def using c by (simp del: be_bytes.simps)
  moreover have "reading ?v True ys (f_content f) (f_padding f) fs rest"
    using r b ys d f fs assms(2) by (auto simp: reading_def frame_ok_def)
  ultimately show ?thesis by auto
qed

lemma read_result_advance:
  assumes "length (incoming (below v')) < length (incoming (below v)) \<or> incoming (below v') = incoming (below v) \<and> arrivals (below v') = arrivals (below v)"
    and "read_result v' out r"
  shows "read_result v out r"
  using assms by (auto simp: read_result_def blocked_def split: poll.splits prod.splits if_splits)

lemma direct_switch_passing:
  assumes "reading v b ys [] [] fs rest" and "v_command v \<noteq> 0"
  shows "passing (direct_switch v) (payload fs rest)"
proof -
  have "fs = []" "ys = []" "read_header v = []" "b" using assms by (auto simp: reading_def)
  moreover have "(below v)\<lparr>read_direct := False\<rparr> = below v" using assms(1) by (cases "below v") (simp add: reading_def)
  moreover have "resp_holds True ((below v)\<lparr>read_direct := (v_command v = 2)\<rparr>) rest []"
    using assms calculation(1-4) by (intro response_open) (auto simp: reading_def goes_direct_def)
  ultimately show ?thesis
    using assms(1) by (cases "v_command v = 2") (auto simp: reading_def passing_def direct_switch_def simp del: source.update_convs)
qed

lemma direct_switch_below: "incoming (below (direct_switch v)) = incoming (below v)" "arrivals (below (direct_switch v)) = arrivals (below v)"
  by (simp_all add: direct_switch_def)

lemma read_iteration:
  assumes "reader_ok v out" and "0 < n"
  shows "read_result v out (read_loop (Suc m) n v)
    \<or> (\<exists>v'. read_loop (Suc m) n v = read_loop m n v' \<and> reader_ok v' out \<and> length (incoming (below v')) < length (incoming (below v)))"
  using assms(1) unfolding reader_ok_def [of v out]
proof (elim disjE exE conjE)
  assume "passing v out"
  then show ?thesis using plain_read_result [OF _ assms(2)] by (simp add: passing_def)
next
  fix b ys xs ps fs rest
  assume r: "reading v b ys xs ps fs rest" and l: "length (read_header v) < header_need v" and out: "out = xs @ payload fs rest"
  then have np: "\<not> read_plain v" by (simp add: reading_def)
  show ?thesis
  proof (cases "0 < content v")
    case True
    then show ?thesis using content_read_result [OF r True assms(2)] np out by simp
  next
    case False
    then have "xs = []" using r by (simp add: reading_def)
    then have r: "reading v b ys [] ps fs rest" and out: "out = payload fs rest" using r out by simp_all
    obtain q v1 ys1 ps1 where p: "padding_loop v = (q, v1)" "reading v1 b ys1 [] ps1 fs rest" "read_header v1 = read_header v"
        "read_first v1 = read_first v" "v_command v1 = v_command v" "content v1 = content v"
        "q = None \<and> ps1 = [] \<and> advances (below v) (below v1) \<or> q = Some Pending \<and> stalls (below v) (below v1)"
      using padding_loop_step [OF r] by blast
    have n1: "length (read_header v1) < header_need v1" using l p(3,4) by (simp add: header_need_def)
    show ?thesis
    proof (cases q)
      case (Some x)
      have "reader_ok v1 out" using p(2) n1 out unfolding reader_ok_def by force
      then show ?thesis using Some p(1,7) np False by (simp add: read_result_def)
    next
      case None
      then have r1: "reading v1 b ys1 [] [] fs rest" and adv: "advances (below v) (below v1)" using p(2,7) by auto
      show ?thesis
      proof (cases "v_command v1 = 0")
        case False
        have "read_result (direct_switch v1) out (plain_read n (direct_switch v1))"
          using plain_read_result direct_switch_passing [OF r1 False] assms(2) out by simp
        then have "read_result v out (plain_read n (direct_switch v1))"
          by (rule read_result_advance [rotated]) (use adv in \<open>auto simp: direct_switch_below advances_def\<close>)
        then show ?thesis using None p(1) np \<open>\<not> 0 < content v\<close> False by simp
      next
        case c: True
        obtain q2 v2 b2 ys2 where h: "frame_header_loop v1 = (q2, v2)" "reading v2 b2 ys2 [] [] fs rest" "v_command v2 = v_command v1"
            "q2 = None \<and> length (read_header v2) = header_need v2 \<and> fs \<noteq> [] \<and> length (incoming (below v2)) < length (incoming (below v1))
             \<or> q2 = Some Pending \<and> length (read_header v2) < header_need v2 \<and> stalls (below v1) (below v2)
             \<or> q2 = Some (Ready []) \<and> length (read_header v2) < header_need v2 \<and> fs = [] \<and> rest = []"
          using frame_header_loop_step [OF r1 c] n1 by fastforce
        have e: "read_loop (Suc m) n v = (case q2 of Some p \<Rightarrow> (p, v2) | None \<Rightarrow> (case frame_parse n v2 of Inl z \<Rightarrow> z | Inr v \<Rightarrow> read_loop m n v))"
          using None p(1) np \<open>\<not> 0 < content v\<close> c h(1) by simp
        show ?thesis
        proof (cases q2)
          case (Some x)
          then have "reader_ok v2 out" using h(2,4) out unfolding reader_ok_def by force
          then show ?thesis using Some e h(4) stalls_trans [OF adv] out by (auto simp: read_result_def)
        next
          case n2: None
          then obtain f gs where fs: "fs = f # gs" using h(4) by (cases fs) auto
          obtain v3 where v3: "frame_parse n v2 = Inr v3" "below v3 = below v2" "read_header v3 = []"
              "reading v3 True ys2 (f_content f) (f_padding f) gs rest"
            using frame_parse_step [of v2 b2 ys2 f gs rest n] h n2 fs c by auto
          have "reader_ok v3 out" using v3 out fs unfolding reader_ok_def by force
          moreover have "length (incoming (below v3)) < length (incoming (below v))" using h(4) n2 v3(2) adv by (auto simp: advances_def)
          ultimately show ?thesis using e n2 v3(1) by auto
        qed
      qed
    qed
  qed
qed

lemma read_loop_result:
  assumes "reader_ok v out" and "0 < n" and "0 < m"
  shows "read_result v out (read_loop m n v)"
  using assms(1,3)
proof (induction m arbitrary: v)
  case (Suc m)
  from read_iteration [OF Suc.prems(1) assms(2), of m] show ?case
  proof (elim disjE exE conjE)
    fix v'
    assume e: "read_loop (Suc m) n v = read_loop m n v'" and ok: "reader_ok v' out" and l: "length (incoming (below v')) < length (incoming (below v))"
    show ?case
    proof (cases "m = 0")
      case True
      then show ?thesis unfolding e using ok l by (simp add: read_result_def blocked_def)
    next
      case False
      then show ?thesis unfolding e using read_result_advance [OF disjI1 [OF l]] Suc.IH [OF ok] by simp
    qed
  qed
qed simp

section \<open>Writing frames\<close>

text \<open>What the stream below has taken, with what is still buffered, are the frames of the bytes accepted so far.\<close>

definition writer_ok :: "vision \<Rightarrow> bytes \<Rightarrow> bool" where
  "writer_ok v acc \<longleftrightarrow> (\<exists>fs rest.
     sent v @ map (Pair (write_direct v)) (drop (written v) (frame_buffer v)) = vision_bytes (v_id v) fs rest \<and>
     acc = payload fs rest \<and> frames_ok fs rest \<and> write_first v = (fs = []) \<and>
     (\<not> write_plain v \<longrightarrow> (\<forall>f \<in> set fs. f_command f = 0) \<and> rest = [] \<and> \<not> write_direct v \<and> \<not> switch_write v) \<and>
     (write_plain v \<longrightarrow> fs \<noteq> [] \<and> f_command (last fs) \<noteq> 0 \<and> goes_direct fs = (write_direct v \<or> switch_write v)) \<and>
     (frame_buffer v \<noteq> [] \<or> switch_write v \<longrightarrow> rest = [] \<and> \<not> write_direct v))"

lemma frames_ok_snoc: "\<forall>f \<in> set fs. f_command f = 0 \<Longrightarrow> frames_ok fs [] \<Longrightarrow> frame_ok f \<Longrightarrow> frames_ok (fs @ [f]) []"
  by (induction fs) auto

lemma frames_ok_rest: "frames_ok fs rest \<Longrightarrow> fs \<noteq> [] \<Longrightarrow> f_command (last fs) \<noteq> 0 \<Longrightarrow> frames_ok fs rest'"
  by (induction fs) (auto split: if_splits)

lemma vision_bytes_snoc:
  "vision_bytes i (fs @ [f]) [] = vision_bytes i fs [] @ map (Pair False) ((if fs = [] then i else []) @ frame_bytes f)"
  by (simp add: vision_bytes_def)

lemma vision_bytes_rest: "vision_bytes i fs (rest @ bs) = vision_bytes i fs rest @ map (Pair (goes_direct fs)) bs"
  by (simp add: vision_bytes_def)

lemma write_loop_ok:
  assumes "writer_ok v acc" and "write_loop ks v = (p, v')"
  shows "writer_ok v' acc \<and> (\<exists>w t. v' = v\<lparr>written := w, sent := t\<rparr>) \<and> (p = Ready () \<longrightarrow> length (frame_buffer v') \<le> written v') \<and>
    (\<forall>e. p = Failed e \<longrightarrow> e = ''write zero'')"
  using assms
proof (induction ks v rule: write_loop.induct)
  case (1 v)
  then show ?case by (auto split: if_splits intro!: exI [of _ "written v"] exI [of _ "sent v"])
next
  case (2 k ks v)
  let ?n = "min k (length (frame_buffer v) - written v)"
  let ?v = "v\<lparr>written := written v + ?n, sent := sent v @ map (Pair (write_direct v)) (take ?n (drop (written v) (frame_buffer v)))\<rparr>"
  show ?case
  proof (cases "written v < length (frame_buffer v) \<and> ?n \<noteq> 0")
    case False
    then show ?thesis using 2(2,3) by (auto simp: Let_def split: if_splits intro!: exI [of _ "written v"] exI [of _ "sent v"])
  next
    case True
    then have e: "write_loop ks ?v = (p, v')" using 2(3) unfolding write_loop.simps Let_def by (simp only: simp_thms if_True if_False)
    have "drop (written v + ?n) (frame_buffer v) = drop ?n (drop (written v) (frame_buffer v))" by (simp add: add.commute)
    then have "map (Pair (write_direct v)) (take ?n (drop (written v) (frame_buffer v))) @
        map (Pair (write_direct v)) (drop (written v + ?n) (frame_buffer v)) = map (Pair (write_direct v)) (drop (written v) (frame_buffer v))"
      by (simp only: map_append [symmetric] append_take_drop_id)
    then have "writer_ok ?v acc" using 2(2) unfolding writer_ok_def by simp
    then show ?thesis using 2(1) [OF _ refl _ _ e] True by auto
  qed
qed

lemma flush_frame_ok:
  assumes "writer_ok v acc" and "flush_frame ks flushed v = (p, v')"
  shows "writer_ok v' acc \<and> (\<exists>w t f d s. v' = v\<lparr>written := w, sent := t, frame_buffer := f, write_direct := d, switch_write := s\<rparr>)
    \<and> (p = Ready () \<longrightarrow> frame_buffer v' = [] \<and> written v' = 0 \<and> \<not> switch_write v') \<and> (\<forall>e. p = Failed e \<longrightarrow> e = ''write zero'')"
proof -
  obtain q v1 where w: "write_loop ks v = (q, v1)" by fastforce
  note l = write_loop_ok [OF assms(1) w]
  obtain x t where v1: "v1 = v\<lparr>written := x, sent := t\<rparr>" using l by blast
  then have same: "\<exists>w t f d s. v1 = v\<lparr>written := w, sent := t, frame_buffer := f, write_direct := d, switch_write := s\<rparr>"
    by (intro exI [of _ x] exI [of _ t] exI [of _ "frame_buffer v"] exI [of _ "write_direct v"] exI [of _ "switch_write v"]) simp
  show ?thesis
  proof (cases "q = Ready () \<and> flushed")
    case False
    then have "v' = v1" "p \<noteq> Ready ()" "p = Pending \<or> p = q" using assms(2) w by (auto simp: flush_frame_def split: poll.splits if_splits)
    then show ?thesis using l same by auto
  next
    case True
    let ?v = "v1\<lparr>frame_buffer := [], written := 0, write_direct := write_direct v1 \<or> switch_write v1, switch_write := False\<rparr>"
    have v': "v' = ?v" "p = Ready ()" using assms(2) w True by (auto simp: flush_frame_def Let_def)
    obtain fs rest where "sent v1 @ map (Pair (write_direct v1)) (drop (written v1) (frame_buffer v1)) = vision_bytes (v_id v1) fs rest"
        "acc = payload fs rest" "frames_ok fs rest" "write_first v1 = (fs = [])"
        "\<not> write_plain v1 \<longrightarrow> (\<forall>f \<in> set fs. f_command f = 0) \<and> rest = [] \<and> \<not> write_direct v1 \<and> \<not> switch_write v1"
        "write_plain v1 \<longrightarrow> fs \<noteq> [] \<and> f_command (last fs) \<noteq> 0 \<and> goes_direct fs = (write_direct v1 \<or> switch_write v1)"
      using l unfolding writer_ok_def by auto
    then have "writer_ok ?v acc" using l True unfolding writer_ok_def by (intro exI [of _ fs] exI [of _ rest]) simp
    moreover have "\<exists>w t f d s. ?v = v\<lparr>written := w, sent := t, frame_buffer := f, write_direct := d, switch_write := s\<rparr>"
      by (intro exI [of _ 0] exI [of _ t] exI [of _ "[]"] exI [of _ "write_direct v \<or> switch_write v"] exI [of _ False]) (simp add: v1)
    ultimately show ?thesis using v' by simp
  qed
qed

lemma frame_command_le: "frame_command bs t \<le> 2"
  by (simp add: frame_command_def)

lemma frame_padding_less: "frame_padding r bs t < 2 ^ 16"
proof -
  have "r mod 500 < 500" "r mod 256 < 256" by simp_all
  then have "900 + r mod 500 - length bs < 65536" "r mod 256 < 65536" by linarith+
  then show ?thesis by (simp add: frame_padding_def)
qed

lemma poll_write_ok:
  assumes "writer_ok v acc" and "poll_write ks flushed taken random bs v = (p, v')"
  shows "writer_ok v' (acc @ (case p of Ready n \<Rightarrow> take n bs | _ \<Rightarrow> []))"
proof -
  obtain q v1 where f: "flush_frame ks flushed v = (q, v1)" by fastforce
  note l = flush_frame_ok [OF assms(1) f]
  show ?thesis
  proof (cases "q = Ready ()")
    case False
    then show ?thesis using assms(2) f l by (cases q) (auto simp: poll_write_def)
  next
    case True
    then have ok: "writer_ok v1 acc" "frame_buffer v1 = []" "\<not> switch_write v1" "written v1 = 0" using l by auto
    then obtain fs rest where w: "sent v1 = vision_bytes (v_id v1) fs rest" "acc = payload fs rest" "frames_ok fs rest" "write_first v1 = (fs = [])"
        "\<not> write_plain v1 \<longrightarrow> (\<forall>f \<in> set fs. f_command f = 0) \<and> rest = [] \<and> \<not> write_direct v1 \<and> \<not> switch_write v1"
        "write_plain v1 \<longrightarrow> fs \<noteq> [] \<and> f_command (last fs) \<noteq> 0 \<and> goes_direct fs = write_direct v1"
      unfolding writer_ok_def by auto
    show ?thesis
    proof (cases "write_plain v1")
      case plain: True
      show ?thesis
      proof (cases taken)
        case None
        then show ?thesis using assms(2) f True plain ok by (auto simp: poll_write_def)
      next
        case (Some k)
        let ?n = "min k (length bs)"
        let ?v = "v1\<lparr>sent := sent v1 @ map (Pair (write_direct v1)) (take ?n bs)\<rparr>"
        have v': "v' = ?v" "p = Ready ?n" using assms(2) f True plain Some by (auto simp: poll_write_def Let_def)
        have "writer_ok ?v (acc @ take ?n bs)"
          unfolding writer_ok_def using w ok plain frames_ok_rest [of fs rest "rest @ take ?n bs"]
          by (intro exI [of _ fs] exI [of _ "rest @ take ?n bs"]) (auto simp: vision_bytes_rest payload_def)
        then show ?thesis using v' by simp
      qed
    next
      case plain: False
      show ?thesis
      proof (cases "bs = []")
        case nil: True
        then show ?thesis using assms(2) f True plain ok by (auto simp: poll_write_def)
      next
        case ne: False
        define cs where "cs = take (8192 - 21) bs"
        define t where "t = inner_observe cs False (v_sniff v1)"
        define c where "c = frame_command cs t"
        define n where "n = frame_padding random cs t"
        define g where "g = \<lparr>f_command = c, f_content = cs, f_padding = replicate n 0\<rparr>"
        let ?v = "v1\<lparr>v_sniff := t, frame_buffer := (if write_first v1 then v_id v1 else []) @ frame_bytes g,
          write_first := False, write_plain := (c \<noteq> 0), switch_write := (c = 2)\<rparr>"
        have v': "v' = ?v" "p = Ready (length cs)"
          using assms(2) f True plain ne ok(2) by (auto simp: poll_write_def Let_def cs_def t_def c_def n_def g_def frame_bytes_def)
        have g: "frame_ok g" using frame_command_le frame_padding_less [of random cs t] by (simp add: g_def frame_ok_def c_def n_def cs_def)
        have "writer_ok ?v (acc @ cs)"
          unfolding writer_ok_def using w ok plain g frames_ok_snoc [of fs g]
          by (intro exI [of _ "fs @ [g]"] exI [of _ "[]"]) (auto simp: vision_bytes_snoc payload_def g_def goes_direct_def)
        moreover have "take (length cs) bs = cs" by (simp add: cs_def min_def)
        ultimately show ?thesis unfolding v' by (simp only: poll.case)
      qed
    qed
  qed
qed

section \<open>Both directions together\<close>

text \<open>The calls on one end, in any order, with what the environment does during each of them.\<close>

datatype vision_op =
  ReadOp "nat list" bool nat "nat list"
| WriteOp "nat list" bool "nat option" nat bytes
| FlushOp "nat list" bool
| ShutdownOp "nat list" bool bool

text \<open>A call gives the new state, the bytes a write accepted, and the answer of a read.\<close>

fun vision_step :: "vision_op \<Rightarrow> vision \<Rightarrow> vision \<times> bytes \<times> bytes poll list" where
  "vision_step (ReadOp ks flushed n as) v =
     (let (p, v) = poll_read ks flushed n (v\<lparr>below := (below v)\<lparr>arrivals := as\<rparr>\<rparr>) in (v, [], [p]))"
| "vision_step (WriteOp ks flushed taken random bs) v =
     (case poll_write ks flushed taken random bs v of (Ready n, v) \<Rightarrow> (v, take n bs, []) | (_, v) \<Rightarrow> (v, [], []))"
| "vision_step (FlushOp ks flushed) v = (snd (poll_flush ks flushed v), [], [])"
| "vision_step (ShutdownOp ks flushed closed) v = (snd (poll_shutdown ks flushed closed v), [], [])"

fun vision_run :: "vision_op list \<Rightarrow> vision \<Rightarrow> vision \<times> bytes \<times> bytes poll list" where
  "vision_run [] v = (v, [], [])"
| "vision_run (op # ops) v =
     (let (v, a, r) = vision_step op v; (v, as, rs) = vision_run ops v in (v, a @ as, r @ rs))"

definition delivered :: "bytes poll list \<Rightarrow> bytes" where
  "delivered rs = concat (map (\<lambda>r. case r of Ready bs \<Rightarrow> bs | _ \<Rightarrow> []) rs)"

fun read_op_ok :: "vision_op \<Rightarrow> bool" where
  "read_op_ok (ReadOp _ _ n _) = (0 < n)"
| "read_op_ok _ = True"

fun op_arrives :: "vision_op \<Rightarrow> bool" where
  "op_arrives (ReadOp _ _ _ as) = (as \<noteq> [])"
| "op_arrives _ = True"

lemma delivered_simps [simp]:
  "delivered [] = []" "delivered (rs @ ts) = delivered rs @ delivered ts"
  "delivered [Pending] = []" "delivered [Failed e] = []" "delivered [Ready bs] = bs"
  by (simp_all add: delivered_def)

text \<open>Reading leaves the writing half alone, and writing the reading half.\<close>

definition write_side :: "vision \<Rightarrow> vision" where
  "write_side v = v\<lparr>below := source_new [], read_header := [], read_first := False, content := 0, padding := 0, v_command := 0,
     read_plain := False, v_sniff := \<lparr>client = [], server = hello_new, tls = False, tls13 = False, remaining = 0\<rparr>, v_failed := False, v_closed := False\<rparr>"

lemma writer_ok_side: "writer_ok (write_side v) acc = writer_ok v acc"
  by (simp add: writer_ok_def write_side_def)

lemma v_id_side: "v_id (write_side v) = v_id v"
  by (simp add: write_side_def)

lemma lift_read_side: "write_side (snd (lift_read n v)) = write_side v"
  by (auto simp: lift_read_def write_side_def split: prod.split)

lemma padding_loop_side: "write_side (snd (padding_loop v)) = write_side v"
proof (induction v rule: padding_loop.induct)
  case (1 v)
  obtain p v' where r: "lift_read (min (padding v) 2048) v = (p, v')" by fastforce
  have s: "write_side v' = write_side v" using lift_read_side [of "min (padding v) 2048" v] r by simp
  show ?case using 1 r s by (cases p) (auto simp: padding_loop.simps [of v], auto simp: write_side_def)
qed

lemma frame_header_loop_side: "write_side (snd (frame_header_loop v)) = write_side v"
proof (induction v rule: frame_header_loop.induct)
  case (1 v)
  let ?n = "header_need v - length (read_header v)"
  obtain p v' where r: "lift_read ?n v = (p, v')" by fastforce
  have s: "write_side v' = write_side v" using lift_read_side [of ?n v] r by simp
  show ?case using 1 r s by (cases p) (auto simp: frame_header_loop.simps [of v], auto simp: write_side_def)
qed

lemma plain_read_side: "write_side (snd (plain_read n v)) = write_side v"
  using lift_read_side by (auto simp: plain_read_def deliver_header_def write_side_def Let_def)

lemma content_read_side: "write_side (snd (content_read n v)) = write_side v"
  using lift_read_side [of "min n (content v)" v]
  by (auto simp: content_read_def write_side_def split: prod.split poll.split)

lemma frame_parse_side:
  "frame_parse n v = Inl z \<Longrightarrow> write_side (snd z) = write_side v"
  "frame_parse n v = Inr v' \<Longrightarrow> write_side v' = write_side v"
  by (auto simp: frame_parse_def deliver_header_def Let_def write_side_def split: if_splits)

lemma direct_switch_side: "write_side (direct_switch v) = write_side v"
  by (simp add: direct_switch_def write_side_def)

lemma read_loop_side: "write_side (snd (read_loop m n v)) = write_side v"
proof (induction m arbitrary: v)
  case (Suc m)
  obtain q v1 where p: "padding_loop v = (q, v1)" by fastforce
  obtain q2 v2 where h: "frame_header_loop v1 = (q2, v2)" by fastforce
  have "write_side v1 = write_side v" "write_side v2 = write_side v1"
    using padding_loop_side [of v] frame_header_loop_side [of v1] p h by simp_all
  note side = this
  consider "read_plain v" | "\<not> read_plain v" "0 < content v" | "\<not> read_plain v" "content v = 0" by auto
  then show ?case
  proof cases
    case 3
    show ?thesis
    proof (cases q)
      case None
      show ?thesis
      proof (cases "v_command v1 = 0")
        case True
        then have "read_loop (Suc m) n v = (case q2 of Some p \<Rightarrow> (p, v2) | None \<Rightarrow> (case frame_parse n v2 of Inl z \<Rightarrow> z | Inr v \<Rightarrow> read_loop m n v))"
          using 3 None p h by simp
        then show ?thesis
          using frame_parse_side [of n v2] Suc side by (simp split: option.split sum.split)
      next
        case False
        then show ?thesis using 3 None p plain_read_side [of n "direct_switch v1"] direct_switch_side [of v1] side by simp
      qed
    next
      case (Some x)
      then show ?thesis using 3 p side by simp
    qed
  qed (simp_all add: plain_read_side content_read_side)
qed simp

lemma reader_ok_writes [simp]:
  "reader_ok (v\<lparr>written := w\<rparr>) out = reader_ok v out"
  "reader_ok (v\<lparr>sent := t\<rparr>) out = reader_ok v out"
  "reader_ok (v\<lparr>frame_buffer := f\<rparr>) out = reader_ok v out"
  "reader_ok (v\<lparr>write_direct := d\<rparr>) out = reader_ok v out"
  "reader_ok (v\<lparr>switch_write := d\<rparr>) out = reader_ok v out"
  "reader_ok (v\<lparr>write_first := d\<rparr>) out = reader_ok v out"
  "reader_ok (v\<lparr>write_plain := d\<rparr>) out = reader_ok v out"
  "reader_ok (v\<lparr>v_closed := d\<rparr>) out = reader_ok v out"
  "reader_ok (v\<lparr>v_sniff := x\<rparr>) out = reader_ok v out"
  by (simp_all add: reader_ok_def passing_def reading_def header_need_def)

lemma flush_frame_reader:
  assumes "writer_ok v acc" and "flush_frame ks flushed v = (p, v')"
  shows "reader_ok v' out = reader_ok v out" and "below v' = below v"
  using flush_frame_ok [OF assms] by auto

lemma poll_write_reader:
  assumes "writer_ok v acc" and "poll_write ks flushed taken random bs v = (p, v')"
  shows "reader_ok v' out = reader_ok v out \<and> below v' = below v"
proof -
  obtain q v1 where f: "flush_frame ks flushed v = (q, v1)" by fastforce
  note same = flush_frame_reader [OF assms(1) f]
  have "reader_ok v' out = reader_ok v1 out \<and> below v' = below v1"
    using assms(2) f by (auto simp: poll_write_def Let_def split: poll.splits if_splits option.splits)
  then show ?thesis using same by simp
qed

lemma poll_shutdown_shape:
  assumes "poll_shutdown ks flushed closed v = (p, v')"
  obtains q v1 d where "flush_frame ks flushed v = (q, v1)" and "v' = v1\<lparr>v_closed := d\<rparr>"
proof -
  obtain q v1 where f: "flush_frame ks flushed v = (q, v1)" by fastforce
  then have "v' = v1\<lparr>v_closed := v_closed v'\<rparr>" using assms by (auto simp: poll_shutdown_def split: poll.splits if_splits)
  then show ?thesis using that f by blast
qed

lemma reader_ok_arrivals [simp]: "reader_ok (v\<lparr>below := (below v)\<lparr>arrivals := as\<rparr>\<rparr>) out = reader_ok v out"
  by (simp add: reader_ok_def passing_def reading_def header_need_def resp_holds_def raw_holds_def)

lemma poll_read_ok:
  assumes "writer_ok v acc" and "reader_ok v out" and "0 < n" and "poll_read ks flushed n v = (p, v')"
  shows "writer_ok v' acc \<and> (p = Failed ''write zero'' \<and> reader_ok v' out \<and> below v' = below v \<or> read_result v out (p, v'))"
proof -
  have nf: "\<not> v_failed v" using assms(2) by (auto simp: reader_ok_def passing_def reading_def)
  obtain q v1 where f: "flush_frame ks flushed v = (q, v1)" by fastforce
  note l = flush_frame_ok [OF assms(1) f] and same = flush_frame_reader [OF assms(1) f]
  show ?thesis
  proof (cases "\<exists>e. q = Failed e")
    case True
    then show ?thesis using assms(2-4) f l nf same by (auto simp: poll_read_def)
  next
    case False
    then have r: "read_loop 64 n v1 = (p, v')" using assms(3,4) f nf by (cases q) (auto simp: poll_read_def)
    have "read_result v1 out (p, v')" using read_loop_result [of v1 out n 64] same(1) assms(2,3) r by simp
    then have "read_result v out (p, v')" by (rule read_result_advance [rotated]) (simp add: same(2))
    moreover have "writer_ok v' acc" using l read_loop_side [of 64 n v1] r writer_ok_side by (metis snd_conv)
    ultimately show ?thesis by simp
  qed
qed

lemma vision_step_ok:
  assumes "writer_ok v acc" and "reader_ok v out" and "read_op_ok op" and "vision_step op v = (v', a, rs)"
  shows "writer_ok v' (acc @ a) \<and> (\<exists>out'. reader_ok v' out' \<and> out = delivered rs @ out' \<and> (Ready [] \<in> set rs \<longrightarrow> out = [])) \<and>
    (\<forall>e. Failed e \<in> set rs \<longrightarrow> e = ''write zero'') \<and>
    (op_arrives op \<and> (\<forall>e. Failed e \<notin> set rs) \<and> Ready [] \<notin> set rs \<longrightarrow> length (incoming (below v')) + length rs \<le> length (incoming (below v)))"
proof (cases op)
  case (ReadOp ks flushed n as)
  let ?v = "v\<lparr>below := (below v)\<lparr>arrivals := as\<rparr>\<rparr>"
  obtain p w where w: "poll_read ks flushed n ?v = (p, w)" by fastforce
  have e: "v' = w" "a = []" "rs = [p]" using assms(4) ReadOp w by auto
  have "writer_ok ?v acc" using assms(1) by (simp add: writer_ok_def)
  then have l: "writer_ok w acc" "p = Failed ''write zero'' \<and> reader_ok w out \<and> below w = below ?v \<or> read_result ?v out (p, w)"
    using poll_read_ok [of ?v acc out n ks flushed p w] w assms(2,3) ReadOp by auto
  from l(2) show ?thesis
  proof
    assume "p = Failed ''write zero'' \<and> reader_ok w out \<and> below w = below ?v"
    then show ?thesis using e l(1) by auto
  next
    assume "read_result ?v out (p, w)"
    then show ?thesis using e l(1) ReadOp by (cases p) (auto simp: read_result_def blocked_def split: if_splits)
  qed
next
  case (WriteOp ks flushed taken random bs)
  obtain p w where w: "poll_write ks flushed taken random bs v = (p, w)" by fastforce
  note l = poll_write_ok [OF assms(1) w] poll_write_reader [OF assms(1) w, of out]
  then show ?thesis using assms(2,4) w WriteOp by (cases p) auto
next
  case (FlushOp ks flushed)
  obtain p w where w: "flush_frame ks flushed v = (p, w)" by fastforce
  then show ?thesis
    using assms(2,4) flush_frame_ok [OF assms(1) w] flush_frame_reader [OF assms(1) w] FlushOp by (auto simp: poll_flush_def)
next
  case (ShutdownOp ks flushed closed)
  obtain p w where w: "poll_shutdown ks flushed closed v = (p, w)" by fastforce
  obtain q v1 d where f: "flush_frame ks flushed v = (q, v1)" "w = v1\<lparr>v_closed := d\<rparr>" using poll_shutdown_shape [OF w] by blast
  have "writer_ok w acc" using flush_frame_ok [OF assms(1) f(1)] by (simp add: f(2) writer_ok_def)
  then show ?thesis
    using assms(2,4) w f(2) flush_frame_reader [OF assms(1) f(1)] ShutdownOp by auto
qed

lemma vision_run_ok:
  assumes "writer_ok v acc" and "reader_ok v out" and "list_all read_op_ok ops" and "vision_run ops v = (v', a, rs)"
  shows "writer_ok v' (acc @ a) \<and> (\<exists>out'. reader_ok v' out' \<and> out = delivered rs @ out' \<and> (Ready [] \<in> set rs \<longrightarrow> out' = [])) \<and>
    (\<forall>e. Failed e \<in> set rs \<longrightarrow> e = ''write zero'') \<and>
    (list_all op_arrives ops \<and> (\<forall>e. Failed e \<notin> set rs) \<and> Ready [] \<notin> set rs \<longrightarrow> length (incoming (below v')) + length rs \<le> length (incoming (below v)))"
  using assms
proof (induction ops arbitrary: v v' acc out a rs)
  case Nil
  then show ?case by auto
next
  case (Cons op ops)
  obtain v1 a1 r1 where 1: "vision_step op v = (v1, a1, r1)" by (metis prod_cases3)
  obtain v2 a2 r2 where 2: "vision_run ops v1 = (v2, a2, r2)" by (metis prod_cases3)
  have e: "v' = v2" "a = a1 @ a2" "rs = r1 @ r2" using Cons.prems(4) 1 2 by auto
  have ok: "read_op_ok op" "list_all read_op_ok ops" using Cons.prems(3) by simp_all
  note s = vision_step_ok [OF Cons.prems(1,2) ok(1) 1]
  obtain out1 where o1: "reader_ok v1 out1" "out = delivered r1 @ out1" "Ready [] \<in> set r1 \<longrightarrow> out = []" using s by blast
  have w1: "writer_ok v1 (acc @ a1)" using s by blast
  note r = Cons.IH [OF w1 o1(1) ok(2) 2]
  obtain out2 where o2: "reader_ok v2 out2" "out1 = delivered r2 @ out2" "Ready [] \<in> set r2 \<longrightarrow> out2 = []" using r by blast
  have "reader_ok v' out2 \<and> out = delivered rs @ out2 \<and> (Ready [] \<in> set rs \<longrightarrow> out2 = [])" using o1 o2 e by auto
  moreover have "writer_ok v' (acc @ a)" using r e by simp
  moreover have "\<forall>e. Failed e \<in> set rs \<longrightarrow> e = ''write zero''" using r s e by auto
  moreover have "list_all op_arrives (op # ops) \<and> (\<forall>e. Failed e \<notin> set rs) \<and> Ready [] \<notin> set rs \<longrightarrow>
      length (incoming (below v')) + length rs \<le> length (incoming (below v))"
    using r s e by auto
  ultimately show ?case by blast
qed

lemma vision_framed_ok:
  "writer_ok (vision_framed bs i) []"
  "\<lbrakk>length i = 16; length addon = unat k; frames_ok fs rest\<rbrakk>
   \<Longrightarrow> reader_ok (vision_framed (map (Pair False) (0 # k # addon) @ vision_bytes i fs rest) i) (payload fs rest)"
proof -
  show "writer_ok (vision_framed bs i) []"
    unfolding writer_ok_def by (intro exI [of _ "[]"]) (simp add: vision_framed_def vision_bytes_def)
  assume a: "length i = 16" "length addon = unat k" "frames_ok fs rest"
  let ?ys = "(if fs = [] then [] else i) @ frames_bytes fs"
  let ?v = "vision_framed (map (Pair False) (0 # k # addon) @ vision_bytes i fs rest) i"
  have "resp_holds False (below ?v) ?ys (map (Pair (goes_direct fs)) rest)"
    unfolding resp_holds_def using a(2)
    by (intro exI [of _ "0 # k # addon"]) (simp add: vision_framed_def source_new_def resp_ok_def raw_holds_def vision_bytes_def)
  then have "reading ?v False ?ys [] [] fs rest" using a by (simp add: reading_def vision_framed_def source_new_def)
  moreover have "read_header ?v = []" by (simp add: vision_framed_def)
  ultimately show "reader_ok ?v (payload fs rest)" unfolding reader_ok_def by force
qed

text \<open>The writing half is in order whatever the end reads, even when what it reads is not a Vision stream.\<close>

lemma poll_read_writer:
  assumes "writer_ok v acc" and "poll_read ks flushed n v = (p, v')"
  shows "writer_ok v' acc \<and> v_id v' = v_id v"
proof -
  obtain q v1 where f: "flush_frame ks flushed v = (q, v1)" by fastforce
  note l = flush_frame_ok [OF assms(1) f]
  have id: "v_id v1 = v_id v" using l by auto
  consider "v' = v" | "v' = v1" | "read_loop 64 n v1 = (p, v')"
    using assms(2) f by (auto simp: poll_read_def split: if_splits poll.splits)
  then show ?thesis
  proof cases
    case 3
    then have "write_side v' = write_side v1" using read_loop_side [of 64 n v1] by simp
    then show ?thesis using l id writer_ok_side [of v'] writer_ok_side [of v1] v_id_side [of v'] v_id_side [of v1] by simp
  qed (use assms(1) l id in auto)
qed

lemma vision_step_writer:
  assumes "writer_ok v acc" and "vision_step op v = (v', a, rs)"
  shows "writer_ok v' (acc @ a) \<and> v_id v' = v_id v"
proof (cases op)
  case (ReadOp ks flushed n as)
  let ?v = "v\<lparr>below := (below v)\<lparr>arrivals := as\<rparr>\<rparr>"
  obtain p w where w: "poll_read ks flushed n ?v = (p, w)" by fastforce
  have "writer_ok ?v acc" using assms(1) by (simp add: writer_ok_def)
  then show ?thesis using poll_read_writer [OF _ w] assms(2) ReadOp w by auto
next
  case (WriteOp ks flushed taken random bs)
  obtain p w where w: "poll_write ks flushed taken random bs v = (p, w)" by fastforce
  obtain q v1 where f: "flush_frame ks flushed v = (q, v1)" by fastforce
  have "v_id w = v_id v1" using w f by (auto simp: poll_write_def Let_def split: poll.splits if_splits option.splits)
  moreover have "v_id v1 = v_id v" using flush_frame_ok [OF assms(1) f] by auto
  ultimately show ?thesis using poll_write_ok [OF assms(1) w] assms(2) w WriteOp by (cases p) auto
next
  case (FlushOp ks flushed)
  obtain p w where w: "flush_frame ks flushed v = (p, w)" by fastforce
  then show ?thesis using assms(2) flush_frame_ok [OF assms(1) w] FlushOp by (auto simp: poll_flush_def)
next
  case (ShutdownOp ks flushed closed)
  obtain p w where w: "poll_shutdown ks flushed closed v = (p, w)" by fastforce
  obtain q v1 d where f: "flush_frame ks flushed v = (q, v1)" "w = v1\<lparr>v_closed := d\<rparr>" using poll_shutdown_shape [OF w] by blast
  have "writer_ok w acc" "v_id w = v_id v" using flush_frame_ok [OF assms(1) f(1)] by (auto simp: f(2) writer_ok_def)
  then show ?thesis using assms(2) w ShutdownOp by auto
qed

lemma vision_run_writer:
  "writer_ok v acc \<Longrightarrow> vision_run ops v = (v', a, rs) \<Longrightarrow> writer_ok v' (acc @ a) \<and> v_id v' = v_id v"
proof (induction ops arbitrary: v v' acc a rs)
  case (Cons op ops)
  obtain v1 a1 r1 where 1: "vision_step op v = (v1, a1, r1)" by (metis prod_cases3)
  obtain v2 a2 r2 where 2: "vision_run ops v1 = (v2, a2, r2)" by (metis prod_cases3)
  have e: "v' = v2" "a = a1 @ a2" using Cons.prems(2) 1 2 by auto
  show ?case using Cons.IH [of v1 "acc @ a1", OF _ 2] vision_step_writer [OF Cons.prems(1) 1] e by auto
qed simp

lemma writer_flushed:
  assumes "writer_ok v acc" and "frame_buffer v = []"
  obtains fs rest where "sent v = vision_bytes (v_id v) fs rest" and "acc = payload fs rest" and "frames_ok fs rest"
  using assms unfolding writer_ok_def by auto

text \<open>C8: Vision is transparent. Two ends use it in both directions at once, with calls in any order, reads and writes
  of any size, and any padding. If one end has flushed what it wrote, the other one reads a prefix of exactly the
  bytes that the writes accepted; the padding, the frames and the switch to the direct layer do not show. A read
  never fails because of what was received, the end of the stream is reported only after the last byte, and it
  is reached: every read with something to receive gets ahead.\<close>

theorem vision_transparent:
  assumes "length i = 16" and "length addon = unat k"
    and "vision_run ops1 (vision_framed bs i) = (v1, accepted, rs1)" and "frame_buffer v1 = []"
    and "vision_run ops2 (vision_framed (map (Pair False) (0 # k # addon) @ sent v1) i) = (v2, accepted2, rs)"
    and "list_all read_op_ok ops2"
  shows "(\<exists>later. accepted = delivered rs @ later \<and> (Ready [] \<in> set rs \<longrightarrow> later = []))
    \<and> (\<forall>e. Failed e \<in> set rs \<longrightarrow> e = ''write zero'')
    \<and> (list_all op_arrives ops2 \<and> (\<forall>e. Failed e \<notin> set rs) \<and> 2 + length addon + length (sent v1) < length rs \<longrightarrow> Ready [] \<in> set rs)"
proof -
  have w: "writer_ok v1 accepted" "v_id v1 = i" using vision_run_writer [OF vision_framed_ok(1) assms(3)] by (simp_all add: vision_framed_def)
  obtain fs rest where f: "sent v1 = vision_bytes i fs rest" "accepted = payload fs rest" "frames_ok fs rest"
    using writer_flushed [OF w(1) assms(4)] w(2) by metis
  let ?v = "vision_framed (map (Pair False) (0 # k # addon) @ sent v1) i"
  have ok: "reader_ok ?v accepted" using vision_framed_ok(2) [OF assms(1,2) f(3)] f(1,2) by simp
  have l: "length (incoming (below ?v)) = 2 + length addon + length (sent v1)" by (simp add: vision_framed_def source_new_def)
  note r = vision_run_ok [OF vision_framed_ok(1) ok assms(6,5)]
  obtain later where "accepted = delivered rs @ later" "Ready [] \<in> set rs \<longrightarrow> later = []" using r by blast
  moreover have "Ready [] \<in> set rs"
    if "list_all op_arrives ops2" "\<forall>e. Failed e \<notin> set rs" "2 + length addon + length (sent v1) < length rs"
  proof (rule ccontr)
    assume "Ready [] \<notin> set rs"
    then have "length (incoming (below v2)) + length rs \<le> length (incoming (below ?v))" using r that(1,2) by blast
    then show False using l that(3) by simp
  qed
  ultimately show ?thesis using r by blast
qed

definition example_id :: bytes where
  "example_id = [7, 7, 7, 7, 7, 7, 7, 7, 7, 7, 7, 7, 7, 7, 7, 7]"

lemma be_bytes_2: "be_bytes 2 n = [word_of_nat (n div 256), word_of_nat n]"
  by (simp add: numeral_2_eq_2)

lemma replicate_3: "replicate 3 x = [x, x, x]"
  by (simp add: numeral_3_eq_3)

lemma example_written:
  "\<exists>v. vision_run [WriteOp [] True None 3 [1, 2, 3], FlushOp [9, 99] True] (vision_framed [] example_id) = (v, [1, 2, 3], []) \<and> frame_buffer v = [] \<and>
     sent v = map (Pair False) (example_id @ [0, 0, 3, 0, 3, 1, 2, 3, 0, 0, 0])"
  apply (simp add: vision_framed_def poll_write_def flush_frame_def poll_flush_def inner_observe_def
      frame_command_def frame_padding_def Let_def be_bytes_2 example_id_def replicate_3)
  done

lemma two_frames: "read_loop 64 n v = read_loop (Suc (Suc 62)) n v"
  by simp

lemma be_val_2: "be_val [x, y] = unat x * 256 + unat y"
  by (simp add: be_val_Cons)

lemma example_response:
  "response_read 21 \<lparr>incoming = (False, 0) # (False, 1) # (False, 9) # map (Pair False) (example_id @ [0, 0, 3, 0, 3]) @ zs, arrivals = [1, 30, 30, 30],
     read_direct = False, resp_header = [], discard = 0, resp_ready = False, resp_failed = False\<rparr>
   = (Ready (example_id @ [0, 0, 3, 0, 3]), \<lparr>incoming = zs, arrivals = [30],
     read_direct = False, resp_header = [0, 1], discard = 0, resp_ready = True, resp_failed = False\<rparr>)"
  by (simp add: response_read_def header_loop.simps discard_loop.simps raw_read_def example_id_def)

lemma example_content:
  "response_read 2 \<lparr>incoming = map (Pair False) (1 # 2 # zs), arrivals = [30],
     read_direct = False, resp_header = [0, 1], discard = 0, resp_ready = True, resp_failed = False\<rparr>
   = (Ready [1, 2], \<lparr>incoming = map (Pair False) zs, arrivals = [],
     read_direct = False, resp_header = [0, 1], discard = 0, resp_ready = True, resp_failed = False\<rparr>)"
  by (simp add: response_read_def header_loop.simps discard_loop.simps raw_read_def)

lemma example_parse:
  "length i = 16 \<Longrightarrow> v_id v = i \<Longrightarrow> read_first v \<Longrightarrow> read_header v = i @ [0, 0, 3, 0, 3] \<Longrightarrow>
    frame_parse n v = Inr (v\<lparr>read_first := False, v_command := 0, content := 3, padding := 3, read_header := []\<rparr>)"
  by (simp add: frame_parse_def nth_append be_val_2)

lemma example_header:
  "length i = 16 \<Longrightarrow> v_id v = i \<Longrightarrow> read_first v \<Longrightarrow> read_header v = [] \<Longrightarrow> response_read 21 (below v) = (Ready (i @ [0, 0, 3, 0, 3]), s) \<Longrightarrow>
    frame_header_loop v = (None, v\<lparr>below := s, read_header := i @ [0, 0, 3, 0, 3]\<rparr>)"
  by (simp add: frame_header_loop.simps [of v] frame_header_loop.simps [of "v\<lparr>below := s, read_header := i @ [0, 0, 3, 0, 3]\<rparr>"] header_need_def lift_read_def)

lemma example_loop:
  assumes "length i = 16" "v_id v = i" "read_first v" "read_header v = []" "response_read 21 (below v) = (Ready (i @ [0, 0, 3, 0, 3]), s)"
    "\<not> read_plain v" "content v = 0" "padding v = 0" "v_command v = 0" "response_read 2 s = (Ready [1, 2], s')"
  shows "fst (read_loop (Suc (Suc m)) 2 v) = Ready [1, 2]"
proof -
  have p: "padding_loop v = (None, v)" using assms by (simp add: padding_loop.simps [of v])
  show ?thesis using assms p
    by (simp add: example_header [OF assms(1-5)] example_parse [OF assms(1)] content_read_def lift_read_def)
qed

definition example_source :: "(bool \<times> u8) list" where
  "example_source = map (Pair False) (0 # 1 # [9]) @ map (Pair False) (example_id @ [0, 0, 3, 0, 3, 1, 2, 3, 0, 0, 0])"

lemma example_source_split:
  "example_source = (False, 0) # (False, 1) # (False, 9) # map (Pair False) (example_id @ [0, 0, 3, 0, 3]) @ map (Pair False) [1, 2, 3, 0, 0, 0]"
  by (simp add: example_source_def)

lemma example_read:
  "snd (vision_run [ReadOp [] True 2 [1, 30, 30, 30]] (vision_framed example_source example_id)) = ([], [Ready [1, 2]])"
proof -
  let ?v = "(vision_framed example_source example_id)\<lparr>below := (source_new example_source)\<lparr>arrivals := [1, 30, 30, 30]\<rparr>\<rparr>"
  have i: "length example_id = 16" by (simp add: example_id_def)
  have "fst (read_loop 64 2 ?v) = Ready [1, 2]"
    by (subst two_frames, rule example_loop [OF i _ _ _ _ _ _ _ _ example_content [of "[3, 0, 0, 0]"]])
      (simp_all only: vision_framed_def vision.simps source.simps source_new_def example_source_split example_response simp_thms)
  then show ?thesis
    by (simp add: poll_read_def flush_frame_def vision_framed_def source_new_def split_def del: read_loop.simps)
qed

theorem vision_transparent_witness:
  "\<exists>v1 v2. vision_run [WriteOp [] True None 3 [1, 2, 3], FlushOp [9, 99] True] (vision_framed [] example_id) = (v1, [1, 2, 3], [])
    \<and> vision_run [ReadOp [] True 2 [1, 30, 30, 30]] (vision_framed (map (Pair False) (0 # 1 # [9]) @ sent v1) example_id) = (v2, [], [Ready [1, 2]])
    \<and> (\<exists>later. [1, 2, 3] = delivered [Ready [1, 2]] @ later)"
proof -
  obtain v1 where w: "vision_run [WriteOp [] True None 3 [1, 2, 3], FlushOp [9, 99] True] (vision_framed [] example_id) = (v1, [1, 2, 3], [])"
      "frame_buffer v1 = []" "sent v1 = map (Pair False) (example_id @ [0, 0, 3, 0, 3, 1, 2, 3, 0, 0, 0])"
    using example_written by blast
  obtain v2 where r: "vision_run [ReadOp [] True 2 [1, 30, 30, 30]] (vision_framed (map (Pair False) (0 # 1 # [9]) @ sent v1) example_id) = (v2, [], [Ready [1, 2]])"
    using example_read unfolding example_source_def w(3) [symmetric] by (metis prod.collapse)
  have "length example_id = 16" "length ([9] :: bytes) = unat (1 :: u8)" by (simp_all add: example_id_def)
  from vision_transparent [OF this w(1,2) r] show ?thesis using w(1) r by auto
qed

end
