(* ===== verification/WebSocket.thy ===== *)
theory WebSocket
  imports Framing
begin

text \<open>
  The WebSocket transport (\<^verbatim>\<open>crates/protocol/src/websocket.rs\<close>): the answer to the upgrade request, the frames of
  the client, the parser of the server's frames, and the reads and writes of the stream. Random masks are
  arguments; the socket below is a list of pieces that arrive and the bytes it has taken.
\<close>

unbundle bit_operations_syntax

section \<open>Definitions\<close>

record ws =
  raw :: bool
  expected_accept :: "str option"
  upgraded :: bool
  ws_incoming :: bytes
  ws_payload :: bytes
  payload_at :: nat
  outgoing :: bytes
  outgoing_at :: nat
  ws_closed :: bool
  ws_sent :: bytes

definition ws_new :: "bool \<Rightarrow> str option \<Rightarrow> ws" where
  "ws_new r accept = \<lparr>raw = r, expected_accept = accept, upgraded = False, ws_incoming = [], ws_payload = [],
     payload_at = 0, outgoing = [], outgoing_at = 0, ws_closed = False, ws_sent = []\<rparr>"

subsection \<open>The upgrade\<close>

definition crlf :: str where
  "crlf = [CHR 0x0D, CHR 0x0A]"

text \<open>The first place where a string occurs, and the pieces between its occurrences.\<close>

fun position :: "'a list \<Rightarrow> 'a list \<Rightarrow> nat option" where
  "position p [] = (if p = [] then Some 0 else None)"
| "position p (x # xs) = (if prefix p (x # xs) then Some 0 else map_option Suc (position p xs))"

lemma position_less: "position p s = Some i \<Longrightarrow> i + length p \<le> length s"
  by (induction s arbitrary: i) (auto split: if_splits dest: prefix_length_le)

function split_str :: "str \<Rightarrow> str \<Rightarrow> str list" where
  "split_str p s =
     (if p = [] then [s]
      else (case position p s of None \<Rightarrow> [s] | Some i \<Rightarrow> take i s # split_str p (drop (i + length p) s)))"
  by pat_completeness auto
termination
proof (relation "measure (\<lambda>(p, s). length s)", simp)
  fix p s i
  assume "p \<noteq> []" and "position p s = Some i"
  then have "0 < length p" "i + length p \<le> length s" using position_less by auto
  then have "length s - (i + length p) < length s" by linarith
  then show "((p, drop (i + length p) s), p, s) \<in> measure (\<lambda>(p, s). length s)" by simp
qed

declare split_str.simps [simp del]

text \<open>The second of the words that white space separates.\<close>

fun until_space :: "str \<Rightarrow> str \<times> str" where
  "until_space [] = ([], [])"
| "until_space (c # s) =
     (if list_ex (\<lambda>w. prefix w (c # s)) white_space then ([], c # s)
      else let (w, r) = until_space s in (c # w, r))"

definition second_word :: "str \<Rightarrow> str option" where
  "second_word s =
     (let r = trim_start (snd (until_space (trim_start s)))
      in if trim_start s = [] \<or> r = [] then None else Some (fst (until_space r)))"

definition header_value :: "str \<Rightarrow> str list \<Rightarrow> str option" where
  "header_value name ls =
     map_option (\<lambda>(n, v). trim v) (find (\<lambda>(n, v). eq_ignore_ascii_case n name) (List.map_filter (split_once CHR '':'') ls))"

definition parse_upgrade :: "ws \<Rightarrow> bool result \<times> ws" where
  "parse_upgrade w =
     (case position (str_bytes (crlf @ crlf)) (ws_incoming w) of
        None \<Rightarrow> (Inr False, w)
      | Some i \<Rightarrow>
          (case from_utf8 (take (i + 4) (ws_incoming w)) of
             Inl e \<Rightarrow> (Inl e, w)
           | Inr head \<Rightarrow>
               let ls = split_str crlf head
               in if second_word (hd ls) \<noteq> Some ''101'' then (Inl (''WebSocket upgrade rejected: '' @ hd ls), w)
                  else if expected_accept w \<noteq> None \<and> header_value ''Sec-WebSocket-Accept'' (tl ls) \<noteq> expected_accept w
                  then (Inl ''invalid WebSocket accept key'', w)
                  else (Inr True, w\<lparr>ws_incoming := drop (i + 4) (ws_incoming w), upgraded := True\<rparr>)))"

text \<open>Reading until the upgrade is complete: the answer that ends a read early, if any.\<close>

function upgrade_loop :: "bytes list \<Rightarrow> ws \<Rightarrow> bytes poll option \<times> bytes list \<times> ws" where
  "upgrade_loop cs w =
     (if upgraded w then (None, cs, w)
      else
        (case parse_upgrade w of
           (Inl e, w) \<Rightarrow> (Some (Failed e), cs, w)
         | (Inr True, w) \<Rightarrow> (None, cs, w)
         | (Inr False, w) \<Rightarrow>
             (case chunk_read 2048 cs of
                (Pending, cs) \<Rightarrow> (Some Pending, cs, w)
              | (Failed e, cs) \<Rightarrow> (Some (Failed e), cs, w)
              | (Ready d, cs) \<Rightarrow>
                  if d = [] then (Some (Failed ''unexpected end of file''), cs, w)
                  else upgrade_loop cs (w\<lparr>ws_incoming := ws_incoming w @ d\<rparr>))))"
  by pat_completeness auto
termination
  by (relation "measure (\<lambda>(cs, w). chunk_size cs)") (auto dest!: chunk_read_size sym [of _ "chunk_read _ _"])

declare upgrade_loop.simps [simp del]

text \<open>The upgrade that a connection waits for (\<^verbatim>\<open>read_upgrade\<close>), with the limit on the size of the headers.\<close>

function read_upgrade :: "bytes list \<Rightarrow> ws \<Rightarrow> unit poll \<times> bytes list \<times> ws" where
  "read_upgrade cs w =
     (if upgraded w then (Ready (), cs, w)
      else if 32 * 1024 \<le> length (ws_incoming w) then (Failed ''WebSocket response headers too large'', cs, w)
      else
        (case chunk_read 2048 cs of
           (Pending, cs) \<Rightarrow> (Pending, cs, w)
         | (Failed e, cs) \<Rightarrow> (Failed e, cs, w)
         | (Ready d, cs) \<Rightarrow>
             if d = [] then (Failed ''WebSocket server closed during upgrade'', cs, w)
             else
               (case parse_upgrade (w\<lparr>ws_incoming := ws_incoming w @ d\<rparr>) of
                  (Inl e, w) \<Rightarrow> (Failed e, cs, w)
                | (Inr _, w) \<Rightarrow> read_upgrade cs w)))"
  by pat_completeness auto
termination
  by (relation "measure (\<lambda>(cs, w). chunk_size cs)") (auto dest!: chunk_read_size sym [of _ "chunk_read _ _"])

declare read_upgrade.simps [simp del]

subsection \<open>Frames\<close>

definition mask_bytes :: "bytes \<Rightarrow> bytes \<Rightarrow> bytes" where
  "mask_bytes m bs = map (\<lambda>(i, b). b XOR m ! (i mod 4)) (enumerate 0 bs)"

definition ws_frame :: "bytes \<Rightarrow> bytes \<Rightarrow> u8 \<Rightarrow> bytes" where
  "ws_frame mk bs opcode =
     [0x80 OR opcode]
     @ (if length bs < 126 then [0x80 OR word_of_nat (length bs)]
        else if length bs \<le> u16_max then (0x80 OR 126) # be_bytes 2 (length bs)
        else (0x80 OR 127) # be_bytes 8 (length bs))
     @ mk @ mask_bytes mk bs"

text \<open>
  The frame at the front of the buffer: its opcode, its unmasked data and what follows. The end of the data is
  computed with the wrap-around of \<^verbatim>\<open>usize\<close>; a range that ends before it starts panics.
\<close>

definition frame_sizes :: "bytes \<Rightarrow> (nat \<times> nat) option" where
  "frame_sizes b =
     (let l = unat (b ! 1 AND 0x7f)
      in if l = 126 then if length b < 4 then None else Some (4, be_val (take 2 (drop 2 b)))
         else if l = 127 then if length b < 10 then None else Some (10, be_val (take 8 (drop 2 b)))
         else Some (2, l))"

definition frame_data :: "bytes \<Rightarrow> nat \<Rightarrow> nat \<Rightarrow> bytes option \<Rightarrow> (u8 \<times> bytes) parsed" where
  "frame_data b start len mk =
     (let stop = size_add start len
      in if length b < stop then Incomplete
         else if stop < start then Malformed ''panicked: slice index starts after its end''
         else
           let d = take (stop - start) (drop start b)
           in Message (b ! 0 AND 0x0f, case mk of None \<Rightarrow> d | Some m \<Rightarrow> mask_bytes m d) (drop stop b))"

definition split_frame :: "bytes \<Rightarrow> (u8 \<times> bytes) parsed" where
  "split_frame b =
     (if length b < 2 then Incomplete
      else
        (case frame_sizes b of
           None \<Rightarrow> Incomplete
         | Some (start, len) \<Rightarrow>
             if b ! 1 AND 0x80 \<noteq> 0 then
               if length b < start + 4 then Incomplete
               else frame_data b (start + 4) len (Some (take 4 (drop start b)))
             else frame_data b start len None))"

definition parse_frame :: "bytes \<Rightarrow> ws \<Rightarrow> bool result \<times> ws" where
  "parse_frame mk w =
     (case split_frame (ws_incoming w) of
        Incomplete \<Rightarrow> (Inr False, w)
      | Malformed e \<Rightarrow> (Inl e, w)
      | Message (opcode, data) rest \<Rightarrow>
          let w = w\<lparr>ws_incoming := rest\<rparr>
          in if opcode = 0 \<or> opcode = 2 then (Inr True, w\<lparr>ws_payload := data, payload_at := 0\<rparr>)
             else if opcode = 8 then (Inr True, w\<lparr>ws_closed := True\<rparr>)
             else if opcode = 9 then (Inr True, w\<lparr>outgoing := outgoing w @ ws_frame mk data 10\<rparr>)
             else if opcode = 10 then (Inr True, w)
             else (Inl ''unsupported WebSocket frame'', w))"

subsection \<open>Reading and writing\<close>

definition deliver_payload :: "nat \<Rightarrow> ws \<Rightarrow> bytes poll \<times> ws" where
  "deliver_payload n w =
     (let k = min n (length (ws_payload w) - payload_at w)
      in (Ready (take k (drop (payload_at w) (ws_payload w))), w\<lparr>payload_at := payload_at w + k\<rparr>))"

text \<open>The mask of a pong is a function of the buffer that holds the ping.\<close>

function frame_loop :: "(bytes \<Rightarrow> bytes) \<Rightarrow> nat \<Rightarrow> bytes list \<Rightarrow> ws \<Rightarrow> bytes poll \<times> bytes list \<times> ws" where
  "frame_loop masks n cs w =
     (if ws_closed w then (Ready [], cs, w)
      else
        (case parse_frame (masks (ws_incoming w)) w of
           (Inl e, w) \<Rightarrow> (Failed e, cs, w)
         | (Inr found, w) \<Rightarrow>
             if found \<and> payload_at w < length (ws_payload w) then
               let (p, w) = deliver_payload n w in (p, cs, w)
             else
               (case chunk_read 8192 cs of
                  (Pending, cs) \<Rightarrow> (Pending, cs, w)
                | (Failed e, cs) \<Rightarrow> (Failed e, cs, w)
                | (Ready d, cs) \<Rightarrow>
                    if d = [] then (Ready [], cs, w)
                    else frame_loop masks n cs (w\<lparr>ws_incoming := ws_incoming w @ d\<rparr>))))"
  by pat_completeness auto
termination
  by (relation "measure (\<lambda>(m, n, cs, w). chunk_size cs)") (auto dest!: chunk_read_size sym [of _ "chunk_read _ _"])

declare frame_loop.simps [simp del]

definition ws_read :: "(bytes \<Rightarrow> bytes) \<Rightarrow> nat \<Rightarrow> bytes list \<Rightarrow> ws \<Rightarrow> bytes poll \<times> bytes list \<times> ws" where
  "ws_read masks n cs w =
     (case upgrade_loop cs w of
        (Some p, cs, w) \<Rightarrow> (p, cs, w)
      | (None, cs, w) \<Rightarrow>
          if raw w then
            if ws_incoming w \<noteq> [] then
              let k = min n (length (ws_incoming w))
              in (Ready (take k (ws_incoming w)), cs, w\<lparr>ws_incoming := drop k (ws_incoming w)\<rparr>)
            else let (p, cs) = chunk_read n cs in (p, cs, w)
          else if payload_at w < length (ws_payload w) then
            let (p, w) = deliver_payload n w in (p, cs, w)
          else frame_loop masks n cs w)"

text \<open>What the socket does with the writes of a call: how many bytes each takes, and whether a flush completes.\<close>

fun outgoing_loop :: "nat list \<Rightarrow> ws \<Rightarrow> unit poll \<times> ws" where
  "outgoing_loop [] w = (if outgoing_at w < length (outgoing w) then (Pending, w) else (Ready (), w))"
| "outgoing_loop (k # ks) w =
     (if outgoing_at w < length (outgoing w) then
        let n = min k (length (outgoing w) - outgoing_at w)
        in if n = 0 then (Failed ''write zero'', w)
           else outgoing_loop ks (w\<lparr>outgoing_at := outgoing_at w + n,
             ws_sent := ws_sent w @ take n (drop (outgoing_at w) (outgoing w))\<rparr>)
      else (Ready (), w))"

definition flush_outgoing :: "nat list \<Rightarrow> bool \<Rightarrow> ws \<Rightarrow> unit poll \<times> ws" where
  "flush_outgoing ks flushed w =
     (case outgoing_loop ks w of
        (Ready _, w) \<Rightarrow> (if flushed then Ready () else Pending, w\<lparr>outgoing := [], outgoing_at := 0\<rparr>)
      | (p, w) \<Rightarrow> (p, w))"

definition ws_write :: "nat list \<Rightarrow> bool \<Rightarrow> nat option \<Rightarrow> bytes \<Rightarrow> bytes \<Rightarrow> ws \<Rightarrow> nat poll \<times> ws" where
  "ws_write ks flushed taken mk bs w =
     (case flush_outgoing ks flushed w of
        (Pending, w) \<Rightarrow> (Pending, w)
      | (Failed e, w) \<Rightarrow> (Failed e, w)
      | (Ready _, w) \<Rightarrow>
          if raw w then
            case taken of
              None \<Rightarrow> (Pending, w)
            | Some k \<Rightarrow> (Ready (min k (length bs)), w\<lparr>ws_sent := ws_sent w @ take k bs\<rparr>)
          else
            let n = min (length bs) (16 * 1024)
            in (Ready n, w\<lparr>outgoing := ws_frame mk (take n bs) 2\<rparr>))"

definition ws_shutdown :: "nat list \<Rightarrow> bool \<Rightarrow> bool \<Rightarrow> ws \<Rightarrow> unit poll \<times> ws" where
  "ws_shutdown ks flushed closed w =
     (case flush_outgoing ks flushed w of
        (Ready _, w) \<Rightarrow> (if closed then Ready () else Pending, w)
      | (p, w) \<Rightarrow> (p, w))"

section \<open>Frames are read back\<close>

text \<open>A frame on the wire: its first byte, its data and its mask, if it has one.\<close>

type_synonym wire = "u8 \<times> bytes \<times> bytes option"

definition length_code :: "nat \<Rightarrow> nat" where
  "length_code n = (if n < 126 then n else if n \<le> u16_max then 126 else 127)"

definition length_ext :: "nat \<Rightarrow> bytes" where
  "length_ext n = (if n < 126 then [] else if n \<le> u16_max then be_bytes 2 n else be_bytes 8 n)"

definition mask_bit :: "bytes option \<Rightarrow> u8" where
  "mask_bit m = (if m = None then 0 else 0x80)"

definition mask_key :: "bytes option \<Rightarrow> bytes" where
  "mask_key m = (case m of None \<Rightarrow> [] | Some k \<Rightarrow> k)"

definition mask_data :: "bytes option \<Rightarrow> bytes \<Rightarrow> bytes" where
  "mask_data m d = (case m of None \<Rightarrow> d | Some k \<Rightarrow> mask_bytes k d)"

fun wire_bytes :: "wire \<Rightarrow> bytes" where
  "wire_bytes (b, d, m) = b # (mask_bit m OR word_of_nat (length_code (length d))) # length_ext (length d) @ mask_key m @ mask_data m d"

fun wire_ok :: "wire \<Rightarrow> bool" where
  "wire_ok (b, d, m) \<longleftrightarrow> length d < 2 ^ 63 \<and> (\<forall>k. m = Some k \<longrightarrow> length k = 4)"

fun wire_msg :: "wire \<Rightarrow> u8 \<times> bytes" where
  "wire_msg (b, d, m) = (b AND 0x0f, d)"

lemma ws_frame_wire: "ws_frame k d opcode = wire_bytes (0x80 OR opcode, d, Some k)"
  by (simp add: ws_frame_def length_code_def length_ext_def mask_bit_def mask_key_def mask_data_def)

lemma length_bits:
  assumes "n < 128"
  shows "unat ((mask_bit m OR word_of_nat n) AND 0x7f) = n" and "((mask_bit m OR word_of_nat n) AND 0x80 \<noteq> 0) = (m \<noteq> None)"
proof -
  have "list_all (\<lambda>n. unat ((0x80 OR word_of_nat n :: u8) AND 0x7f) = n \<and> (0x80 OR word_of_nat n :: u8) AND 0x80 \<noteq> 0 \<and>
      unat ((0 OR word_of_nat n :: u8) AND 0x7f) = n \<and> (0 OR word_of_nat n :: u8) AND 0x80 = 0) [0..<128]"
    by code_simp
  then show "unat ((mask_bit m OR word_of_nat n) AND 0x7f) = n" and "((mask_bit m OR word_of_nat n) AND 0x80 \<noteq> 0) = (m \<noteq> None)"
    using assms by (auto simp: list_all_iff mask_bit_def)
qed

lemma length_code_less: "length_code n < 128"
  by (simp add: length_code_def)

lemma mask_bytes_twice [simp]: "mask_bytes k (mask_bytes k d) = d"
  by (rule nth_equalityI) (auto simp: mask_bytes_def nth_enumerate_eq xor.assoc)

lemma length_mask_bytes [simp]: "length (mask_bytes k d) = length d"
  by (simp add: mask_bytes_def)

lemma length_mask_data [simp]: "length (mask_data m d) = length d"
  by (simp add: mask_data_def split: option.split)

lemma frame_sizes_full:
  assumes "n < 2 ^ 64" and "unat (l AND 0x7f) = length_code n"
  shows "frame_sizes (b # l # length_ext n @ r) = Some (2 + length (length_ext n), n)"
  using assms by (auto simp: frame_sizes_def length_code_def length_ext_def Let_def)

lemma frame_sizes_part:
  assumes "unat (l AND 0x7f) = length_code n" and "length s < length (length_ext n)"
  shows "frame_sizes (b # l # s) = None"
  using assms by (auto simp: frame_sizes_def length_code_def length_ext_def Let_def split: if_splits)

lemma frame_data_full:
  assumes "length h = start" and "start \<noteq> 0" and "start + length d < 2 ^ 64"
  shows "frame_data (h @ d @ r) start (length d) mk = Message (h ! 0 AND 0x0f, case mk of None \<Rightarrow> d | Some k \<Rightarrow> mask_bytes k d) r"
  using assms by (simp add: frame_data_def Let_def nth_append)

lemma split_frame_wire:
  assumes "wire_ok f"
  shows "split_frame (wire_bytes f @ r) = Message (wire_msg f) r"
proof -
  obtain b d m where f: "f = (b, d, m)" by (cases f)
  let ?l = "mask_bit m OR word_of_nat (length_code (length d)) :: u8" and ?e = "length_ext (length d)"
  let ?s = "2 + length ?e + length (mask_key m)"
  have n: "length d < 2 ^ 63" and k: "\<forall>k. m = Some k \<longrightarrow> length k = 4" using assms f by simp_all
  have l: "unat (?l AND 0x7f) = length_code (length d)" "(?l AND 0x80 \<noteq> 0) = (m \<noteq> None)"
    using length_bits [OF length_code_less] by simp_all
  have sizes: "frame_sizes (wire_bytes f @ r) = Some (2 + length ?e, length d)"
    using frame_sizes_full [of "length d" ?l b "mask_key m @ mask_data m d @ r"] n l(1) by (simp add: f)
  have "length ?e \<le> 8" "length (mask_key m) \<le> 4" using k by (auto simp: length_ext_def mask_key_def split: option.split)
  then have "?s + length (mask_data m d) < 2 ^ 64" using n by simp
  then have "frame_data ((b # ?l # ?e @ mask_key m) @ mask_data m d @ r) ?s (length (mask_data m d)) m = Message (wire_msg f) r"
    by (subst frame_data_full) (auto simp: f mask_data_def split: option.split)
  then have "frame_data (wire_bytes f @ r) ?s (length d) m = Message (wire_msg f) r" by (simp add: f)
  then show ?thesis
    using sizes l(2) k by (auto simp: split_frame_def f mask_key_def split: option.splits)
qed


lemma split_frame_part:
  assumes "wire_ok f" and "strict_prefix p (wire_bytes f)"
  shows "split_frame p = Incomplete"
proof -
  obtain b d m where f: "f = (b, d, m)" by (cases f)
  let ?l = "mask_bit m OR word_of_nat (length_code (length d)) :: u8" and ?e = "length_ext (length d)"
  have n: "length d < 2 ^ 63" and k: "\<forall>k. m = Some k \<longrightarrow> length k = 4" using assms(1) f by simp_all
  have l: "unat (?l AND 0x7f) = length_code (length d)" "(?l AND 0x80 \<noteq> 0) = (m \<noteq> None)"
    using length_bits [OF length_code_less] by simp_all
  obtain q where q: "wire_bytes f = p @ q" "q \<noteq> []" using assms(2) by (auto simp: strict_prefix_def prefix_def)
  show ?thesis
  proof (cases "length p < 2")
    case True
    then show ?thesis by (simp add: split_frame_def)
  next
    case False
    then obtain x y s where p: "p = x # y # s" by (cases p; cases "tl p") auto
    then have xy: "x = b" "y = ?l" and s: "?e @ mask_key m @ mask_data m d = s @ q" using q(1) f by simp_all
    show ?thesis
    proof (cases "length s < length ?e")
      case True
      then show ?thesis using frame_sizes_part [OF l(1) True, of b] p xy by (simp add: split_frame_def)
    next
      case False
      define t where "t = drop (length ?e) s"
      have "take (length ?e) (s @ q) = ?e" "drop (length ?e) (s @ q) = mask_key m @ mask_data m d" by (simp_all add: s [symmetric])
      then have t: "s = ?e @ t" "mask_key m @ mask_data m d = t @ q"
        using False append_take_drop_id [of "length ?e" s] by (simp_all add: t_def)
      have "length (mask_key m @ mask_data m d) = length t + length q" by (simp only: t(2) length_append)
      then have len: "length t < length (mask_key m) + length d" using q(2) by (cases q) auto
      have sizes: "frame_sizes p = Some (2 + length ?e, length d)"
        using frame_sizes_full [of "length d" ?l b t] n l(1) p xy t(1) by simp
      have "length ?e \<le> 8" "length (mask_key m) \<le> 4" using k by (auto simp: length_ext_def mask_key_def split: option.split)
      then have "size_add (2 + length ?e + length (mask_key m)) (length d) = 2 + length ?e + length (mask_key m) + length d"
        using n by (intro size_add_exact) simp
      then have "frame_data p (2 + length ?e + length (mask_key m)) (length d) mk = Incomplete" for mk
        using len p t(1) by (simp add: frame_data_def)
      then show ?thesis using sizes l(2) k xy p t(1) len by (auto simp: split_frame_def mask_key_def split: option.splits)
    qed
  qed
qed

interpretation server_frames: framing wire_bytes split_frame wire_msg wire_ok
  by unfold_locales (auto simp: split_frame_wire split_frame_part)

section \<open>Reading a stream of data frames\<close>

text \<open>An empty piece is the end of the stream: nothing follows it.\<close>

fun eof_ok :: "bytes list \<Rightarrow> bool" where
  "eof_ok [] = True"
| "eof_ok (c # cs) = (if c = [] then concat cs = [] else eof_ok cs)"

definition data_frame :: "wire \<Rightarrow> bool" where
  "data_frame f \<longleftrightarrow> wire_ok f \<and> fst (wire_msg f) \<in> {0, 2} \<and> snd (wire_msg f) \<noteq> []"

definition frames_data :: "wire list \<Rightarrow> bytes" where
  "frames_data fs = concat (map (\<lambda>f. snd (wire_msg f)) fs)"

text \<open>An answer that completes the upgrade: it ends with the first empty line, and is accepted.\<close>

definition upgrade_answer :: "str option \<Rightarrow> bytes \<Rightarrow> bool" where
  "upgrade_answer accept h \<longleftrightarrow> position (str_bytes (crlf @ crlf)) h = Some (length h - 4) \<and> 4 \<le> length h \<and>
     fst (parse_upgrade ((ws_new False accept)\<lparr>ws_incoming := h\<rparr>)) = Inr True"

definition ws_reading :: "ws \<Rightarrow> bytes \<Rightarrow> bytes \<Rightarrow> bool" where
  "ws_reading w later out \<longleftrightarrow> \<not> raw w \<and> \<not> ws_closed w \<and> payload_at w \<le> length (ws_payload w) \<and>
     (\<exists>h fs part. list_all data_frame fs \<and> server_frames.torn part \<and>
        ws_incoming w @ later = h @ concat (map wire_bytes fs) @ part \<and>
        (if upgraded w then h = [] else upgrade_answer (expected_accept w) h) \<and>
        out = drop (payload_at w) (ws_payload w) @ frames_data fs)"

lemma data_frame_ok: "list_all data_frame fs \<Longrightarrow> list_all wire_ok fs"
  by (auto simp: list_all_iff data_frame_def)

lemma eof_ok_append: "eof_ok (cs @ ds) \<Longrightarrow> eof_ok cs"
  by (induction cs) (auto split: if_splits)

lemma eof_ok_read:
  assumes "eof_ok (cs @ ds)" and "chunk_read n cs = (Ready d, cs')" and "0 < n"
  shows "eof_ok (cs' @ ds)" and "d = [] \<Longrightarrow> concat cs' = [] \<and> concat ds = []"
proof -
  obtain c es where c: "cs = c # es" "d = take n c" "cs' = (if n < length c then drop n c # es else es)"
    using assms(2) by (auto simp: chunk_read_def split: list.splits)
  have nil: "eof_ok xs" if "concat xs = []" for xs using that by (induction xs) auto
  show "eof_ok (cs' @ ds)" using assms(1) c nil [of "es @ ds"] by (auto split: if_splits)
  show "concat cs' = [] \<and> concat ds = []" if "d = []"
  proof -
    have "c = []" using that c(2) assms(3) by (cases c) auto
    then show ?thesis using assms(1) c by (auto split: if_splits)
  qed
qed

lemma position_append: "position p s = Some i \<Longrightarrow> position p (s @ r) = Some i"
proof (induction s arbitrary: i)
  case Nil
  then show ?case by (cases r) (auto split: if_splits)
next
  case (Cons x s)
  show ?case
  proof (cases "prefix p (x # s)")
    case True
    then show ?thesis using Cons.prems by (simp add: prefix_def) (metis append.assoc append_Cons)
  next
    case False
    then obtain j where j: "position p s = Some j" "i = Suc j" using Cons.prems by auto
    then have "length p \<le> length s" using position_less by fastforce
    then have "\<not> prefix p ((x # s) @ r)" using False unfolding prefix_append by auto
    then show ?thesis using Cons.IH [OF j(1)] j(2) by simp
  qed
qed

lemma parse_upgrade_full:
  assumes "upgrade_answer (expected_accept w) h" and "ws_incoming w = h @ r"
  shows "parse_upgrade w = (Inr True, w\<lparr>ws_incoming := r, upgraded := True\<rparr>)"
proof -
  let ?p = "str_bytes (crlf @ crlf)"
  have p: "position ?p h = Some (length h - 4)" "4 \<le> length h" using assms(1) by (auto simp: upgrade_answer_def)
  then have "position ?p (ws_incoming w) = Some (length h - 4)" using position_append assms(2) by simp
  moreover have "take (length h - 4 + 4) (ws_incoming w) = h" "drop (length h - 4 + 4) (ws_incoming w) = r" using p assms(2) by simp_all
  ultimately show ?thesis
    using assms(1) p by (auto simp: upgrade_answer_def parse_upgrade_def ws_new_def Let_def split: sum.splits if_splits)
qed

lemma parse_upgrade_part:
  assumes "upgrade_answer (expected_accept w) h" and "h = ws_incoming w @ q" and "q \<noteq> []"
  shows "parse_upgrade w = (Inr False, w)"
proof -
  let ?p = "str_bytes (crlf @ crlf)"
  have "position ?p (ws_incoming w) = None"
  proof (rule ccontr)
    assume "position ?p (ws_incoming w) \<noteq> None"
    then obtain i where i: "position ?p (ws_incoming w) = Some i" by auto
    then have "position ?p h = Some i" using position_append assms(2) by simp
    moreover have "i + 4 \<le> length (ws_incoming w)" using position_less [OF i] by (simp add: str_bytes_def crlf_def)
    ultimately show False using assms by (cases q) (auto simp: upgrade_answer_def)
  qed
  then show ?thesis by (simp add: parse_upgrade_def)
qed

lemma upgrade_loop_reading:
  assumes "ws_reading w (concat cs @ concat ds) out" and "eof_ok (cs @ ds)"
  shows "(\<exists>cs' w'. upgrade_loop cs w = (None, cs', w') \<and> upgraded w' \<and> ws_reading w' (concat cs' @ concat ds) out \<and> eof_ok (cs' @ ds))
    \<or> (\<exists>w'. upgrade_loop cs w = (Some Pending, [], w') \<and> ws_reading w' (concat ds) out \<and> eof_ok ds \<and> concat ds \<noteq> [])"
  using assms
proof (induction cs w rule: upgrade_loop.induct)
  case (1 cs w)
  show ?case
  proof (cases "upgraded w")
    case True
    then show ?thesis using 1(2,3) by (simp add: upgrade_loop.simps [of cs w])
  next
    case nu: False
    then obtain h fs part where h: "list_all data_frame fs" "ws_incoming w @ concat cs @ concat ds = h @ concat (map wire_bytes fs) @ part"
        "upgrade_answer (expected_accept w) h" "out = drop (payload_at w) (ws_payload w) @ frames_data fs"
      and w: "\<not> raw w" "\<not> ws_closed w" "payload_at w \<le> length (ws_payload w)" and torn: "server_frames.torn part"
      using 1(2) by (auto simp: ws_reading_def)
    let ?t = "concat (map wire_bytes fs) @ part"
    from h(2) obtain us where us: "ws_incoming w = h @ us \<and> us @ concat cs @ concat ds = ?t \<or>
        ws_incoming w @ us = h \<and> concat cs @ concat ds = us @ ?t"
      unfolding append_eq_append_conv2 by blast
    show ?thesis
    proof (cases "length h \<le> length (ws_incoming w)")
      case True
      then obtain r where r: "ws_incoming w = h @ r" "r @ concat cs @ concat ds = ?t"
        using us by (cases "us = []") auto
      let ?w = "w\<lparr>ws_incoming := r, upgraded := True\<rparr>"
      have "upgrade_loop cs w = (None, cs, ?w)" using nu parse_upgrade_full [OF h(3) r(1)] by (simp add: upgrade_loop.simps [of cs w])
      moreover have "ws_reading ?w (concat cs @ concat ds) out" using w h(1,4) r(2) torn by (auto simp: ws_reading_def)
      ultimately show ?thesis using 1(3) by auto
    next
      case False
      then have part: "h = ws_incoming w @ us" "us \<noteq> []" and later: "concat cs @ concat ds = us @ ?t" using us by auto
      note pu = parse_upgrade_part [OF h(3) part]
      show ?thesis
      proof (cases rule: chunk_read_cases [of cs 2048])
        case c: 1
        then show ?thesis using nu pu 1(2,3) later part(2) by (simp add: upgrade_loop.simps [of "[]" w])
      next
        case (2 b cs')
        note e = eof_ok_read [OF 1(3) 2(1)]
        have "b \<noteq> []" using e(2) later part(2) 2(2) by (metis append_is_Nil_conv zero_less_numeral)
        let ?w = "w\<lparr>ws_incoming := ws_incoming w @ b\<rparr>"
        have rd: "ws_reading ?w (concat cs' @ concat ds) out" using 1(2) 2(2) nu by (simp add: ws_reading_def)
        have u: "upgrade_loop cs w = upgrade_loop cs' ?w" using nu pu 2(1) \<open>b \<noteq> []\<close> by (simp add: upgrade_loop.simps [of cs w])
        show ?thesis unfolding u
          by (rule 1(1) [OF nu pu [symmetric] refl refl 2(1) [symmetric] refl \<open>b \<noteq> []\<close> rd e(1)]) simp
      qed
    qed
  qed
qed

lemma deliver_payload_reading:
  assumes "ws_reading w later out" and "payload_at w < length (ws_payload w)" and "0 < n" and "deliver_payload n w = (p, w')"
  shows "\<exists>bs out'. p = Ready bs \<and> bs \<noteq> [] \<and> out = bs @ out' \<and> ws_reading w' later out'"
proof -
  let ?k = "min n (length (ws_payload w) - payload_at w)" and ?d = "drop (payload_at w) (ws_payload w)"
  have p: "p = Ready (take ?k ?d)" "w' = w\<lparr>payload_at := payload_at w + ?k\<rparr>" using assms(4) by (auto simp: deliver_payload_def Let_def)
  have "take ?k ?d \<noteq> []" using assms(2,3) by simp
  moreover have "\<exists>out'. out = take ?k ?d @ out' \<and> ws_reading w' later out'"
  proof -
    obtain h fs part where h: "list_all data_frame fs" "ws_incoming w @ later = h @ concat (map wire_bytes fs) @ part"
        "if upgraded w then h = [] else upgrade_answer (expected_accept w) h" "out = ?d @ frames_data fs"
      and torn: "server_frames.torn part"
      using assms(1) by (auto simp: ws_reading_def)
    have "?d = take ?k ?d @ drop (payload_at w + ?k) (ws_payload w)" by (metis append_take_drop_id drop_drop add.commute)
    then have "out = take ?k ?d @ drop (payload_at w + ?k) (ws_payload w) @ frames_data fs" using h(4) by (metis append.assoc)
    moreover have "ws_reading w' later (drop (payload_at w + ?k) (ws_payload w) @ frames_data fs)"
      unfolding ws_reading_def p(2) using assms(1,2) h(1-3) torn
      by (intro conjI exI [of _ h] exI [of _ fs] exI [of _ part]) (auto simp: ws_reading_def)
    ultimately show ?thesis by blast
  qed
  ultimately show ?thesis using p(1) by blast
qed

text \<open>What a read of the stream of data frames may answer.\<close>

definition ws_result :: "bytes list \<Rightarrow> bytes \<Rightarrow> bytes poll \<times> bytes list \<times> ws \<Rightarrow> bool" where
  "ws_result ds out r \<longleftrightarrow>
     (case r of (p, cs, w) \<Rightarrow> \<exists>out'. ws_reading w (concat cs @ concat ds) out' \<and> eof_ok (cs @ ds) \<and>
        (case p of
           Pending \<Rightarrow> cs = [] \<and> out' = out \<and> (concat ds = [] \<longrightarrow> out = [])
         | Failed e \<Rightarrow> False
         | Ready bs \<Rightarrow> out = bs @ out' \<and> (bs = [] \<longrightarrow> out' = [])))"

lemma frame_loop_reading:
  assumes "ws_reading w (concat cs @ concat ds) out" and "upgraded w" and "eof_ok (cs @ ds)" and "0 < n" and "payload_at w = length (ws_payload w)"
  shows "ws_result ds out (frame_loop masks n cs w)"
  using assms
proof (induction masks n cs w rule: frame_loop.induct)
  case (1 masks n cs w)
  obtain fs part where fs: "list_all data_frame fs" "ws_incoming w @ concat cs @ concat ds = concat (map wire_bytes fs) @ part" "out = frames_data fs"
    and w: "\<not> raw w" "\<not> ws_closed w" and torn: "server_frames.torn part"
    using 1(2,3,6) by (auto simp: ws_reading_def)
  have nil: "split_frame [] = Incomplete" by (simp add: split_frame_def)
  show ?case
  proof (cases rule: server_frames.parse_buffer [OF data_frame_ok [OF fs(1)] fs(2) torn nil])
    case a: 1
    then have pf: "parse_frame m w = (Inr False, w)" for m by (simp add: parse_frame_def)
    have fin: "out = []" if "concat cs = []" "concat ds = []"
      using server_frames.incomplete_done [OF _ a(2), of part] fs(2,3) that by (simp add: frames_data_def)
    show ?thesis
    proof (cases rule: chunk_read_cases [of cs 8192])
      case c: 1
      then have "frame_loop masks n cs w = (Pending, [], w)" using w pf by (simp add: frame_loop.simps [of masks n "[]" w])
      then show ?thesis using 1(2,4) c(1) fin by (simp add: ws_result_def)
    next
      case (2 b cs')
      note e = eof_ok_read [OF 1(4) 2(1)]
      show ?thesis
      proof (cases "b = []")
        case True
        then have nil: "concat cs' = []" "concat ds = []" "concat cs = []" using e(2) 2(2) by (metis append_is_Nil_conv zero_less_numeral)+
        then have "out = []" using fin by blast
        moreover have "frame_loop masks n cs w = (Ready [], cs', w)" using w pf 2(1) True by (simp add: frame_loop.simps [of masks n cs w])
        moreover have "ws_reading w (concat cs' @ concat ds) []" using 1(2) \<open>out = []\<close> nil by metis
        ultimately show ?thesis using e(1) by (simp add: ws_result_def)
      next
        case False
        let ?w = "w\<lparr>ws_incoming := ws_incoming w @ b\<rparr>"
        have rd: "ws_reading ?w (concat cs' @ concat ds) out" using 1(2,3) 2(2) by (simp add: ws_reading_def)
        have u: "frame_loop masks n cs w = frame_loop masks n cs' ?w" using w pf 2(1) False by (simp add: frame_loop.simps [of masks n cs w])
        show ?thesis unfolding u
          by (rule 1(1) [OF w(2) pf [symmetric] refl _ 2(1) [symmetric] refl False rd]) (use e(1) 1(3,5,6) in simp_all)
      qed
    qed
  next
    case (2 f fs' rest)
    then have f: "data_frame f" "list_all data_frame fs'" using fs(1) by simp_all
    let ?w = "w\<lparr>ws_incoming := rest, ws_payload := snd (wire_msg f), payload_at := 0\<rparr>"
    have pf: "parse_frame m w = (Inr True, ?w)" for m
      using 2(2) f(1) by (cases "wire_msg f") (auto simp: parse_frame_def data_frame_def)
    have rd: "ws_reading ?w (concat cs @ concat ds) out"
      using w 1(3) f(2) 2(1,4) fs(3) torn by (auto simp: ws_reading_def frames_data_def)
    obtain p w' where d: "deliver_payload n ?w = (p, w')" by fastforce
    have ne: "payload_at ?w < length (ws_payload ?w)" using f(1) by (simp add: data_frame_def)
    have "frame_loop masks n cs w = (p, cs, w')" using w pf ne d by (simp add: frame_loop.simps [of masks n cs w])
    then show ?thesis using deliver_payload_reading [OF rd ne 1(5) d] 1(4) by (auto simp: ws_result_def)
  qed
qed

lemma ws_read_reading:
  assumes "ws_reading w (concat cs @ concat ds) out" and "eof_ok (cs @ ds)" and "0 < n"
  shows "ws_result ds out (ws_read masks n cs w)"
  using upgrade_loop_reading [OF assms(1,2)]
proof (elim disjE exE conjE)
  fix cs' w'
  assume u: "upgrade_loop cs w = (None, cs', w')" "upgraded w'" and r: "ws_reading w' (concat cs' @ concat ds) out" and e: "eof_ok (cs' @ ds)"
  have w: "\<not> raw w'" "payload_at w' \<le> length (ws_payload w')" using r by (auto simp: ws_reading_def)
  show ?thesis
  proof (cases "payload_at w' < length (ws_payload w')")
    case True
    obtain p v where d: "deliver_payload n w' = (p, v)" by fastforce
    have "ws_read masks n cs w = (p, cs', v)" using u(1) w(1) True d by (simp add: ws_read_def)
    then show ?thesis using deliver_payload_reading [OF r True assms(3) d] e by (auto simp: ws_result_def)
  next
    case False
    then have "ws_read masks n cs w = frame_loop masks n cs' w'" using u(1) w by (simp add: ws_read_def)
    then show ?thesis using frame_loop_reading [OF r u(2) e assms(3)] w(2) False by simp
  qed
next
  fix w'
  assume "upgrade_loop cs w = (Some Pending, [], w')" and "ws_reading w' (concat ds) out" and "eof_ok ds" and "concat ds \<noteq> []"
  then show ?thesis by (auto simp: ws_read_def ws_result_def)
qed

text \<open>Reads one after another; before each of them some more pieces may have arrived.\<close>

fun ws_run :: "(bytes \<Rightarrow> bytes) \<Rightarrow> (nat \<times> bytes list) list \<Rightarrow> bytes list \<Rightarrow> ws \<Rightarrow> bytes poll list \<times> bytes list \<times> ws" where
  "ws_run masks [] cs w = ([], cs, w)"
| "ws_run masks ((n, as) # ps) cs w =
     (let (p, cs, w) = ws_read masks n (cs @ as) w; (rs, cs, w) = ws_run masks ps cs w in (p # rs, cs, w))"

lemma ws_run_reading:
  assumes "ws_reading w (concat cs @ concat (concat (map snd ps))) out" and "eof_ok (cs @ concat (map snd ps))"
    and "list_all (\<lambda>(n, _). 0 < n) ps" and "ws_run masks ps cs w = (rs, cs', w')"
  shows "\<exists>out'. ws_reading w' (concat cs') out' \<and> out = concat (map poll_bytes rs) @ out' \<and> (Ready [] \<in> set rs \<longrightarrow> out' = []) \<and>
    (\<forall>e. Failed e \<notin> set rs) \<and> (rs \<noteq> [] \<and> last rs = Pending \<longrightarrow> cs' = [] \<and> out' = [])"
  using assms
proof (induction ps arbitrary: cs w out rs)
  case Nil
  then show ?case by auto
next
  case (Cons q ps)
  obtain n as where q: "q = (n, as)" by fastforce
  obtain p cs1 w1 where 1: "ws_read masks n (cs @ as) w = (p, cs1, w1)" by (metis prod_cases3)
  obtain rs2 where 2: "ws_run masks ps cs1 w1 = (rs2, cs', w')" "rs = p # rs2" using Cons.prems(4) q 1 by (auto split: prod.splits)
  let ?ds = "concat (map snd ps)"
  have "ws_result ?ds out (p, cs1, w1)"
    using ws_read_reading [of w "cs @ as" ?ds out n masks] Cons.prems(1-3) q 1 by simp
  then obtain out1 where o1: "ws_reading w1 (concat cs1 @ concat ?ds) out1" "eof_ok (cs1 @ ?ds)" "out = poll_bytes p @ out1"
      "p = Ready [] \<longrightarrow> out1 = []" "\<forall>e. p \<noteq> Failed e" "p = Pending \<longrightarrow> cs1 = [] \<and> (concat ?ds = [] \<longrightarrow> out1 = [])"
    by (cases p) (auto simp: ws_result_def simp del: concat_eq_Nil_conv)
  obtain out2 where o2: "ws_reading w' (concat cs') out2" "out1 = concat (map poll_bytes rs2) @ out2" "Ready [] \<in> set rs2 \<longrightarrow> out2 = []"
      "\<forall>e. Failed e \<notin> set rs2" "rs2 \<noteq> [] \<and> last rs2 = Pending \<longrightarrow> cs' = [] \<and> out2 = []"
    using Cons.IH [OF o1(1,2) _ 2(1)] Cons.prems(3) by auto
  have "rs \<noteq> [] \<and> last rs = Pending \<longrightarrow> cs' = [] \<and> out2 = []"
  proof (cases "rs2 = []")
    case True
    then have "ps = []" using 2(1) by (cases ps) (auto split: prod.splits)
    then show ?thesis using 2 o1(6) o2(2) True by auto
  qed (use o2(5) 2(2) in simp)
  then show ?case using o1 o2 2(2) by (intro exI [of _ out2]) auto
qed

lemma ws_new_reading:
  assumes "upgrade_answer accept h" and "list_all data_frame fs" and "server_frames.torn part"
  shows "ws_reading (ws_new False accept) (h @ concat (map wire_bytes fs) @ part) (frames_data fs)"
  using assms by (auto simp: ws_reading_def ws_new_def)

text \<open>C9: A server that accepts the upgrade and then sends data frames is read correctly, however the bytes are cut into
  pieces and whenever they arrive; the last frame may still be incomplete. The reads deliver the data of the frames,
  masked or not and of any of the three length formats, in order. They never fail, and an answer without data reports
  the end only after all the data, so that every other answer that is ready makes progress. A read waits only when
  every piece that has arrived is used up and the data of every complete frame has been delivered. The frames are
  nonempty and no control frame is among them.\<close>

theorem ws_delivers_data:
  assumes "upgrade_answer accept h" and "list_all data_frame fs"
    and "concat (concat (map snd ps)) = h @ concat (map wire_bytes fs) @ part"
    and "part = [] \<or> (\<exists>f. data_frame f \<and> strict_prefix part (wire_bytes f))" and "eof_ok (concat (map snd ps))"
    and "list_all (\<lambda>(n, _). 0 < n) ps" and "ws_run masks ps [] (ws_new False accept) = (rs, cs, w)"
  shows "\<exists>later. frames_data fs = concat (map poll_bytes rs) @ later \<and> (Ready [] \<in> set rs \<longrightarrow> later = []) \<and>
    (\<forall>e. Failed e \<notin> set rs) \<and> (rs \<noteq> [] \<and> last rs = Pending \<longrightarrow> cs = [] \<and> later = [])"
proof -
  have "server_frames.torn part" using assms(4) by (auto simp: server_frames.torn_def data_frame_def)
  then have "ws_reading (ws_new False accept) (concat [] @ concat (concat (map snd ps))) (frames_data fs)"
    using ws_new_reading [OF assms(1,2)] assms(3) by simp
  from ws_run_reading [OF this _ assms(6,7)] assms(5) show ?thesis by auto
qed

definition example_answer :: bytes where
  "example_answer = str_bytes (''HTTP/1.1 101 OK'' @ crlf @ ''Sec-WebSocket-Accept: key'' @ crlf @ crlf)"

lemma example_answer_ok: "upgrade_answer (Some ''key'') example_answer"
  by code_simp

theorem ws_delivers_data_witness:
  "\<exists>rs cs w later. ws_run (\<lambda>_. [1, 2, 3, 4]) [(4, [example_answer @ [0x82]]), (4, [[1, 5], [0x82, 2, 6]]), (4, [])] []
      (ws_new False (Some ''key'')) = (rs, cs, w)
    \<and> frames_data [(0x82, [5], None)] = concat (map poll_bytes rs) @ later \<and> (\<forall>e. Failed e \<notin> set rs)"
proof -
  let ?ps = "[(4, [example_answer @ [0x82]]), (4, [[1, 5], [0x82, 2, 6]]), (4, [])] :: (nat \<times> bytes list) list"
  obtain rs cs w where r: "ws_run (\<lambda>_. [1, 2, 3, 4]) ?ps [] (ws_new False (Some ''key'')) = (rs, cs, w)" by (metis prod_cases3)
  have f: "list_all data_frame [(0x82, [5], None)]" by (simp add: data_frame_def)
  have wire: "wire_bytes (0x82, [5], None) = [0x82, 1, 5]" "wire_bytes (0x82, [6, 7], None) = [0x82, 2, 6, 7]"
    by (simp_all add: length_code_def length_ext_def mask_bit_def mask_key_def mask_data_def)
  have c: "concat (concat (map snd ?ps)) = example_answer @ concat (map wire_bytes [(0x82, [5], None)]) @ [0x82, 2, 6]"
    by (simp add: wire del: wire_bytes.simps)
  have "data_frame (0x82, [6, 7], None) \<and> strict_prefix [0x82, 2, 6] (wire_bytes (0x82, [6, 7], None))"
    unfolding wire by (simp add: data_frame_def)
  then have p: "[0x82, 2, 6] = [] \<or> (\<exists>f. data_frame f \<and> strict_prefix [0x82, 2, 6] (wire_bytes f))" by blast
  have "eof_ok (concat (map snd ?ps))" "list_all (\<lambda>(n, _). 0 < n) ?ps" by (simp_all add: example_answer_def str_bytes_def)
  from ws_delivers_data [OF example_answer_ok f c p this r] show ?thesis using r by auto
qed

section \<open>Control frames\<close>

definition ws_open :: "str option \<Rightarrow> ws" where
  "ws_open accept = (ws_new False accept)\<lparr>upgraded := True\<rparr>"

lemma ws_open_read: "ws_read masks n cs (ws_open accept) = frame_loop masks n cs (ws_open accept)"
  by (simp add: ws_read_def upgrade_loop.simps [of cs] ws_open_def ws_new_def)

lemma ws_open_first:
  assumes "b \<noteq> []" and "length b \<le> 8192"
  shows "ws_read masks n (b # cs) (ws_open accept) = frame_loop masks n cs ((ws_open accept)\<lparr>ws_incoming := b\<rparr>)"
proof -
  have "parse_frame m (ws_open accept) = (Inr False, ws_open accept)" for m
    by (simp add: parse_frame_def ws_open_def ws_new_def split_frame_def)
  moreover have "chunk_read 8192 (b # cs) = (Ready b, cs)" using assms(2) by (simp add: chunk_read_def)
  moreover have "\<not> ws_closed (ws_open accept)" "ws_incoming (ws_open accept) = []" by (simp_all add: ws_open_def ws_new_def)
  ultimately show ?thesis
    using assms(1) by (simp add: ws_open_read frame_loop.simps [of masks n "b # cs" "ws_open accept"])
qed

text \<open>C38: A control frame that arrives in one piece with a data frame hides the data. After a ping the read asks the
  socket for more bytes before it looks at the buffer again: it waits although a complete data frame is buffered,
  and when the server has closed the stream it reports the end, so that the data is lost.\<close>

theorem ws_ping_hides_data:
  assumes "data_frame f" and "wire_ok (0x89, d, None)" and "length (wire_bytes (0x89, d, None) @ wire_bytes f) \<le> 8192"
  shows "(\<exists>v. ws_read masks n [wire_bytes (0x89, d, None) @ wire_bytes f] (ws_open accept) = (Pending, [], v) \<and> ws_incoming v = wire_bytes f)
    \<and> (\<exists>v. ws_read masks n [wire_bytes (0x89, d, None) @ wire_bytes f, []] (ws_open accept) = (Ready [], [], v) \<and> ws_incoming v = wire_bytes f)"
proof -
  let ?b = "wire_bytes (0x89, d, None) @ wire_bytes f" and ?w = "ws_open accept"
  have p: "parse_frame m (?w\<lparr>ws_incoming := ?b\<rparr>) = (Inr True, ?w\<lparr>ws_incoming := wire_bytes f, outgoing := ws_frame m d 10\<rparr>)" for m
    using split_frame_wire [OF assms(2), of "wire_bytes f"] by (simp add: parse_frame_def ws_open_def ws_new_def)
  have w: "\<not> ws_closed ?w" "ws_payload ?w = []" by (simp_all add: ws_open_def ws_new_def)
  have e: "ws_read masks n (?b # cs) ?w = frame_loop masks n cs (?w\<lparr>ws_incoming := ?b\<rparr>)" for cs
    by (rule ws_open_first) (use assms(3) in simp_all)
  let ?v = "?w\<lparr>ws_incoming := wire_bytes f, outgoing := ws_frame (masks ?b) d 10\<rparr>"
  have "frame_loop masks n [] (?w\<lparr>ws_incoming := ?b\<rparr>) = (Pending, [], ?v)"
    using w p [of "masks ?b"] by (simp add: frame_loop.simps [of masks n "[]" "?w\<lparr>ws_incoming := ?b\<rparr>"] chunk_read_def del: wire_bytes.simps)
  moreover have "frame_loop masks n [[]] (?w\<lparr>ws_incoming := ?b\<rparr>) = (Ready [], [], ?v)"
    using w p [of "masks ?b"] by (simp add: frame_loop.simps [of masks n "[[]]" "?w\<lparr>ws_incoming := ?b\<rparr>"] chunk_read_def del: wire_bytes.simps)
  ultimately show ?thesis by (simp add: e del: wire_bytes.simps)
qed

theorem ws_ping_hides_data_witness:
  "data_frame (0x82, [5], None) \<and>
   (\<exists>v. ws_read (\<lambda>_. [1, 2, 3, 4]) 9 [[0x89, 0, 0x82, 1, 5]] (ws_open None) = (Pending, [], v) \<and> ws_incoming v = [0x82, 1, 5]) \<and>
   (\<exists>v. ws_read (\<lambda>_. [1, 2, 3, 4]) 9 [[0x89, 0, 0x82, 1, 5], []] (ws_open None) = (Ready [], [], v) \<and> ws_incoming v = [0x82, 1, 5])"
proof -
  have b: "wire_bytes (0x89, [], None) = [0x89, 0]" "wire_bytes (0x82, [5], None) = [0x82, 1, 5]"
    by (simp_all add: length_code_def length_ext_def mask_bit_def mask_key_def mask_data_def)
  have d: "data_frame (0x82, [5], None)" by (simp add: data_frame_def)
  then show ?thesis
    using ws_ping_hides_data [of "(0x82, [5], None)" "[]" "\<lambda>_. [1, 2, 3, 4]" 9 None] unfolding b by simp
qed

text \<open>C39: A length that wraps makes the client panic. Whatever the first byte of a frame and the bytes after its
  header are, a 64-bit length of at least \<open>2 ^ 64 - 10\<close> takes the end of the frame below its start: the
  test that the frame is complete passes, and slicing the buffer panics.\<close>

theorem ws_length_panics:
  assumes "length ext = 8" and "2 ^ 64 - 10 \<le> be_val ext" and "length r \<le> 8182"
  shows "ws_read masks n [b # 127 # ext @ r] (ws_open accept) =
     (Failed ''panicked: slice index starts after its end'', [], (ws_open accept)\<lparr>ws_incoming := b # 127 # ext @ r\<rparr>)"
proof -
  let ?b = "b # 127 # ext @ r :: bytes"
  have less: "be_val ext < 2 ^ 64" using be_val_less [of ext] assms(1) by simp
  then have "size_add 10 (be_val ext) = 10 + be_val ext - 2 ^ 64" using assms(2) by (simp add: size_add_def mod_if)
  then have "size_add 10 (be_val ext) < 10" using less by linarith
  then have "split_frame ?b = Malformed ''panicked: slice index starts after its end''"
    using assms(1) by (simp add: split_frame_def frame_sizes_def frame_data_def Let_def)
  then have "parse_frame m ((ws_open accept)\<lparr>ws_incoming := ?b\<rparr>) =
      (Inl ''panicked: slice index starts after its end'', (ws_open accept)\<lparr>ws_incoming := ?b\<rparr>)" for m
    by (simp add: parse_frame_def)
  then show ?thesis
    using ws_open_first [of ?b masks n "[]" accept] assms(1,3)
    by (simp add: frame_loop.simps [of masks n "[]"] ws_open_def ws_new_def)
qed

theorem ws_length_panics_witness:
  "fst (ws_read (\<lambda>_. [1, 2, 3, 4]) 9 [[0x82, 127, 255, 255, 255, 255, 255, 255, 255, 255]] (ws_open None)) =
     Failed ''panicked: slice index starts after its end''"
  using ws_length_panics [of "[255, 255, 255, 255, 255, 255, 255, 255]" "[]" "\<lambda>_. [1, 2, 3, 4]" 9 "0x82" None]
  by (simp add: be_val_def)

section \<open>Writing frames\<close>

text \<open>What the socket has taken and what is buffered are frames of the data that the writes accepted.\<close>

fun client_frame :: "wire \<Rightarrow> bool" where
  "client_frame (b, d, m) \<longleftrightarrow> b = 0x82 \<and> length d \<le> 16384 \<and> (\<exists>k. m = Some k \<and> length k = 4)"

definition ws_written :: "ws \<Rightarrow> bytes \<Rightarrow> bool" where
  "ws_written w acc \<longleftrightarrow> \<not> raw w \<and>
     (\<exists>fs. list_all client_frame fs \<and>
        ws_sent w @ drop (outgoing_at w) (outgoing w) = concat (map wire_bytes fs) \<and> acc = frames_data fs)"

lemma outgoing_loop_written:
  "ws_written w acc \<Longrightarrow> outgoing_loop ks w = (p, w') \<Longrightarrow>
   ws_written w' acc \<and> (p = Ready () \<longrightarrow> drop (outgoing_at w') (outgoing w') = [])"
proof (induction ks w rule: outgoing_loop.induct)
  case (1 w)
  then show ?case by (auto split: if_splits)
next
  case (2 k ks w)
  let ?n = "min k (length (outgoing w) - outgoing_at w)"
  let ?w = "w\<lparr>outgoing_at := outgoing_at w + ?n, ws_sent := ws_sent w @ take ?n (drop (outgoing_at w) (outgoing w))\<rparr>"
  show ?case
  proof (cases "outgoing_at w < length (outgoing w) \<and> ?n \<noteq> 0")
    case False
    then show ?thesis using 2(2,3) by (auto simp: Let_def split: if_splits)
  next
    case True
    then have e: "outgoing_loop ks ?w = (p, w')" using 2(3) unfolding outgoing_loop.simps Let_def by (simp only: simp_thms if_True if_False)
    have "take ?n (drop (outgoing_at w) (outgoing w)) @ drop (outgoing_at w + ?n) (outgoing w) = drop (outgoing_at w) (outgoing w)"
      by (metis append_take_drop_id drop_drop add.commute)
    then have "ws_written ?w acc" using 2(2) unfolding ws_written_def by simp
    then show ?thesis using 2(1) [OF _ refl _ _ e] True by auto
  qed
qed

lemma flush_outgoing_written:
  assumes "ws_written w acc" and "flush_outgoing ks flushed w = (p, w')"
  shows "ws_written w' acc \<and> (p = Ready () \<longrightarrow> outgoing w' = [] \<and> outgoing_at w' = 0)"
proof -
  obtain q v where o: "outgoing_loop ks w = (q, v)" by fastforce
  note l = outgoing_loop_written [OF assms(1) o]
  show ?thesis
  proof (cases "q = Ready ()")
    case True
    then have "w' = v\<lparr>outgoing := [], outgoing_at := 0\<rparr>" using assms(2) o by (auto simp: flush_outgoing_def)
    then show ?thesis using l True unfolding ws_written_def by auto
  next
    case False
    then show ?thesis using assms(2) o l by (cases q) (auto simp: flush_outgoing_def)
  qed
qed

lemma ws_write_written:
  assumes "ws_written w acc" and "length mk = 4" and "ws_write ks flushed taken mk bs w = (p, w')"
  shows "ws_written w' (acc @ (case p of Ready n \<Rightarrow> take n bs | _ \<Rightarrow> []))"
proof -
  obtain q v where f: "flush_outgoing ks flushed w = (q, v)" by fastforce
  note l = flush_outgoing_written [OF assms(1) f]
  show ?thesis
  proof (cases "q = Ready ()")
    case False
    then show ?thesis using assms(3) f l by (cases q) (auto simp: ws_write_def)
  next
    case True
    let ?n = "min (length bs) (16 * 1024)" and ?g = "(0x82, take (min (length bs) (16 * 1024)) bs, Some mk) :: wire"
    have v: "ws_written v acc" "outgoing v = []" "\<not> raw v" using l True by (auto simp: ws_written_def)
    have w': "w' = v\<lparr>outgoing := wire_bytes ?g\<rparr>" "p = Ready ?n"
      using assms(3) f True v(3) by (auto simp: ws_write_def Let_def ws_frame_wire)
    obtain fs where fs: "list_all client_frame fs" "ws_sent v = concat (map wire_bytes fs)" "acc = frames_data fs"
      using v by (auto simp: ws_written_def)
    have "client_frame ?g" "wire_msg ?g = (2, take ?n bs)" using assms(2) by simp_all
    then have "ws_written w' (acc @ take ?n bs)"
      unfolding ws_written_def w'(1) using v(3) fs l True
      by (intro conjI exI [of _ "fs @ [?g]"]) (simp_all add: frames_data_def del: wire_bytes.simps wire_msg.simps client_frame.simps)
    then show ?thesis by (simp add: w'(2))
  qed
qed

datatype ws_op = WsWrite "nat list" bool "nat option" bytes bytes | WsFlush "nat list" bool | WsShutdown "nat list" bool bool

fun ws_writes :: "ws_op list \<Rightarrow> ws \<Rightarrow> ws \<times> bytes" where
  "ws_writes [] w = (w, [])"
| "ws_writes (WsWrite ks flushed taken mk bs # ops) w =
     (let (p, w) = ws_write ks flushed taken mk bs w; (w, acc) = ws_writes ops w
      in (w, (case p of Ready n \<Rightarrow> take n bs | _ \<Rightarrow> []) @ acc))"
| "ws_writes (WsFlush ks flushed # ops) w = ws_writes ops (snd (flush_outgoing ks flushed w))"
| "ws_writes (WsShutdown ks flushed closed # ops) w = ws_writes ops (snd (ws_shutdown ks flushed closed w))"

fun op_masked :: "ws_op \<Rightarrow> bool" where
  "op_masked (WsWrite _ _ _ mk _) = (length mk = 4)"
| "op_masked _ = True"

lemma ws_writes_written:
  "ws_written w acc \<Longrightarrow> list_all op_masked ops \<Longrightarrow> ws_writes ops w = (w', acc') \<Longrightarrow> ws_written w' (acc @ acc')"
proof (induction ops w arbitrary: acc acc' rule: ws_writes.induct)
  case (2 ks flushed taken mk bs ops w)
  obtain p v where 1: "ws_write ks flushed taken mk bs w = (p, v)" by fastforce
  obtain a2 where 3: "ws_writes ops v = (w', a2)" "acc' = (case p of Ready n \<Rightarrow> take n bs | _ \<Rightarrow> []) @ a2"
    using 2(4) 1 by (auto split: prod.splits)
  have "ws_written v (acc @ (case p of Ready n \<Rightarrow> take n bs | _ \<Rightarrow> []))" using ws_write_written [OF 2(2) _ 1] 2(3) by simp
  from 2(1) [OF 1 [symmetric] refl this _ 3(1)] show ?case using 2(3) 3(2) by simp
next
  case (3 ks flushed ops w)
  then show ?case using flush_outgoing_written [OF 3(2), of ks flushed] by (cases "flush_outgoing ks flushed w") auto
next
  case (4 ks flushed closed ops w)
  obtain p v where f: "flush_outgoing ks flushed w = (p, v)" by fastforce
  have "ws_written v acc" using flush_outgoing_written [OF 4(2) f] by simp
  moreover have "snd (ws_shutdown ks flushed closed w) = v" using f by (auto simp: ws_shutdown_def split: poll.splits)
  ultimately show ?case using 4 by auto
qed simp

text \<open>C13: Whatever writes, flushes and shutdowns a client makes and however many bytes the socket takes at a time, once the buffer
  is empty the socket has taken a sequence of masked data frames of at most 16384 bytes, and their data is exactly
  what the writes accepted, in order. The frame parser reads each of them back.\<close>

theorem ws_writes_frames:
  assumes "list_all op_masked ops" and "ws_writes ops (ws_new False accept) = (w, accepted)" and "outgoing w = []"
  shows "\<exists>fs. ws_sent w = concat (map wire_bytes fs) \<and> list_all client_frame fs \<and> accepted = frames_data fs \<and>
    list_all (\<lambda>f. \<forall>r. split_frame (wire_bytes f @ r) = Message (2, snd (wire_msg f)) r) fs"
proof -
  have "ws_written (ws_new False accept) []"
    unfolding ws_written_def by (intro conjI exI [of _ "[]"]) (simp_all add: ws_new_def frames_data_def)
  from ws_writes_written [OF this assms(1,2)] obtain fs
    where fs: "list_all client_frame fs" "ws_sent w = concat (map wire_bytes fs)" "accepted = frames_data fs"
    using assms(3) by (auto simp: ws_written_def)
  have "split_frame (wire_bytes f @ r) = Message (2, snd (wire_msg f)) r" if "client_frame f" for f r
  proof -
    have "wire_ok f" "fst (wire_msg f) = 2" using that by (cases f; auto)+
    then show ?thesis using split_frame_wire [of f r] by (metis prod.collapse)
  qed
  then show ?thesis using fs by (intro exI [of _ fs]) (auto simp: list_all_iff)
qed

theorem ws_writes_frames_witness:
  "\<exists>w fs. ws_writes [WsWrite [] True None [1, 2, 3, 4] [7, 8], WsFlush [3, 9] True] (ws_new False None) = (w, [7, 8])
    \<and> ws_sent w = concat (map wire_bytes fs) \<and> list_all client_frame fs \<and> [7, 8] = frames_data fs"
proof -
  let ?ops = "[WsWrite [] True None [1, 2, 3, 4] [7, 8], WsFlush [3, 9] True]"
  obtain w where w: "ws_writes ?ops (ws_new False None) = (w, [7, 8])" "outgoing w = []"
    by (simp add: ws_new_def ws_write_def flush_outgoing_def ws_frame_def mask_bytes_def)
  have "list_all op_masked ?ops" by simp
  from ws_writes_frames [OF this w] show ?thesis using w(1) by blast
qed

section \<open>Waiting for the upgrade\<close>

lemma append_covers:
  assumes "b @ z = h @ r"
  shows "length h \<le> length b \<Longrightarrow> \<exists>q. b = h @ q \<and> q @ z = r" and "length b < length h \<Longrightarrow> \<exists>q. h = b @ q \<and> q \<noteq> []"
  using assms by (auto simp: append_eq_append_conv2)

text \<open>A connection that waits for the upgrade gets it when the answer fits the limit, and keeps what follows it.\<close>

lemma read_upgrade_accepts:
  assumes "upgrade_answer (expected_accept w) h" and "ws_incoming w @ concat cs = h @ rest" and "\<not> upgraded w"
    and "length h \<le> 32 * 1024" and "length (ws_incoming w) < length h" and "[] \<notin> set cs"
  shows "\<exists>cs' w'. read_upgrade cs w = (Ready (), cs', w') \<and> upgraded w' \<and> ws_incoming w' @ concat cs' = rest"
  using assms
proof (induction cs w rule: read_upgrade.induct)
  case (1 cs w)
  have small: "\<not> 32 * 1024 \<le> length (ws_incoming w)" using 1(5,6) by linarith
  obtain c es where cs: "cs = c # es" "c \<noteq> []" using 1(3,6,7) by (cases cs) auto
  let ?d = "take 2048 c" and ?cs = "if 2048 < length c then drop 2048 c # es else es"
  let ?w = "w\<lparr>ws_incoming := ws_incoming w @ take 2048 c\<rparr>"
  have r: "chunk_read 2048 cs = (Ready ?d, ?cs)" by (simp add: chunk_read_def cs(1))
  have d: "?d \<noteq> []" "[] \<notin> set ?cs" using cs 1(7) by auto
  have "?d @ concat ?cs = concat cs" using cs(1) by simp
  then have all: "(ws_incoming w @ ?d) @ concat ?cs = h @ rest" using 1(3) by (metis append.assoc)
  have step: "read_upgrade cs w = (case parse_upgrade ?w of (Inl e, w) \<Rightarrow> (Failed e, ?cs, w) | (Inr _, w) \<Rightarrow> read_upgrade ?cs w)"
    using 1(4) small r d(1) by (subst read_upgrade.simps) (simp split: prod.split sum.split)
  show ?case
  proof (cases "length h \<le> length (ws_incoming w @ ?d)")
    case True
    then obtain q where q: "ws_incoming w @ ?d = h @ q" "q @ concat ?cs = rest" using append_covers(1) [OF all] by blast
    have "parse_upgrade ?w = (Inr True, ?w\<lparr>ws_incoming := q, upgraded := True\<rparr>)"
      using parse_upgrade_full [of ?w h q] 1(2) q(1) by simp
    then show ?thesis using step q(2) by (subst step) (simp add: read_upgrade.simps [of _ "_\<lparr>upgraded := True\<rparr>"])
  next
    case False
    then obtain q where q: "h = (ws_incoming w @ ?d) @ q" "q \<noteq> []" using append_covers(2) [OF all] by fastforce
    have p: "parse_upgrade ?w = (Inr False, ?w)" using parse_upgrade_part [of ?w h q] 1(2) q by simp
    have "\<exists>cs' w'. read_upgrade ?cs ?w = (Ready (), cs', w') \<and> upgraded w' \<and> ws_incoming w' @ concat cs' = rest"
      by (rule 1(1) [OF 1(4) small r [symmetric] refl d(1) p [symmetric] refl])
        (use 1(2,4,5) all False d(2) in simp_all)
    then show ?thesis using step p by simp
  qed
qed

end
