(* ===== verification/Wire.thy ===== *)
theory Wire
  imports Text
begin

text \<open>
  The variable-length integers of \<^verbatim>\<open>crates/protocol/src/wire.rs\<close>: the two high bits of the first byte
  give the length. A byte stream is the list of the bytes that are still to be read.
\<close>

unbundle bit_operations_syntax

section \<open>Definitions\<close>

definition put_varint :: "u64 \<Rightarrow> bytes \<Rightarrow> bytes result" where
  "put_varint value out =
     and_then (ensure (value < 2 ^ 62) ''QUIC varint overflow'') (\<lambda>_.
       Inr (out @
         (if value < 64 then [ucast value]
          else if value < 16384 then be_bytes 2 (unat (ucast value OR (0x4000 :: u16)))
          else if value < 2 ^ 30 then be_bytes 4 (unat (ucast value OR (0x80000000 :: u32)))
          else be_bytes 8 (unat (value OR 0xc000000000000000)))))"

definition take_varint :: "bytes \<Rightarrow> u64 result \<times> bytes" where
  "take_varint s =
     (if s = [] then (Inl ''truncated varint'', s)
      else
        let size = 2 ^ unat (drop_bit 6 (hd s))
        in if length s < size then (Inl ''truncated varint'', s)
           else (Inr (foldl (\<lambda>n b. push_bit 8 n OR ucast b) (ucast (hd s AND 0x3f)) (take (size - 1) (tl s))), drop size s))"

text \<open>Reading from a stream: a byte at a time, with what is left of the stream when it ends early.\<close>

fun read_u8 :: "bytes \<Rightarrow> u8 result \<times> bytes" where
  "read_u8 [] = (Inl ''unexpected end of file'', [])"
| "read_u8 (b # s) = (Inr b, s)"

fun varint_loop :: "nat \<Rightarrow> u64 \<Rightarrow> bytes \<Rightarrow> u64 result \<times> bytes" where
  "varint_loop 0 value s = (Inr value, s)"
| "varint_loop (Suc n) value s =
     (case read_u8 s of
        (Inl e, s) \<Rightarrow> (Inl e, s)
      | (Inr b, s) \<Rightarrow> varint_loop n (push_bit 8 value OR ucast b) s)"

definition read_varint :: "bytes \<Rightarrow> u64 result \<times> bytes" where
  "read_varint s =
     (case read_u8 s of
        (Inl e, s) \<Rightarrow> (Inl e, s)
      | (Inr b, s) \<Rightarrow> varint_loop (2 ^ unat (drop_bit 6 b) - 1) (ucast (b AND 0x3f)) s)"

definition read_exact :: "nat \<Rightarrow> bytes \<Rightarrow> bytes result \<times> bytes" where
  "read_exact n s = (if length s < n then (Inl ''unexpected end of file'', []) else (Inr (take n s), drop n s))"

definition read_sized :: "nat \<Rightarrow> bytes \<Rightarrow> bytes result \<times> bytes" where
  "read_sized limit s =
     (case read_varint s of
        (Inl e, s) \<Rightarrow> (Inl e, s)
      | (Inr n, s) \<Rightarrow>
          if limit < unat n then (Inl ''wire field exceeds limit'', s) else read_exact (unat n) s)"

section \<open>Lemmas\<close>

lemma be_bytes_Cons: "be_bytes (Suc n) v = word_of_nat (v div 256 ^ n) # be_bytes n v"
proof (induction n arbitrary: v)
  case (Suc n)
  have "be_bytes (Suc (Suc n)) v = be_bytes (Suc n) (v div 256) @ [word_of_nat v]" by simp
  also have "\<dots> = word_of_nat (v div 256 div 256 ^ n) # be_bytes n (v div 256) @ [word_of_nat v]" by (simp only: Suc append_Cons)
  finally show ?case by (simp add: div_mult2_eq mult.commute)
qed simp

lemma unat_fold_bytes:
  assumes "unat n * 256 ^ length bs + be_val bs < 2 ^ 64"
  shows "unat (foldl (\<lambda>n b. push_bit 8 n OR ucast b) (n :: u64) bs) = unat n * 256 ^ length bs + be_val bs"
  using assms
proof (induction bs rule: rev_induct)
  case (snoc b bs)
  let ?f = "foldl (\<lambda>n b. push_bit 8 n OR ucast b) n bs"
  have "(unat n * 256 ^ length bs + be_val bs) * 256 + unat b < 2 ^ 64" using snoc.prems by (simp add: algebra_simps)
  moreover from this have "unat ?f = unat n * 256 ^ length bs + be_val bs" using snoc.IH by simp
  moreover have "unat (ucast b :: u64) = unat b" by (rule unat_ucast_up) simp
  ultimately have "unat (push_bit 8 ?f OR ucast b) = unat ?f * 256 + unat b" using unat_push_or [of "ucast b :: u64" 8 ?f] by simp
  then show ?case using \<open>unat ?f = _\<close> by (simp add: algebra_simps)
qed simp

lemma varint_loop_take:
  "n \<le> length s \<Longrightarrow> varint_loop n v s = (Inr (foldl (\<lambda>n b. push_bit 8 n OR ucast b) v (take n s)), drop n s)"
proof (induction n arbitrary: v s)
  case (Suc n)
  then show ?case by (cases s) simp_all
qed simp

text \<open>The two readers agree wherever the stream is long enough.\<close>

lemma read_varint_take:
  assumes "take_varint s = (Inr v, r)"
  shows "read_varint s = (Inr v, r)"
proof (cases s)
  case (Cons b bs)
  then have "2 ^ unat (drop_bit 6 b) - 1 \<le> length bs" using assms by (auto simp: take_varint_def Let_def split: if_splits)
  then show ?thesis using assms Cons varint_loop_take [of "2 ^ unat (drop_bit 6 b) - 1" bs]
    by (auto simp: take_varint_def read_varint_def Let_def drop_Cons' split: if_splits)
qed (use assms in \<open>simp add: take_varint_def\<close>)

text \<open>The layout: the length exponent \<open>t\<close> above the value.\<close>

lemma take_varint_layout:
  assumes "t < 4" and "v < 2 ^ (8 * 2 ^ t - 2)"
  shows "take_varint (be_bytes (2 ^ t) (t * 2 ^ (8 * 2 ^ t - 2) + v) @ r) = (Inr (word_of_nat v), r)"
proof -
  define k where "k = 2 ^ t - (1 :: nat)"
  have k: "2 ^ t = Suc k" by (simp add: k_def)
  have e: "8 * 2 ^ t - 2 = 8 * k + 6" by (simp add: k)
  let ?x = "t * 2 ^ (8 * 2 ^ t - 2) + v"
  let ?h = "word_of_nat (?x div 256 ^ k) :: u8"
  have p: "(2 :: nat) ^ (8 * k + 6) = 64 * 256 ^ k" by (simp add: power_add power_mult)
  have q: "v div 256 ^ k < 64" using assms(2) unfolding e p by (simp add: less_mult_imp_div_less)
  have x: "?x div 256 ^ k = t * 64 + v div 256 ^ k" unfolding e p by (simp add: div_add1_eq mult.assoc [symmetric])
  have h: "unat ?h = t * 64 + v div 256 ^ k" unfolding x by (rule unat_word_of_nat_small) (use q assms(1) in simp)
  have tag: "unat (drop_bit 6 ?h) = t" using h q by (simp add: unat_drop_bit)
  have "?h AND 0x3f = ?h AND mask 6" by (simp add: mask_eq_exp_minus_1)
  then have "unat (?h AND 0x3f) = v div 256 ^ k" using unat_and_mask [of ?h 6] h q by simp
  moreover have "unat (ucast (?h AND 0x3f) :: u64) = unat (?h AND 0x3f)" by (rule unat_ucast_up) simp
  ultimately have n: "unat (ucast (?h AND 0x3f) :: u64) = v div 256 ^ k" by simp
  have b: "be_val (be_bytes k ?x) = v mod 256 ^ k" unfolding e p by (simp add: mod_add_eq mult.assoc [symmetric])
  have "8 * k + 6 \<le> 62" using assms(1) k by (auto simp: less_Suc_eq numeral_eq_Suc)
  then have "(2 :: nat) ^ (8 * k + 6) \<le> 2 ^ 62" by (intro power_increasing) simp_all
  then have v64: "v < 2 ^ 64" using assms(2) unfolding e by simp
  have "unat (foldl (\<lambda>n b. push_bit 8 n OR ucast b) (ucast (?h AND 0x3f) :: u64) (be_bytes k ?x)) = v"
    using unat_fold_bytes [of "ucast (?h AND 0x3f)" "be_bytes k ?x"] n b v64 div_mult_mod_eq [of v "256 ^ k"] by simp
  then have "foldl (\<lambda>n b. push_bit 8 n OR ucast b) (ucast (?h AND 0x3f) :: u64) (be_bytes k ?x) = word_of_nat v"
    using v64 by (simp add: word_eq_unat unat_word_of_nat)
  then show ?thesis unfolding k be_bytes_Cons using tag by (simp add: take_varint_def k)
qed

text \<open>Every value below \<open>2 ^ 62\<close> is written in the shortest of the four layouts.\<close>

definition varint_size :: "u64 \<Rightarrow> nat" where
  "varint_size v = (if v < 64 then 0 else if v < 16384 then 1 else if v < 2 ^ 30 then 2 else 3)"

lemma or_high:
  fixes a h :: "'l::len word"
  assumes "unat a < 2 ^ n" and "2 ^ n dvd unat h" and "unat a + unat h < 2 ^ LENGTH('l)"
  shows "unat (a OR h) = unat h + unat a"
  using assms or_plus_disjoint [where a = h and b = a and n = n] by (simp add: or.commute unat_word_ariths)

lemma put_varint_layout:
  assumes "v < 2 ^ 62"
  shows "put_varint v out = Inr (out @ be_bytes (2 ^ varint_size v) (varint_size v * 2 ^ (8 * 2 ^ varint_size v - 2) + unat v))"
    and "unat v < 2 ^ (8 * 2 ^ varint_size v - 2)"
proof -
  consider "v < 64" | "\<not> v < 64" "v < 16384" | "\<not> v < 16384" "v < 2 ^ 30" | "\<not> v < 2 ^ 30" by blast
  then have "put_varint v out = Inr (out @ be_bytes (2 ^ varint_size v) (varint_size v * 2 ^ (8 * 2 ^ varint_size v - 2) + unat v))
    \<and> unat v < 2 ^ (8 * 2 ^ varint_size v - 2)"
  proof cases
    case 1
    have "ucast v = (word_of_nat (unat v) :: u8)" by (simp add: word_eq_unat unat_ucast unat_word_of_nat)
    moreover have "unat v < 64" using 1 by (simp add: word_less_nat_alt)
    ultimately show ?thesis using 1 assms by (simp add: put_varint_def varint_size_def)
  next
    case 2
    have v: "unat v < 2 ^ 14" using 2 by (simp add: word_less_nat_alt)
    then have "unat (ucast v :: u16) = unat v" by (simp add: unat_ucast)
    then have "unat (ucast v OR 0x4000 :: u16) = 0x4000 + unat v" using v or_high [of "ucast v :: u16" 14 "0x4000"] by simp
    then show ?thesis using 2 assms v by (simp add: put_varint_def varint_size_def)
  next
    case 3
    then have l: "\<not> v < 64" by (simp add: word_less_nat_alt)
    have v: "unat v < 2 ^ 30" using 3 by (simp add: word_less_nat_alt)
    then have "unat (ucast v :: u32) = unat v" by (simp add: unat_ucast)
    then have "unat (ucast v OR 0x80000000 :: u32) = 0x80000000 + unat v" using v or_high [of "ucast v :: u32" 30 "0x80000000"] by simp
    then show ?thesis using 3 assms v l by (simp add: put_varint_def varint_size_def)
  next
    case 4
    then have l: "\<not> v < 64" "\<not> v < 16384" by (simp_all add: word_less_nat_alt)
    have v: "unat v < 2 ^ 62" using assms by (simp add: word_less_nat_alt)
    then have "unat (v OR 0xc000000000000000) = 0xc000000000000000 + unat v" using or_high [of v 62 "0xc000000000000000"] by simp
    then show ?thesis using 4 assms v l by (simp add: put_varint_def varint_size_def)
  qed
  then show "put_varint v out = Inr (out @ be_bytes (2 ^ varint_size v) (varint_size v * 2 ^ (8 * 2 ^ varint_size v - 2) + unat v))"
    "unat v < 2 ^ (8 * 2 ^ varint_size v - 2)" by blast+
qed

section \<open>Properties\<close>

lemma varint_prefix:
  assumes "v < 2 ^ 62" and "put_varint v [] = Inr e" and "k < length e"
  shows "\<exists>m. take_varint (take k e) = (Inl m, take k e)"
proof -
  note put = put_varint_layout [OF assms(1)]
  have e: "e = be_bytes (2 ^ varint_size v) (varint_size v * 2 ^ (8 * 2 ^ varint_size v - 2) + unat v)" using put(1) [of "[]"] assms(2) by simp
  have "take_varint e = (Inr v, [])"
    using take_varint_layout [OF _ put(2), of "[]"] e by (simp add: varint_size_def)
  then have l: "2 ^ unat (drop_bit 6 (hd e)) = length e" if "e \<noteq> []"
    using that by (auto simp: take_varint_def Let_def split: if_splits)
  show ?thesis
  proof (cases "k = 0")
    case False
    then have "e \<noteq> []" "hd (take k e) = hd e" using assms(3) by (cases e; simp)+
    then show ?thesis using l assms(3) False by (simp add: take_varint_def)
  qed (simp add: take_varint_def)
qed

text \<open>C17: Variable-length integers survive the wire. Every value below \<open>2 ^ 62\<close> is appended in the shortest of
  the four layouts; whatever follows, both readers give the value back and leave what follows, and a
  proper prefix of the encoding is refused without consuming anything.\<close>

theorem varint_roundtrip:
  assumes "v < 2 ^ 62"
  shows "\<exists>e. put_varint v out = Inr (out @ e) \<and> length e = 2 ^ varint_size v
    \<and> take_varint (e @ r) = (Inr v, r) \<and> read_varint (e @ r) = (Inr v, r)
    \<and> (\<forall>k < length e. \<exists>m. take_varint (take k e) = (Inl m, take k e))"
proof -
  define e where "e = be_bytes (2 ^ varint_size v) (varint_size v * 2 ^ (8 * 2 ^ varint_size v - 2) + unat v)"
  note put = put_varint_layout [OF assms]
  have "take_varint (e @ r) = (Inr v, r)"
    unfolding e_def using take_varint_layout [OF _ put(2)] by (simp add: varint_size_def)
  moreover have "put_varint v [] = Inr e" using put(1) [of "[]"] by (simp add: e_def)
  ultimately show ?thesis
    using put(1) [of out] varint_prefix [OF assms] read_varint_take by (intro exI [of _ e]) (auto simp: e_def)
qed

theorem varint_roundtrip_witness:
  "\<exists>e. put_varint 15293 [7] = Inr ([7] @ e) \<and> length e = 2 ^ varint_size 15293
    \<and> take_varint (e @ [9]) = (Inr 15293, [9]) \<and> read_varint (e @ [9]) = (Inr 15293, [9])
    \<and> (\<forall>k < length e. \<exists>m. take_varint (take k e) = (Inl m, take k e))"
  by (rule varint_roundtrip) simp

end
