(* ===== verification/Spec2Isabelle.thy ===== *)
theory Spec2Isabelle
  imports DerText FakeIp FfiProps Grpc GrpcPool VisionStream WebSocket Wire
begin

text \<open>
  A verification development for the proxy core of this repository, its C interface, its stream transports, and
  the parts of the vendored BoringSSL that certificate checks rest on. Paths below are relative to \<^verbatim>\<open>src/\<close>.

  \<^bold>\<open>The program.\<close> A host creates a core from a configuration text (\<^verbatim>\<open>crates/config\<close>) through the C interface
  (\<^verbatim>\<open>crates/ffi\<close>). The core (\<^verbatim>\<open>crates/core\<close>) binds listeners, decides for every connection on an outbound by its
  rules, selections and DNS answers, and keeps a table of connections. An outbound reaches its server through a
  stack of streams (\<^verbatim>\<open>crates/protocol\<close>): WebSocket or gRPC over TLS, with VLESS and XTLS Vision above. TLS is
  BoringSSL (\<^verbatim>\<open>third-party/boring-sys/deps/boringssl\<close>), whose byte-string reader takes certificates apart.

  \<^bold>\<open>Conventions.\<close> Machine integers are words of their width (\<open>u8\<close> to \<open>u128\<close>); \<^verbatim>\<open>usize\<close> and \<^verbatim>\<open>size_t\<close> are natural
  numbers with \<open>size_add\<close> where an addition may wrap. A Rust string is the list of its bytes. A fallible operation
  returns \<open>'a result\<close>, a sum with the error text on the left; panics are errors whose text starts with
  \<^verbatim>\<open>panic\<close>. State is passed explicitly and returned. Code outside the repository (regular expressions, YAML, JSON, UUID,
  HTTP/2, sockets, clocks, random numbers) is an argument of the operations that use it: a field of the records
  \<open>crates\<close>, \<open>libs\<close>, \<open>api\<close>, \<open>answers\<close> and \<open>start_env\<close>, or an explicit argument such as the pieces in which the bytes
  of a stream arrive. In each theory the definitions precede the properties.

  \<^bold>\<open>Theories and sources.\<close>
  \<^item> \<open>Prelude\<close>: words, byte strings and big-endian numbers; the interface \<open>wire_codec\<close> of an encoder and a decoder, and
    \<open>canonical_codec\<close>, its extension by the law that only encodings are accepted.
  \<^item> \<open>PosixTime\<close>: \<^verbatim>\<open>crypto/asn1/posix_time.cc\<close>. The conversions are mutually inverse between valid broken-down times
    and the seconds of the years 0 to 9999; adjustment inverts difference.
  \<^item> \<open>Cbs\<close>, \<open>Der\<close>, \<open>DerText\<close>: the readers of \<^verbatim>\<open>crypto/bytestring/cbs.cc\<close>. The element reader accepts exactly the DER
    encodings (three interpretations of \<open>canonical_codec\<close>: base-128 numbers, tags, elements), the BER-tolerant reader
    agrees with it, the integer readers accept exactly the shortest encodings, and object identifiers, decimal numbers
    and times are characterised by reference definitions.
  \<^item> \<open>Text\<close>, \<open>NetText\<close>: what the sources use of \<^verbatim>\<open>str\<close>, \<^verbatim>\<open>Result\<close> and \<^verbatim>\<open>core::net\<close>.
  \<^item> \<open>Rules\<close>: \<^verbatim>\<open>crates/config/src/rule.rs\<close> and the port ranges of \<^verbatim>\<open>compat.rs\<close>. Parsed conditions are well formed; the
    compiled network and domain sets match exactly what their members match; evaluation without an address is
    consistent with evaluation with one.
  \<^item> \<open>Config\<close>, \<open>Validate\<close>: \<^verbatim>\<open>crates/config/src/lib.rs\<close> and \<^verbatim>\<open>compat.rs\<close>, every record with its defaults, parsing and all
    checks of \<^verbatim>\<open>Config::validate\<close> in their order, and \<^verbatim>\<open>retain_vless\<close>.
  \<^item> \<open>Resolver\<close>, \<open>FakeIp\<close>: the state of \<^verbatim>\<open>crates/core/src/dns.rs\<close> (compiled policy, cache, fake addresses) and its
    operations. The cache keeps its bounds and byte count; fake addresses are unique, stable, inside their pools,
    traced back to their names and restored by an import of their export.
  \<^item> \<open>Policy\<close>, \<open>Core\<close>: \<^verbatim>\<open>crates/core/src/lib.rs\<close>, \<^verbatim>\<open>profile.rs\<close> and \<^verbatim>\<open>traffic.rs\<close>. The record \<open>core\<close> is the state of a
    \<^verbatim>\<open>Core\<close>; \<open>core_step\<close> has one rule per operation, background tasks and answered queries included, and \<open>core_ok\<close> is the
    invariant of the reachable states. Route decisions always end at an outbound; deciding lazily equals deciding with the
    address in advance; failed updates leave the core as it was.
  \<^item> \<open>FfiSpec\<close>, \<open>Ffi\<close>, \<open>FfiProofs\<close>, \<open>FfiProps\<close>: the contract written in \<^verbatim>\<open>crates/ffi/include/meta_rust.h\<close> as a step
    relation on abstract handles, the implementation (\<^verbatim>\<open>crates/ffi/src/lib.rs\<close>, \<^verbatim>\<open>host.rs\<close>) with one definition per exported
    function, and the refinement: \<open>forward_simulation\<close>, interpreted on \<open>ffi_step\<close> and the contract, carries the
    promises on handles, callbacks, errors and packets to the implementation.
  \<^item> \<open>Wire\<close>: \<^verbatim>\<open>crates/protocol/src/wire.rs\<close>; both decoders invert the encoder.
  \<^item> \<open>Framing\<close>: polls, pieces of input, and the interface \<open>framing\<close> of messages cut out of a buffer, interpreted by
    \<open>WebSocket\<close> (server frames) and \<open>Grpc\<close> (Gun messages).
  \<^item> \<open>WebSocket\<close>, \<open>Grpc\<close>: \<^verbatim>\<open>crates/protocol/src/websocket.rs\<close> and \<^verbatim>\<open>grpc.rs\<close>. Reads deliver the data under every cutting and
    timing of the input and wait only when nothing more can be delivered; writes hand over exactly the frames of
    what they accepted. Two faults of the WebSocket reader are stated as theorems.
  \<^item> \<open>GrpcPool\<close>: concurrent calls of \<^verbatim>\<open>connect\<close> in \<^verbatim>\<open>grpc.rs\<close>, cut at their suspension points. Every interleaving keeps the limits
    of the pool and the counts of its leases.
  \<^item> \<open>Vision\<close>, \<open>VisionStream\<close>: \<^verbatim>\<open>crates/protocol/src/vision.rs\<close> above the response header of \<^verbatim>\<open>vless.rs\<close> and the two layers of
    \<^verbatim>\<open>record.rs\<close>. The detection of the inner handshake does not depend on the cutting of its input; one end reads what the
    other wrote. The interface \<open>layer\<close> of a readable stream is interpreted by the record stream and by the response stream.

  \<^bold>\<open>Termination and bounds.\<close> All definitions are total. Loops over a buffer or over arriving pieces are functions with a
  measure, the bytes that are left; no definition has fuel of its own. Two counters are those of the source: \<open>leaf_loop\<close>
  follows at most one selection more than there are groups, which validated groups, having no cycle, do not reach, and
  \<open>read_loop\<close> reads at most 64 frame headers before it yields to the scheduler. The limits of the sources (4096 connections, 4096 cache entries and 8 MiB, 32768 fake addresses, 16 handles, 256 queued
  packets, nesting of rules, message sizes) appear as written.

  \<^bold>\<open>Abstractions.\<close> Hash maps are maps, or lists where their size is summed up. DNS messages in the cache are their
  encodings. A route decision is given the answer of its lookup; what the lookup leaves in the cache is a step of its
  own. Locks that are held during one operation make it atomic. In \<open>GrpcPool\<close> and \<open>Ffi\<close>, where operations interleave, they
  are cut into steps. Broken-down times have the six fields that the sources use. Two error texts that contain text of
  another library are shortened: the status of a rejected gRPC response, and the reason why no reply came from a
  worker.

  \<^bold>\<open>Not modelled.\<close> The exchanges of the resolver with its upstream servers, host aliases, and loading of routing data
  (network and files); inbound SOCKS and HTTP sessions, the packet stack, sniffing and clock synchronisation; the TLS
  client and REALITY, which drive BoringSSL through its binding; the request side of WebSocket and VLESS, UDP sessions
  and XUDP; the controller API, the command line and the platform layer; BoringSSL beyond the files above, and the two
  functions of \<^verbatim>\<open>cbs.cc\<close> that print object identifiers.
\<close>

end
